(* ===== verification/Prelude.thy ===== *)
theory Prelude
  imports Main "HOL-Library.Word"
begin

text \<open>
  The prelude of the development: the machine integers of the Rust sources, the checked and
  saturating arithmetic of the Rust standard library, the two list operations the sources use on
  fixed arrays (\<open>slice::get\<close> and \<open>Iterator::position\<close>), and the generic lemmas on them. The
  collections \<open>rust_arith\<close> and \<open>word_bits\<close> carry the facts that the component theories
  rewrite with.
\<close>

unbundle bit_operations_syntax

named_theorems rust_arith \<open>unfolding rules for the arithmetic of the Rust standard library\<close>
named_theorems word_bits \<open>rules that turn a word equation into one about its bits\<close>

type_synonym u8 = "8 word"
type_synonym u16 = "16 word"
type_synonym u32 = "32 word"
type_synonym u64 = "64 word"

abbreviation Ok :: "'a \<Rightarrow> 'e + 'a" where
  "Ok \<equiv> Inr"

abbreviation Err :: "'e \<Rightarrow> 'e + 'a" where
  "Err \<equiv> Inl"

section \<open>Arithmetic of the Rust standard library\<close>

definition checked_add :: "'a::len word \<Rightarrow> 'a word \<Rightarrow> 'a word option" where
  "checked_add a b = (if unat a + unat b < 2 ^ LENGTH('a) then Some (a + b) else None)"

definition checked_mul :: "'a::len word \<Rightarrow> 'a word \<Rightarrow> 'a word option" where
  "checked_mul a b = (if unat a * unat b < 2 ^ LENGTH('a) then Some (a * b) else None)"

definition saturating_add :: "'a::len word \<Rightarrow> 'a word \<Rightarrow> 'a word" where
  "saturating_add a b = (if unat a + unat b < 2 ^ LENGTH('a) then a + b else - 1)"

definition saturating_sub :: "'a::len word \<Rightarrow> 'a word \<Rightarrow> 'a word" where
  "saturating_sub a b = (if b \<le> a then a - b else 0)"

lemma unat_inject_iff [simp]: "unat (a :: 'a::len word) = unat b \<longleftrightarrow> a = b"
  by (auto intro: unsigned_word_eqI)

lemma unat_add_small:
  fixes a b :: "'a::len word"
  assumes "unat a + unat b < 2 ^ LENGTH('a)"
  shows "unat (a + b) = unat a + unat b"
  using assms by (simp add: unat_word_ariths)

lemma unat_mult_small:
  fixes a b :: "'a::len word"
  assumes "unat a * unat b < 2 ^ LENGTH('a)"
  shows "unat (a * b) = unat a * unat b"
  using assms by (simp add: unat_word_ariths)

lemma checked_add_Some_iff:
  fixes a b c :: "'a::len word"
  shows "checked_add a b = Some c \<longleftrightarrow> unat c = unat a + unat b"
proof
  assume "checked_add a b = Some c"
  then show "unat c = unat a + unat b"
    by (auto simp: checked_add_def unat_add_small split: if_splits)
next
  assume c: "unat c = unat a + unat b"
  then have lt: "unat a + unat b < 2 ^ LENGTH('a)"
    using unsigned_less [of c, where ?'a = nat] by simp
  then have "unat (a + b) = unat c"
    using c by (simp add: unat_add_small)
  then have "a + b = c" by (rule unsigned_word_eqI)
  with lt show "checked_add a b = Some c"
    by (simp add: checked_add_def)
qed

lemma checked_add_None_iff:
  fixes a b :: "'a::len word"
  shows "checked_add a b = None \<longleftrightarrow> 2 ^ LENGTH('a) \<le> unat a + unat b"
  by (auto simp: checked_add_def)

lemma checked_mul_Some_iff:
  fixes a b c :: "'a::len word"
  shows "checked_mul a b = Some c \<longleftrightarrow> unat c = unat a * unat b"
proof
  assume "checked_mul a b = Some c"
  then show "unat c = unat a * unat b"
    by (auto simp: checked_mul_def unat_mult_small split: if_splits)
next
  assume c: "unat c = unat a * unat b"
  then have lt: "unat a * unat b < 2 ^ LENGTH('a)"
    using unsigned_less [of c, where ?'a = nat] by simp
  then have "unat (a * b) = unat c"
    using c by (simp add: unat_mult_small)
  then have "a * b = c" by (rule unsigned_word_eqI)
  with lt show "checked_mul a b = Some c"
    by (simp add: checked_mul_def)
qed

lemma unat_saturating_add:
  fixes a b :: "'a::len word"
  shows "unat (saturating_add a b) = min (unat a + unat b) (2 ^ LENGTH('a) - 1)"
proof (cases "unat a + unat b < 2 ^ LENGTH('a)")
  case True
  then show ?thesis
    by (simp add: saturating_add_def unat_add_small)
next
  case False
  then show ?thesis
    by (simp add: saturating_add_def unsigned_minus_1_eq_mask mask_eq_exp_minus_1)
qed

lemma unat_saturating_sub:
  fixes a b :: "'a::len word"
  shows "unat (saturating_sub a b) = unat a - unat b"
  by (auto simp: saturating_sub_def word_le_nat_alt unat_sub)

lemmas checked_arith_iff [rust_arith] =
  checked_add_Some_iff checked_add_None_iff checked_mul_Some_iff

section \<open>Words as sequences of bits\<close>

lemma word_eq_bits [word_bits]: "(v :: 'a::len word) = w \<longleftrightarrow> (\<forall>n. bit v n = bit w n)"
  by (auto intro: bit_word_eqI)

lemma drop_bit_eq_bits [word_bits]:
  "drop_bit s (v :: 'a::len word) = drop_bit s w \<longleftrightarrow> (\<forall>n \<ge> s. bit v n = bit w n)"
proof -
  have "drop_bit s v = drop_bit s w \<longleftrightarrow> (\<forall>n. bit v (s + n) = bit w (s + n))"
    by (simp only: word_eq_bits bit_drop_bit_eq comp_apply)
  also have "\<dots> \<longleftrightarrow> (\<forall>n \<ge> s. bit v n = bit w n)"
    by (metis le_add1 le_add_diff_inverse)
  finally show ?thesis .
qed

section \<open>Fixed arrays: reading by index and searching for the first match\<close>

text \<open>\<open>slice::get\<close>: the element at an index, or nothing when the index is out of range.\<close>

definition slice_get :: "'a list \<Rightarrow> nat \<Rightarrow> 'a option" where
  "slice_get xs i = (if i < length xs then Some (xs ! i) else None)"

text \<open>\<open>Iterator::position\<close>: the index of the first element that satisfies the predicate.\<close>

fun position :: "('a \<Rightarrow> bool) \<Rightarrow> 'a list \<Rightarrow> nat option" where
  "position P [] = None"
| "position P (x # xs) = (if P x then Some 0 else map_option Suc (position P xs))"

lemma slice_get_Some_iff [simp]:
  "slice_get xs i = Some x \<longleftrightarrow> i < length xs \<and> xs ! i = x"
  by (auto simp: slice_get_def)

lemma slice_get_None_iff [simp]: "slice_get xs i = None \<longleftrightarrow> length xs \<le> i"
  by (auto simp: slice_get_def)

lemma position_None_iff: "position P xs = None \<longleftrightarrow> (\<forall>x \<in> set xs. \<not> P x)"
  by (induction xs) auto

lemma position_Some_iff:
  "position P xs = Some i \<longleftrightarrow> i < length xs \<and> P (xs ! i) \<and> (\<forall>j < i. \<not> P (xs ! j))"
proof (induction xs arbitrary: i)
  case Nil
  then show ?case by simp
next
  case (Cons x xs)
  show ?case
  proof (cases i)
    case 0
    then show ?thesis by auto
  next
    case (Suc k)
    then show ?thesis
      using Cons.IH [of k] by (auto simp: less_Suc_eq_0_disj)
  qed
qed

lemma position_SomeD:
  assumes "position P xs = Some i"
  shows "i < length xs" and "P (xs ! i)"
  using assms by (auto simp: position_Some_iff)

lemma position_exists: "(\<exists>x \<in> set xs. P x) \<Longrightarrow> \<exists>i. position P xs = Some i"
  using position_None_iff [of P xs] by (cases "position P xs") auto

section \<open>Panics\<close>

text \<open>A call that may panic returns \<open>Err (Panic message)\<close>.\<close>

datatype panic = Panic string

type_synonym 'a checked = "panic + 'a"

definition rust_assert :: "bool \<Rightarrow> string \<Rightarrow> 'a checked \<Rightarrow> 'a checked" where
  "rust_assert c msg k = (if c then k else Err (Panic msg))"

lemma rust_assert_Ok_iff [simp]: "rust_assert c msg k = Ok v \<longleftrightarrow> c \<and> k = Ok v"
  by (simp add: rust_assert_def)

text \<open>\<open>Option::unwrap\<close> and \<open>expect\<close>, and the sequencing of two calls that may panic.\<close>

definition unwrap :: "'a option \<Rightarrow> string \<Rightarrow> ('a \<Rightarrow> 'b checked) \<Rightarrow> 'b checked" where
  "unwrap x msg k = (case x of None \<Rightarrow> Err (Panic msg) | Some v \<Rightarrow> k v)"

definition and_then :: "'a checked \<Rightarrow> ('a \<Rightarrow> 'b checked) \<Rightarrow> 'b checked" where
  "and_then x k = (case x of Err e \<Rightarrow> Err e | Ok v \<Rightarrow> k v)"

lemma unwrap_Ok_iff [simp]: "unwrap x msg k = Ok v \<longleftrightarrow> (\<exists>y. x = Some y \<and> k y = Ok v)"
  by (simp add: unwrap_def split: option.splits)

lemma unwrap_Some [simp]: "unwrap (Some y) msg k = k y"
  by (simp add: unwrap_def)

lemma and_then_Ok_iff [simp]: "and_then x k = Ok v \<longleftrightarrow> (\<exists>y. x = Ok y \<and> k y = Ok v)"
  by (simp add: and_then_def split: sum.splits)

lemma and_then_Ok [simp]: "and_then (Ok y) k = k y"
  by (simp add: and_then_def)

definition div_ceil :: "'a::len word \<Rightarrow> 'a word \<Rightarrow> 'a word" where
  "div_ceil a b = a div b + (if a mod b \<noteq> 0 then 1 else 0)"

lemma div_ceil_nat:
  fixes a b :: nat
  assumes "0 < b"
  shows "(a + b - 1) div b = a div b + (if a mod b = 0 then 0 else 1)"
proof (rule div_nat_eqI)
  have a: "b * (a div b) + a mod b = a" by simp
  have r: "a mod b < b" using assms by simp
  have "b * (a div b) \<le> a" by (metis a le_add1)
  moreover have "b * (a div b) + 1 \<le> a" if "a mod b \<noteq> 0" using a that by linarith
  ultimately show "b * (a div b + (if a mod b = 0 then 0 else 1)) \<le> a + b - 1"
    using assms by (auto simp: algebra_simps)
  have "a < b * (a div b) + b" using a r by linarith
  moreover have "a = b * (a div b)" if "a mod b = 0" using a that by linarith
  ultimately show "a + b - 1 < b * Suc (a div b + (if a mod b = 0 then 0 else 1))"
    using assms by (auto simp: algebra_simps)
qed

lemma unat_div_ceil:
  fixes a b :: "'a::len word"
  assumes "0 < unat b"
  shows "unat (div_ceil a b) = (unat a + unat b - 1) div unat b"
proof -
  let ?a = "unat a" and ?b = "unat b"
  have mod: "a mod b = 0 \<longleftrightarrow> ?a mod ?b = 0"
    by (metis unat_eq_zero unat_mod)
  have "?a div ?b + ?a mod ?b \<le> ?b * (?a div ?b) + ?a mod ?b"
    using assms by (simp only: add_le_cancel_right) simp
  also have "\<dots> = ?a" by simp
  also have "?a < 2 ^ LENGTH('a)" by (rule unsigned_less)
  finally have lt: "?a div ?b + ?a mod ?b < 2 ^ LENGTH('a)" .
  show ?thesis
  proof (cases "a mod b = 0")
    case True
    with mod div_ceil_nat [OF assms, of ?a] show ?thesis by (simp add: div_ceil_def unat_div)
  next
    case False
    with mod lt have "unat (a div b) + unat (1 :: 'a word) < 2 ^ LENGTH('a)"
      by (simp add: unat_div)
    from unat_add_small [OF this] False mod div_ceil_nat [OF assms, of ?a] show ?thesis
      by (simp add: div_ceil_def unat_div)
  qed
qed

end
