(* ===== verification/Frames.thy ===== *)
theory Frames
  imports Prelude
begin

text \<open>
  The physical frame allocator of \<open>src/crates/frames/src/lib.rs\<close>: a bitmap with one bit per frame,
  a count of used frames and a hint. The bitmap is the code's byte array; \<open>used_frames\<close> is the set
  of frame indices whose bit is set, and each operation is characterised by what it does to that
  set. A failed assertion is \<open>Err (Panic \<dots>)\<close>.
\<close>

definition FRAME_SIZE :: u64 where
  "FRAME_SIZE = 4096"

datatype frame = Frame (addr: u64)

definition from_addr :: "u64 \<Rightarrow> frame checked" where
  "from_addr a = rust_assert (a mod FRAME_SIZE = 0) ''address is not frame-aligned'' (Ok (Frame a))"

definition containing :: "u64 \<Rightarrow> frame" where
  "containing a = Frame (a - a mod FRAME_SIZE)"

record stats =
  st_total :: nat
  st_used :: nat

definition stats_free :: "stats \<Rightarrow> nat" where
  "stats_free s = st_total s - st_used s"

record frame_allocator =
  bitmap :: "u8 list"
  fbase :: u64
  total :: nat
  used :: nat
  hint :: nat

definition bitmap_bytes :: "nat \<Rightarrow> nat" where
  "bitmap_bytes frames = (frames + 7) div 8"

definition frames_in :: "u64 \<Rightarrow> nat" where
  "frames_in bytes = unat (bytes div FRAME_SIZE)"

definition fa_get :: "frame_allocator \<Rightarrow> nat \<Rightarrow> bool" where
  "fa_get a i \<longleftrightarrow> bitmap a ! (i div 8) AND push_bit (i mod 8) 1 \<noteq> 0"

definition fa_set :: "frame_allocator \<Rightarrow> nat \<Rightarrow> bool \<Rightarrow> frame_allocator" where
  "fa_set a i v =
     (let byte = bitmap a ! (i div 8); mask = push_bit (i mod 8) 1
      in a\<lparr>bitmap := (bitmap a)[i div 8 := if v then byte OR mask else byte AND NOT mask]\<rparr>)"

definition fa_new :: "u64 \<Rightarrow> nat \<Rightarrow> u8 list \<Rightarrow> frame_allocator checked" where
  "fa_new base n bm =
     rust_assert (base mod FRAME_SIZE = 0) ''base must be frame-aligned''
       (rust_assert (length bm \<ge> bitmap_bytes n) ''bitmap too small''
         (Ok \<lparr>bitmap = map (\<lambda>_. 0xff) bm, fbase = base, total = n, used = n, hint = 0\<rparr>))"

definition fa_stats :: "frame_allocator \<Rightarrow> stats" where
  "fa_stats a = \<lparr>st_total = total a, st_used = used a\<rparr>"

text \<open>The half-open range of frame indices, as a list.\<close>

definition frame_range :: "frame_allocator \<Rightarrow> u64 \<Rightarrow> u64 \<Rightarrow> nat list" where
  "frame_range a start bytes =
     (if bytes = 0 \<or> saturating_add start bytes \<le> fbase a then []
      else (let first = max start (fbase a) - fbase a;
                last = saturating_sub (saturating_add start bytes) (fbase a);
                lo = unat (first div FRAME_SIZE);
                hi = min (unat (div_ceil last FRAME_SIZE)) (total a)
            in if lo \<ge> hi then [] else [lo ..< hi]))"

abbreviation mark_free_at :: "nat \<Rightarrow> frame_allocator \<Rightarrow> frame_allocator" where
  "mark_free_at i a \<equiv> if fa_get a i then (fa_set a i False)\<lparr>used := used a - 1\<rparr> else a"

abbreviation mark_used_at :: "nat \<Rightarrow> frame_allocator \<Rightarrow> frame_allocator" where
  "mark_used_at i a \<equiv> if \<not> fa_get a i then (fa_set a i True)\<lparr>used := used a + 1\<rparr> else a"

definition mark_free :: "frame_allocator \<Rightarrow> u64 \<Rightarrow> u64 \<Rightarrow> frame_allocator" where
  "mark_free a start bytes =
     (fold mark_free_at (frame_range a start bytes) a)\<lparr>hint := 0\<rparr>"

definition mark_used :: "frame_allocator \<Rightarrow> u64 \<Rightarrow> u64 \<Rightarrow> frame_allocator" where
  "mark_used a start bytes =
     fold mark_used_at (frame_range a start bytes) a"

definition frame_at :: "frame_allocator \<Rightarrow> nat \<Rightarrow> frame" where
  "frame_at a i = Frame (fbase a + of_nat i * FRAME_SIZE)"

definition fa_alloc :: "frame_allocator \<Rightarrow> frame option \<times> frame_allocator" where
  "fa_alloc a =
     (case List.find (\<lambda>i. \<not> fa_get a i) ([hint a ..< total a] @ [0 ..< hint a]) of
        None \<Rightarrow> (None, a)
      | Some i \<Rightarrow>
          (Some (frame_at a i), (fa_set a i True)\<lparr>used := used a + 1, hint := i + 1\<rparr>))"

text \<open>The scan of \<open>alloc_contiguous\<close>: the indices still to visit, the start of the current run and
  its length.\<close>

fun contiguous_scan :: "frame_allocator \<Rightarrow> nat \<Rightarrow> nat list \<Rightarrow> nat \<Rightarrow> nat \<Rightarrow> nat option" where
  "contiguous_scan a count [] run_start run = None"
| "contiguous_scan a count (i # is) run_start run =
     (if fa_get a i then contiguous_scan a count is (i + 1) 0
      else if run + 1 = count then Some run_start
      else contiguous_scan a count is run_start (run + 1))"

definition fa_alloc_contiguous :: "frame_allocator \<Rightarrow> nat \<Rightarrow> frame option \<times> frame_allocator" where
  "fa_alloc_contiguous a count =
     (if count = 0 \<or> count > total a then (None, a)
      else (case contiguous_scan a count [0 ..< total a] 0 0 of
              None \<Rightarrow> (None, a)
            | Some run_start \<Rightarrow>
                (Some (frame_at a run_start),
                 (fold (\<lambda>j a. fa_set a j True) [run_start ..< run_start + count] a)
                   \<lparr>used := used a + count\<rparr>)))"

fun largest_run_scan :: "frame_allocator \<Rightarrow> nat list \<Rightarrow> nat \<Rightarrow> nat \<Rightarrow> nat" where
  "largest_run_scan a [] best run = best"
| "largest_run_scan a (i # is) best run =
     (if fa_get a i then largest_run_scan a is best 0
      else largest_run_scan a is (if run + 1 > best then run + 1 else best) (run + 1))"

definition largest_free_run :: "frame_allocator \<Rightarrow> nat" where
  "largest_free_run a = largest_run_scan a [0 ..< total a] 0 0"

definition index_of :: "frame_allocator \<Rightarrow> frame \<Rightarrow> nat option" where
  "index_of a f =
     (if addr f < fbase a then None
      else (let i = unat ((addr f - fbase a) div FRAME_SIZE)
            in if i < total a then Some i else None))"

definition fa_free :: "frame_allocator \<Rightarrow> frame \<Rightarrow> frame_allocator checked" where
  "fa_free a f =
     (case index_of a f of
        None \<Rightarrow> Err (Panic ''freeing a frame we don't own'')
      | Some i \<Rightarrow>
          rust_assert (fa_get a i) ''double free of frame''
            (Ok ((fa_set a i False)\<lparr>used := used a - 1, hint := min (hint a) i\<rparr>)))"

definition is_used :: "frame_allocator \<Rightarrow> frame \<Rightarrow> bool option" where
  "is_used a f = map_option (fa_get a) (index_of a f)"

section \<open>The set of used frames\<close>

definition used_frames :: "frame_allocator \<Rightarrow> nat set" where
  "used_frames a = {i. i < total a \<and> fa_get a i}"

text \<open>
  The type invariant: the bitmap is large enough, the count is the number of set bits, and the
  managed frames fit below the end of the address space.
\<close>

definition fa_wf :: "frame_allocator \<Rightarrow> bool" where
  "fa_wf a \<longleftrightarrow> bitmap_bytes (total a) \<le> length (bitmap a) \<and> used a = card (used_frames a)
     \<and> hint a \<le> total a \<and> unat (fbase a) mod 4096 = 0
     \<and> unat (fbase a) + total a * 4096 \<le> 2 ^ 64"

lemma finite_used_frames [simp]: "finite (used_frames a)"
  by (simp add: used_frames_def)

lemma bitmap_index:
  assumes "i < n" and "bitmap_bytes n \<le> length bm"
  shows "i div 8 < length bm"
  using assms by (simp add: bitmap_bytes_def)

lemma fa_get_bit: "fa_get a i \<longleftrightarrow> bit (bitmap a ! (i div 8)) (i mod 8)"
  by (simp add: fa_get_def bit_iff_and_push_bit_not_eq_0)

lemma fa_set_simps [simp]:
  "total (fa_set a i v) = total a" "used (fa_set a i v) = used a" "hint (fa_set a i v) = hint a"
  "fbase (fa_set a i v) = fbase a" "length (bitmap (fa_set a i v)) = length (bitmap a)"
  by (simp_all add: fa_set_def Let_def)

lemma fa_get_upd [simp]:
  "fa_get (a\<lparr>used := u\<rparr>) i = fa_get a i" "fa_get (a\<lparr>hint := h\<rparr>) i = fa_get a i"
  by (simp_all add: fa_get_def)

lemma fa_get_set:
  assumes "i div 8 < length (bitmap a)"
  shows "fa_get (fa_set a i v) j = (if j = i then v else fa_get a j)"
proof (cases "j div 8 = i div 8")
  case False
  then show ?thesis by (auto simp: fa_get_def fa_set_def Let_def)
next
  case True
  then have "j mod 8 = i mod 8 \<longleftrightarrow> j = i"
    by (metis div_mod_decomp)
  moreover have "i mod 8 < 8" "j mod 8 < 8" by simp_all
  ultimately show ?thesis
    using assms True by (auto simp: fa_get_bit fa_set_def Let_def bit_simps)
qed

lemma used_frames_upd [simp]:
  "used_frames (a\<lparr>used := u\<rparr>) = used_frames a" "used_frames (a\<lparr>hint := h\<rparr>) = used_frames a"
  by (simp_all add: used_frames_def)

lemma used_frames_set:
  assumes "i < total a" and "bitmap_bytes (total a) \<le> length (bitmap a)"
  shows "used_frames (fa_set a i v) = (if v then insert i (used_frames a) else used_frames a - {i})"
  using assms bitmap_index [OF assms] by (auto simp: used_frames_def fa_get_set)

lemma fa_wfD:
  assumes "fa_wf a"
  shows "bitmap_bytes (total a) \<le> length (bitmap a)" and "used a = card (used_frames a)"
    and "hint a \<le> total a" and "unat (fbase a) mod 4096 = 0"
    and "unat (fbase a) + total a * 4096 \<le> 2 ^ 64"
  using assms by (auto simp: fa_wf_def)

lemma fa_wf_hint: "fa_wf a \<Longrightarrow> h \<le> total a \<Longrightarrow> fa_wf (a\<lparr>hint := h\<rparr>)"
  by (simp add: fa_wf_def)

lemma fa_new_wf:
  assumes "fa_new b n bm = Ok a" and "unat b + n * 4096 \<le> 2 ^ 64"
  shows "fa_wf a" and "used_frames a = {..< n}" and "total a = n" and "fbase a = b"
proof -
  from assms(1) have a: "a = \<lparr>bitmap = map (\<lambda>_. 0xff) bm, fbase = b, total = n, used = n, hint = 0\<rparr>"
      and len: "bitmap_bytes n \<le> length bm" and b: "b mod FRAME_SIZE = 0"
    by (auto simp: fa_new_def)
  have "(0xff :: u8) = mask 8"
    by (simp add: mask_eq_exp_minus_1)
  then have "bit (0xff :: u8) (i mod 8)" for i :: nat
    by (simp only: bit_mask_iff) simp
  moreover have "i div 8 < length bm" if "i < n" for i
    using bitmap_index [OF that len] .
  ultimately have "fa_get a i" if "i < n" for i
    using that by (simp add: fa_get_bit a)
  then show U: "used_frames a = {..< n}"
    by (auto simp: used_frames_def a)
  from b have "unat (b mod FRAME_SIZE) = 0"
    by simp
  then have "unat b mod 4096 = 0"
    by (simp add: unat_mod FRAME_SIZE_def)
  with U len assms(2) show "fa_wf a"
    by (simp add: fa_wf_def a)
  show "total a = n" and "fbase a = b"
    by (simp_all add: a)
qed

text \<open>Changing one bit together with the count.\<close>

lemma fa_take:
  assumes "fa_wf a" and "i < total a" and "i \<notin> used_frames a" and "h \<le> total a"
  shows "fa_wf ((fa_set a i True)\<lparr>used := used a + 1, hint := h\<rparr>)"
    and "used_frames ((fa_set a i True)\<lparr>used := used a + 1, hint := h\<rparr>) = insert i (used_frames a)"
proof -
  note wf = fa_wfD [OF assms(1)]
  show U: "used_frames ((fa_set a i True)\<lparr>used := used a + 1, hint := h\<rparr>) = insert i (used_frames a)"
    using used_frames_set [OF assms(2) wf(1)] by simp
  have "unat (fbase a) mod 4096 = 0" by (rule wf(4))
  with U wf assms show "fa_wf ((fa_set a i True)\<lparr>used := used a + 1, hint := h\<rparr>)"
    unfolding fa_wf_def by simp
qed

lemma fa_drop:
  assumes "fa_wf a" and "i \<in> used_frames a" and "h \<le> total a"
  shows "fa_wf ((fa_set a i False)\<lparr>used := used a - 1, hint := h\<rparr>)"
    and "used_frames ((fa_set a i False)\<lparr>used := used a - 1, hint := h\<rparr>) = used_frames a - {i}"
    and "0 < used a"
proof -
  note wf = fa_wfD [OF assms(1)]
  have i: "i < total a" using assms(2) by (simp add: used_frames_def)
  show U: "used_frames ((fa_set a i False)\<lparr>used := used a - 1, hint := h\<rparr>) = used_frames a - {i}"
    using used_frames_set [OF i wf(1)] by simp
  show "0 < used a"
    using assms(2) wf(2) by (auto simp: card_gt_0_iff)
  from U wf assms show "fa_wf ((fa_set a i False)\<lparr>used := used a - 1, hint := h\<rparr>)"
    unfolding fa_wf_def by simp
qed

lemma frame_at_index:
  assumes "fa_wf a" and "i < total a"
  shows "index_of a (frame_at a i) = Some i" and "addr (frame_at a i) mod FRAME_SIZE = 0"
    and "unat (addr (frame_at a i)) = unat (fbase a) + i * 4096"
proof -
  note wf = fa_wfD [OF assms(1)]
  have lt: "unat (fbase a) + i * 4096 < 2 ^ 64"
    using wf(5) assms(2) by linarith
  have off: "unat (of_nat i * FRAME_SIZE :: u64) = i * 4096"
    using lt by (simp add: FRAME_SIZE_def unat_word_ariths unsigned_of_nat take_bit_eq_mod mod_mult_left_eq)
  show addr: "unat (addr (frame_at a i)) = unat (fbase a) + i * 4096"
    using lt off by (simp add: frame_at_def unat_add_small)
  show "addr (frame_at a i) mod FRAME_SIZE = 0"
    using addr wf(4) by (simp add: FRAME_SIZE_def unat_eq_zero [symmetric] unat_mod)
  have "\<not> addr (frame_at a i) < fbase a"
    using addr by (simp add: word_less_nat_alt)
  moreover from this have "unat ((addr (frame_at a i) - fbase a) div FRAME_SIZE) = i"
    by (simp add: unat_div unat_sub addr FRAME_SIZE_def not_less)
  ultimately show "index_of a (frame_at a i) = Some i"
    using assms(2) by (simp add: index_of_def)
qed

section \<open>Allocation\<close>

lemma find_SomeD: "List.find P xs = Some x \<Longrightarrow> x \<in> set xs \<and> P x"
  by (induction xs) (auto split: if_splits)

lemma fa_alloc_cases:
  assumes "fa_wf a"
  obtains (full) "fa_alloc a = (None, a)" "used_frames a = {..< total a}"
  | (taken) i where "i < total a" "i \<notin> used_frames a"
      "fa_alloc a = (Some (frame_at a i), (fa_set a i True)\<lparr>used := used a + 1, hint := i + 1\<rparr>)"
proof -
  let ?order = "[hint a ..< total a] @ [0 ..< hint a]"
  have set: "set ?order = {..< total a}"
    using fa_wfD(3) [OF assms] by auto
  show thesis
  proof (cases "List.find (\<lambda>i. \<not> fa_get a i) ?order")
    case None
    with set full show thesis
      by (auto simp: fa_alloc_def find_None_iff used_frames_def)
  next
    case (Some i)
    then have "i \<in> set ?order" "\<not> fa_get a i"
      using find_SomeD [OF Some] by simp_all
    with set Some taken [of i] show thesis
      by (auto simp: fa_alloc_def used_frames_def)
  qed
qed

text \<open>\<open>contiguous_scan\<close> finds the lowest run of \<open>count\<close> free frames, if there is one.\<close>

definition free_run :: "frame_allocator \<Rightarrow> nat \<Rightarrow> nat \<Rightarrow> bool" where
  "free_run a s n \<longleftrightarrow> s + n \<le> total a \<and> (\<forall>j \<in> {s ..< s + n}. \<not> fa_get a j)"

lemma contiguous_scan_correct:
  assumes "run_start + run = i" and "i \<le> total a" and "run < count"
    and "\<forall>j \<in> {run_start ..< i}. \<not> fa_get a j"
    and "\<forall>s < run_start. \<not> free_run a s count"
  shows "case contiguous_scan a count [i ..< total a] run_start run of
      None \<Rightarrow> \<forall>s. \<not> free_run a s count
    | Some s \<Rightarrow> free_run a s count \<and> (\<forall>s' < s. \<not> free_run a s' count)"
  using assms
proof (induction "total a - i" arbitrary: i run_start run)
  case 0
  then have "i = total a" by simp
  moreover have "\<not> free_run a s count" for s
    using 0 by (cases "s < run_start") (auto simp: free_run_def)
  ultimately show ?case by simp
next
  case (Suc k)
  then have i: "i < total a" by simp
  then have upt: "[i ..< total a] = i # [Suc i ..< total a]"
    by (rule upt_conv_Cons)
  show ?case
  proof (cases "fa_get a i")
    case True
    have "\<not> free_run a s count" if "s < Suc i" for s
      using that True Suc.prems i by (cases "s < run_start") (auto simp: free_run_def)
    with Suc.hyps(1) [of "Suc i" "Suc i" 0] Suc.hyps(2) Suc.prems(3) i True show ?thesis
      by (simp add: upt)
  next
    case False
    have free: "\<forall>j \<in> {run_start ..< Suc i}. \<not> fa_get a j"
      using Suc.prems(4) False by (auto simp: less_Suc_eq)
    show ?thesis
    proof (cases "run + 1 = count")
      case True
      with False free Suc.prems(1,5) i show ?thesis
        by (simp add: upt free_run_def)
    next
      case neq: False
      with Suc.hyps(1) [of "Suc i" run_start "run + 1"] Suc.hyps(2) Suc.prems free i False show ?thesis
        by (simp add: upt)
    qed
  qed
qed

lemma fold_set_True:
  assumes "\<forall>j \<in> set js. j < total a" and "bitmap_bytes (total a) \<le> length (bitmap a)"
  defines "b \<equiv> fold (\<lambda>j a. fa_set a j True) js a"
  shows "used_frames b = used_frames a \<union> set js" and "total b = total a" and "fbase b = fbase a"
    and "hint b = hint a" and "used b = used a" and "length (bitmap b) = length (bitmap a)"
proof -
  have "used_frames b = used_frames a \<union> set js \<and> total b = total a \<and> fbase b = fbase a
      \<and> hint b = hint a \<and> used b = used a \<and> length (bitmap b) = length (bitmap a)"
    using assms unfolding b_def
    by (induction js arbitrary: a) (auto simp: used_frames_set)
  then show "used_frames b = used_frames a \<union> set js" and "total b = total a" and "fbase b = fbase a"
    and "hint b = hint a" and "used b = used a" and "length (bitmap b) = length (bitmap a)"
    by simp_all
qed

lemma fa_alloc_contiguous_cases:
  assumes "fa_wf a"
  obtains (none) "fa_alloc_contiguous a n = (None, a)" "n = 0 \<or> (\<forall>s. \<not> free_run a s n)"
  | (run) s a' where "0 < n" "free_run a s n" "\<forall>s' < s. \<not> free_run a s' n"
      "fa_alloc_contiguous a n = (Some (frame_at a s), a')"
      "fa_wf a'" "used_frames a' = used_frames a \<union> {s ..< s + n}" "total a' = total a"
      "fbase a' = fbase a"
proof (cases "n = 0 \<or> n > total a")
  case True
  with none show thesis by (auto simp: fa_alloc_contiguous_def free_run_def)
next
  case False
  then have scan: "case contiguous_scan a n [0 ..< total a] 0 0 of
      None \<Rightarrow> \<forall>s. \<not> free_run a s n
    | Some s \<Rightarrow> free_run a s n \<and> (\<forall>s' < s. \<not> free_run a s' n)"
    by (intro contiguous_scan_correct) auto
  show thesis
  proof (cases "contiguous_scan a n [0 ..< total a] 0 0")
    case None
    with scan False none show thesis by (simp add: fa_alloc_contiguous_def)
  next
    case (Some s)
    note wf = fa_wfD [OF assms]
    from scan Some have s: "free_run a s n" "\<forall>s' < s. \<not> free_run a s' n" by simp_all
    let ?b = "fold (\<lambda>j a. fa_set a j True) [s ..< s + n] a"
    have range: "\<forall>j \<in> set [s ..< s + n]. j < total a"
      using s(1) by (auto simp: free_run_def)
    note b = fold_set_True [OF range wf(1)]
    have "card (used_frames a \<union> {s ..< s + n}) = card (used_frames a) + n"
      using s(1) by (subst card_Un_disjoint) (auto simp: used_frames_def free_run_def)
    then have "fa_wf (?b\<lparr>used := used a + n\<rparr>)"
      using b wf by (simp add: fa_wf_def)
    moreover have "fa_alloc_contiguous a n = (Some (frame_at a s), ?b\<lparr>used := used a + n\<rparr>)"
      using False Some by (simp add: fa_alloc_contiguous_def)
    ultimately show thesis
      using False s b by (intro run [of s "?b\<lparr>used := used a + n\<rparr>"]) simp_all
  qed
qed

text \<open>\<open>largest_free_run\<close> is the length of the longest run of free frames.\<close>

definition free_upto :: "frame_allocator \<Rightarrow> nat \<Rightarrow> nat \<Rightarrow> bool" where
  "free_upto a i n \<longleftrightarrow> (\<exists>s. s + n \<le> i \<and> (\<forall>j \<in> {s ..< s + n}. \<not> fa_get a j))"

lemma free_upto_Suc:
  "free_upto a (Suc i) n \<longleftrightarrow> free_upto a i n \<or> (n \<le> Suc i \<and> (\<forall>j \<in> {Suc i - n ..< Suc i}. \<not> fa_get a j))"
proof
  assume "free_upto a (Suc i) n"
  then obtain s where s: "s + n \<le> Suc i" "\<forall>j \<in> {s ..< s + n}. \<not> fa_get a j"
    by (auto simp: free_upto_def)
  show "free_upto a i n \<or> (n \<le> Suc i \<and> (\<forall>j \<in> {Suc i - n ..< Suc i}. \<not> fa_get a j))"
  proof (cases "s + n = Suc i")
    case True
    then have "Suc i - n = s" by simp
    with True s show ?thesis by simp
  next
    case False
    with s have "s + n \<le> i" by simp
    with s(2) show ?thesis unfolding free_upto_def by blast
  qed
next
  assume "free_upto a i n \<or> (n \<le> Suc i \<and> (\<forall>j \<in> {Suc i - n ..< Suc i}. \<not> fa_get a j))"
  then show "free_upto a (Suc i) n"
    unfolding free_upto_def by (metis le_SucI le_add_diff_inverse2 order_refl)
qed

lemma largest_run_scan_correct:
  assumes "i \<le> total a" and "run \<le> i" and "\<forall>j \<in> {i - run ..< i}. \<not> fa_get a j"
    and "run < i \<Longrightarrow> fa_get a (i - run - 1)" and "\<forall>n. free_upto a i n \<longleftrightarrow> n \<le> best"
  shows "free_upto a (total a) n \<longleftrightarrow> n \<le> largest_run_scan a [i ..< total a] best run"
  using assms
proof (induction "total a - i" arbitrary: i best run)
  case 0
  then show ?case by simp
next
  case (Suc k)
  then have i: "i < total a" by simp
  then have upt: "[i ..< total a] = i # [Suc i ..< total a]"
    by (rule upt_conv_Cons)
  show ?case
  proof (cases "fa_get a i")
    case True
    have "free_upto a (Suc i) m \<longleftrightarrow> m \<le> best" for m
      using Suc.prems(5) True by (cases "m = 0") (auto simp: free_upto_Suc)
    with Suc.hyps(1) [of "Suc i" 0 best] Suc.hyps(2) i True show ?thesis
      by (simp add: upt)
  next
    case False
    have tail: "(m \<le> Suc i \<and> (\<forall>j \<in> {Suc i - m ..< Suc i}. \<not> fa_get a j)) \<longleftrightarrow> m \<le> run + 1" for m
    proof
      assume m: "m \<le> Suc i \<and> (\<forall>j \<in> {Suc i - m ..< Suc i}. \<not> fa_get a j)"
      show "m \<le> run + 1"
      proof (rule ccontr)
        assume "\<not> m \<le> run + 1"
        with m Suc.prems(2) have "run < i" "i - run - 1 \<in> {Suc i - m ..< Suc i}" by auto
        with m Suc.prems(4) show False by blast
      qed
    next
      assume m: "m \<le> run + 1"
      have "\<not> fa_get a j" if "j \<in> {Suc i - m ..< Suc i}" for j
        using that m Suc.prems(3) False by (cases "j = i") auto
      with m Suc.prems(2) show "m \<le> Suc i \<and> (\<forall>j \<in> {Suc i - m ..< Suc i}. \<not> fa_get a j)" by simp
    qed
    let ?best = "if run + 1 > best then run + 1 else best"
    have "free_upto a (Suc i) m \<longleftrightarrow> m \<le> best \<or> m \<le> run + 1" for m
      unfolding free_upto_Suc tail by (simp only: Suc.prems(5))
    then have "\<forall>m. free_upto a (Suc i) m \<longleftrightarrow> m \<le> ?best"
      by auto
    moreover have "\<forall>j \<in> {Suc i - (run + 1) ..< Suc i}. \<not> fa_get a j"
      using tail [of "run + 1"] by simp
    ultimately show ?thesis
      using Suc.hyps(1) [of "Suc i" "run + 1" ?best] Suc.hyps(2) Suc.prems(2,4) i False
      by (simp add: upt)
  qed
qed

lemma largest_free_run_iff: "(\<exists>s. free_run a s n) \<longleftrightarrow> n \<le> largest_free_run a"
proof -
  have "free_upto a (total a) n \<longleftrightarrow> n \<le> largest_free_run a"
    unfolding largest_free_run_def by (rule largest_run_scan_correct) (auto simp: free_upto_def)
  then show ?thesis by (simp add: free_upto_def free_run_def)
qed

section \<open>Marking and freeing\<close>

lemma fold_mark_free:
  assumes "fa_wf a" and "\<forall>i \<in> set is. i < total a"
  defines "b \<equiv> fold mark_free_at is a"
  shows "fa_wf b \<and> used_frames b = used_frames a - set is \<and> total b = total a \<and> fbase b = fbase a"
  unfolding b_def using assms(1,2)
proof (induction "is" arbitrary: a)
  case Nil
  then show ?case by simp
next
  case (Cons i "is")
  show ?case
  proof (cases "fa_get a i")
    case True
    let ?a = "(fa_set a i False)\<lparr>used := used a - 1\<rparr>"
    have eq: "?a = (fa_set a i False)\<lparr>used := used a - 1, hint := hint a\<rparr>"
      by (simp add: fa_set_def Let_def)
    have i: "i < total a" "i \<in> used_frames a"
      using True Cons.prems by (simp_all add: used_frames_def)
    from fa_drop(1,2) [OF Cons.prems(1) i(2) fa_wfD(3) [OF Cons.prems(1)]]
    have "fa_wf ?a" "used_frames ?a = used_frames a - {i}"
      by (simp_all only: eq [symmetric])
    with True Cons.prems Cons.IH [of ?a] show ?thesis by auto
  next
    case False
    with Cons.prems Cons.IH [of a] show ?thesis by (auto simp: used_frames_def)
  qed
qed

lemma fold_mark_used:
  assumes "fa_wf a" and "\<forall>i \<in> set is. i < total a"
  defines "b \<equiv> fold mark_used_at is a"
  shows "fa_wf b \<and> used_frames b = used_frames a \<union> set is \<and> total b = total a \<and> fbase b = fbase a"
  unfolding b_def using assms(1,2)
proof (induction "is" arbitrary: a)
  case Nil
  then show ?case by simp
next
  case (Cons i "is")
  show ?case
  proof (cases "fa_get a i")
    case False
    let ?a = "(fa_set a i True)\<lparr>used := used a + 1\<rparr>"
    have eq: "?a = (fa_set a i True)\<lparr>used := used a + 1, hint := hint a\<rparr>"
      by (simp add: fa_set_def Let_def)
    have i: "i < total a" "i \<notin> used_frames a"
      using False Cons.prems by (simp_all add: used_frames_def)
    from fa_take(1,2) [OF Cons.prems(1) i fa_wfD(3) [OF Cons.prems(1)]]
    have "fa_wf ?a" "used_frames ?a = insert i (used_frames a)"
      by (simp_all only: eq [symmetric])
    with False Cons.prems Cons.IH [of ?a] show ?thesis by auto
  next
    case True
    with Cons.prems Cons.IH [of a] show ?thesis by (auto simp: used_frames_def)
  qed
qed

text \<open>The range is exactly the frames the bytes touch, start rounded down and end rounded up.\<close>

definition touches :: "frame_allocator \<Rightarrow> nat \<Rightarrow> u64 \<Rightarrow> u64 \<Rightarrow> bool" where
  "touches a i start bytes \<longleftrightarrow>
     {unat (fbase a) + i * 4096 ..< unat (fbase a) + (i + 1) * 4096}
       \<inter> {unat start ..< unat start + unat bytes} \<noteq> {}"

lemma touches_iff:
  "touches a i start bytes \<longleftrightarrow> 0 < unat bytes \<and> unat start < unat (fbase a) + (i + 1) * 4096
     \<and> unat (fbase a) + i * 4096 < unat start + unat bytes"
  by (auto simp: touches_def)

lemma div_4096_le_iff: "(x :: nat) div 4096 \<le> i \<longleftrightarrow> x < (i + 1) * 4096"
  by (simp add: div_less_iff_less_mult flip: less_Suc_eq_le)

lemma less_div_4096_iff: "i < (x + 4095) div 4096 \<longleftrightarrow> i * 4096 < (x :: nat)"
proof -
  have "i < (x + 4095) div 4096 \<longleftrightarrow> (i + 1) * 4096 \<le> x + 4095"
    using less_eq_div_iff_mult_less_eq [of 4096 "i + 1" "x + 4095"] by (simp add: Suc_le_eq)
  then show ?thesis by auto
qed

lemma frame_range_iff:
  assumes "unat start + unat bytes < 2 ^ 64"
  shows "i \<in> set (frame_range a start bytes) \<longleftrightarrow> i < total a \<and> touches a i start bytes"
proof -
  let ?s = "unat start" and ?n = "unat bytes" and ?b = "unat (fbase a)"
  have sum: "unat (saturating_add start bytes) = ?s + ?n"
    using assms by (simp add: unat_saturating_add)
  have zero: "bytes = 0 \<longleftrightarrow> ?n = 0" by (simp add: unat_eq_zero)
  show ?thesis
  proof (cases "?n = 0 \<or> ?s + ?n \<le> ?b")
    case True
    then show ?thesis
      by (auto simp: frame_range_def word_le_nat_alt sum zero touches_iff)
  next
    case False
    have "unat (max start (fbase a) - fbase a) = max ?s ?b - ?b"
      by (simp add: max_def word_le_nat_alt unat_sub)
    then have lo: "unat ((max start (fbase a) - fbase a) div FRAME_SIZE) = (max ?s ?b - ?b) div 4096"
      by (simp add: unat_div FRAME_SIZE_def)
    have hi: "unat (div_ceil (saturating_sub (saturating_add start bytes) (fbase a)) FRAME_SIZE)
        = (?s + ?n - ?b + 4095) div 4096"
      by (simp add: unat_div_ceil FRAME_SIZE_def unat_saturating_sub sum)
    have "i \<in> set (frame_range a start bytes) \<longleftrightarrow>
        (max ?s ?b - ?b) div 4096 \<le> i \<and> i < (?s + ?n - ?b + 4095) div 4096 \<and> i < total a"
      using False by (auto simp: frame_range_def word_le_nat_alt sum zero lo hi Let_def)
    also have "(max ?s ?b - ?b) div 4096 \<le> i \<longleftrightarrow> ?s < ?b + (i + 1) * 4096"
      unfolding div_4096_le_iff by (auto simp: max_def)
    also have "i < (?s + ?n - ?b + 4095) div 4096 \<longleftrightarrow> ?b + i * 4096 < ?s + ?n"
      unfolding less_div_4096_iff using False by auto
    finally show ?thesis
      using False by (auto simp: touches_iff)
  qed
qed

lemma fa_free_ok:
  assumes "fa_wf a" and "index_of a f = Some i" and "i \<in> used_frames a"
  obtains a' where "fa_free a f = Ok a'" "fa_wf a'" "used_frames a' = used_frames a - {i}"
    "total a' = total a" "fbase a' = fbase a"
proof -
  have h: "min (hint a) i \<le> total a"
    using fa_wfD(3) [OF assms(1)] by simp
  have "fa_free a f = Ok ((fa_set a i False)\<lparr>used := used a - 1, hint := min (hint a) i\<rparr>)"
    using assms(2,3) by (simp add: fa_free_def used_frames_def)
  with that fa_drop(1,2) [OF assms(1,3) h] show thesis by simp
qed

lemma fa_free_panics:
  assumes "i \<notin> used_frames a" and "index_of a f = Some i"
  shows "fa_free a f = Err (Panic ''double free of frame'')"
  using assms by (auto simp: fa_free_def rust_assert_def used_frames_def index_of_def Let_def split: if_splits)

lemma fa_alloc_frame:
  assumes "fa_wf a" and "fa_alloc a = (Some f, a')"
  obtains i where "i < total a" "i \<notin> used_frames a" "f = frame_at a i" "fa_wf a'"
    "used_frames a' = insert i (used_frames a)" "total a' = total a" "fbase a' = fbase a"
  using assms(1)
proof (cases rule: fa_alloc_cases)
  case full
  with assms(2) show thesis by simp
next
  case (taken i)
  with assms(2) fa_take [OF assms(1) taken(1,2), of "i + 1"] that show thesis by auto
qed

lemma index_of_cong: "total a' = total a \<Longrightarrow> fbase a' = fbase a \<Longrightarrow> index_of a' f = index_of a f"
  by (simp add: index_of_def)

text \<open>C31. A frame is owned by one holder. \<open>alloc\<close> fails exactly when no frame is free; a frame it
  returns is aligned and was free, reads as used afterwards, and freeing it gives back the same set of
  used frames; freeing it a second time panics, as does freeing a frame the allocator does not manage.\<close>

theorem alloc_free_roundtrip:
  assumes wf: "fa_wf a"
  shows "(fst (fa_alloc a) = None \<longleftrightarrow> stats_free (fa_stats a) = 0)
    \<and> (\<forall>f a'. fa_alloc a = (Some f, a') \<longrightarrow>
         addr f mod FRAME_SIZE = 0 \<and> is_used a f = Some False \<and> is_used a' f = Some True \<and> fa_wf a'
         \<and> (\<exists>a''. fa_free a' f = Ok a'' \<and> fa_wf a'' \<and> used_frames a'' = used_frames a
              \<and> fa_free a'' f = Err (Panic ''double free of frame'')))"
proof (intro conjI allI impI)
  have sub: "used_frames a \<subseteq> {..< total a}" by (auto simp: used_frames_def)
  have "stats_free (fa_stats a) = 0 \<longleftrightarrow> total a \<le> card (used_frames a)"
    using fa_wfD(2) [OF wf] by (simp add: stats_free_def fa_stats_def)
  also have "\<dots> \<longleftrightarrow> used_frames a = {..< total a}"
  proof
    assume "total a \<le> card (used_frames a)"
    then show "used_frames a = {..< total a}"
      by (intro card_seteq [OF _ sub]) simp_all
  next
    assume "used_frames a = {..< total a}"
    then show "total a \<le> card (used_frames a)" by simp
  qed
  finally have full: "stats_free (fa_stats a) = 0 \<longleftrightarrow> used_frames a = {..< total a}" .
  show "fst (fa_alloc a) = None \<longleftrightarrow> stats_free (fa_stats a) = 0"
    unfolding full using wf by (cases rule: fa_alloc_cases) auto
next
  fix f a'
  assume "fa_alloc a = (Some f, a')"
  with wf obtain i where i: "i < total a" "i \<notin> used_frames a" "f = frame_at a i" "fa_wf a'"
      "used_frames a' = insert i (used_frames a)" "total a' = total a" "fbase a' = fbase a"
    by (rule fa_alloc_frame)
  have idx: "index_of a f = Some i" "index_of a' f = Some i"
    using frame_at_index(1) [OF wf i(1)] i(3) by (simp_all add: index_of_cong [OF i(6,7)])
  show "addr f mod FRAME_SIZE = 0"
    using frame_at_index(2) [OF wf i(1)] i(3) by simp
  show "is_used a f = Some False" "is_used a' f = Some True" "fa_wf a'"
    using i idx by (auto simp: is_used_def used_frames_def)
  have "i \<in> used_frames a'" using i(5) by simp
  with i(4) idx(2) obtain a'' where a'': "fa_free a' f = Ok a''" "fa_wf a''"
      "used_frames a'' = used_frames a' - {i}" "total a'' = total a'" "fbase a'' = fbase a'"
    by (rule fa_free_ok)
  moreover have "fa_free a'' f = Err (Panic ''double free of frame'')"
    using a''(3) idx(2) by (intro fa_free_panics [of i]) (simp_all add: index_of_cong [OF a''(4,5)])
  ultimately show "\<exists>a''. fa_free a' f = Ok a'' \<and> fa_wf a'' \<and> used_frames a'' = used_frames a
      \<and> fa_free a'' f = Err (Panic ''double free of frame'')"
    using i(2,5) by auto
qed

text \<open>C32. Contiguous allocation is exact. It succeeds precisely for a positive length up to
  \<open>largest_free_run\<close>; it then returns the lowest run of that many free frames, marks exactly those
  frames used, and keeps the allocator well formed.\<close>

theorem alloc_contiguous_exact:
  assumes wf: "fa_wf a"
  shows "(fst (fa_alloc_contiguous a n) \<noteq> None \<longleftrightarrow> 0 < n \<and> n \<le> largest_free_run a)
    \<and> (\<forall>f a'. fa_alloc_contiguous a n = (Some f, a') \<longrightarrow>
        (\<exists>s. f = frame_at a s \<and> free_run a s n \<and> (\<forall>s' < s. \<not> free_run a s' n)
           \<and> used_frames a' = used_frames a \<union> {s ..< s + n} \<and> fa_wf a'))"
  using wf
proof (cases rule: fa_alloc_contiguous_cases [of a n])
  case none
  then show ?thesis by (auto simp: largest_free_run_iff [symmetric])
next
  case (run s a')
  then show ?thesis by (auto simp: largest_free_run_iff [symmetric])
qed

text \<open>C33. Reserving memory never leaves a touched frame free. \<open>mark_used\<close> marks exactly the managed
  frames that share a byte with the given range, however it is aligned, and \<open>mark_free\<close> frees exactly
  those; both keep the used count exact.\<close>

theorem mark_exact:
  assumes wf: "fa_wf a" and fits: "unat start + unat bytes < 2 ^ 64"
  shows "used_frames (mark_used a start bytes) = used_frames a \<union> {i. i < total a \<and> touches a i start bytes}
    \<and> used_frames (mark_free a start bytes) = used_frames a - {i. touches a i start bytes}
    \<and> fa_wf (mark_used a start bytes) \<and> fa_wf (mark_free a start bytes)"
proof -
  have range: "set (frame_range a start bytes) = {i. i < total a \<and> touches a i start bytes}"
    using frame_range_iff [OF fits] by auto
  then have "\<forall>i \<in> set (frame_range a start bytes). i < total a" by simp
  note u = fold_mark_used [OF wf this] and f = fold_mark_free [OF wf this]
  have "used_frames (mark_used a start bytes) = used_frames a \<union> {i. i < total a \<and> touches a i start bytes}"
    using u range by (simp add: mark_used_def)
  moreover have "used_frames (mark_free a start bytes)
      = used_frames a - {i. i < total a \<and> touches a i start bytes}"
    using f range by (simp add: mark_free_def)
  moreover have "used_frames a - {i. i < total a \<and> touches a i start bytes}
      = used_frames a - {i. touches a i start bytes}"
    by (auto simp: used_frames_def)
  moreover have "fa_wf (mark_used a start bytes)"
    using u by (simp add: mark_used_def)
  moreover have "fa_wf (mark_free a start bytes)"
    using f by (simp add: mark_free_def fa_wf_hint)
  ultimately show ?thesis by simp
qed

text \<open>A concrete allocator of sixteen frames at 1 GiB with frames 3 and 4 free.\<close>

definition example_allocator :: frame_allocator where
  "example_allocator = \<lparr>bitmap = [0xe7, 0xff], fbase = 0x40000000, total = 16, used = 14, hint = 0\<rparr>"

lemma example_used: "used_frames example_allocator = {..< 16} - {3, 4}"
proof -
  have "fa_get example_allocator i \<longleftrightarrow> i \<notin> {3, 4}" if "i < 16" for i
  proof -
    have "i \<in> set [0 ..< 16]" using that by simp
    then show ?thesis
      unfolding fa_get_bit example_allocator_def
      by (simp add: upt_rec) (elim disjE; simp)
  qed
  then show ?thesis
    by (auto simp: used_frames_def example_allocator_def)
qed

lemma example_wf: "fa_wf example_allocator"
  unfolding fa_wf_def example_used
  by (simp add: example_allocator_def bitmap_bytes_def card_Diff_subset)

lemma example_free: "free_run example_allocator 3 2"
proof -
  have "\<not> fa_get example_allocator j" if "j \<in> {3 ..< 3 + 2}" for j
  proof -
    have "j = 3 \<or> j = 4" using that by (simp add: less_Suc_eq numeral_eq_Suc) arith
    moreover have "3 \<notin> used_frames example_allocator" "4 \<notin> used_frames example_allocator"
      by (simp_all add: example_used)
    ultimately show ?thesis
      by (auto simp: used_frames_def example_allocator_def)
  qed
  then show ?thesis
    by (simp add: free_run_def) (simp add: example_allocator_def)
qed

theorem alloc_free_roundtrip_witness:
  "\<exists>f a' a''. fa_alloc example_allocator = (Some f, a') \<and> addr f mod FRAME_SIZE = 0
    \<and> is_used example_allocator f = Some False \<and> is_used a' f = Some True
    \<and> fa_free a' f = Ok a'' \<and> used_frames a'' = {..< 16} - {3, 4}
    \<and> fa_free a'' f = Err (Panic ''double free of frame'')"
proof -
  note exact = alloc_free_roundtrip [OF example_wf]
  have "stats_free (fa_stats example_allocator) \<noteq> 0"
    by (simp add: stats_free_def fa_stats_def example_allocator_def)
  with exact obtain f a' where "fa_alloc example_allocator = (Some f, a')"
    by (metis fst_conv not_None_eq surj_pair)
  with exact example_used show ?thesis by metis
qed

theorem alloc_contiguous_exact_witness:
  "\<exists>f a' s. fa_alloc_contiguous example_allocator 2 = (Some f, a') \<and> f = frame_at example_allocator s
    \<and> free_run example_allocator s 2
    \<and> used_frames a' = used_frames example_allocator \<union> {s ..< s + 2} \<and> fa_wf a'"
proof -
  note exact = alloc_contiguous_exact [OF example_wf, of 2]
  have "2 \<le> largest_free_run example_allocator"
    using example_free largest_free_run_iff by blast
  with exact obtain f a' where "fa_alloc_contiguous example_allocator 2 = (Some f, a')"
    by (metis fst_conv not_None_eq surj_pair zero_less_numeral)
  with exact show ?thesis by metis
qed

theorem mark_exact_witness:
  "let a = example_allocator in
    used_frames (mark_used a 0x40003ff0 0x20) = used_frames a \<union> {i. i < total a \<and> touches a i 0x40003ff0 0x20}
    \<and> used_frames (mark_free a 0x40003ff0 0x20) = used_frames a - {i. touches a i 0x40003ff0 0x20}
    \<and> fa_wf (mark_used a 0x40003ff0 0x20) \<and> fa_wf (mark_free a 0x40003ff0 0x20)"
  using mark_exact [OF example_wf, of "0x40003ff0" "0x20"] by (simp add: Let_def)

end
