(* ===== verification/Slots.thy ===== *)
theory Slots
  imports Prelude
begin

text \<open>
  The fixed-capacity table of \<open>src/crates/slots/src/lib.rs\<close>, whose entries are named by a
  generation and a slot packed in 64 bits. The slot array is a list of its capacity, a generation is
  a 32-bit word that wraps, and a mutable reference (\<open>get_mut\<close>, \<open>iter_mut\<close>) is the function its
  holder applies to the entry. The laws of lookup after each operation form the locale
  \<open>name_table\<close>, which the region registry and the thread table rely on.
\<close>

record 'a table =
  slots :: "'a option list"
  gens :: "u32 list"
  live :: nat

definition table_new :: "nat \<Rightarrow> 'a table" where
  "table_new N = \<lparr>slots = replicate N None, gens = replicate N 0, live = 0\<rparr>"

definition slot_name :: "nat \<Rightarrow> u32 \<Rightarrow> u64" where
  "slot_name slot generation = push_bit 32 (ucast generation) OR of_nat slot"

definition slot_unpack :: "u64 \<Rightarrow> nat \<times> u32" where
  "slot_unpack name = (unat (name AND 0xffffffff), ucast (drop_bit 32 name))"

definition table_insert_with :: "'a table \<Rightarrow> (u64 \<Rightarrow> 'a) \<Rightarrow> u64 option \<times> 'a table" where
  "table_insert_with t f =
     (case position Option.is_none (slots t) of
        None \<Rightarrow> (None, t)
      | Some slot \<Rightarrow>
          (let name = slot_name slot (gens t ! slot)
           in (Some name, t\<lparr>slots := (slots t)[slot := Some (f name)], live := live t + 1\<rparr>)))"

definition slot_of :: "'a table \<Rightarrow> u64 \<Rightarrow> nat option" where
  "slot_of t name =
     (case slot_unpack name of (slot, generation) \<Rightarrow>
        Option.bind (slice_get (gens t) slot) (\<lambda>g.
          if g \<noteq> generation then None
          else Option.bind (slots t ! slot) (\<lambda>_. Some slot)))"

definition table_get :: "'a table \<Rightarrow> u64 \<Rightarrow> 'a option" where
  "table_get t name = Option.bind (slot_of t name) (\<lambda>slot. slots t ! slot)"

definition table_get_mut :: "'a table \<Rightarrow> u64 \<Rightarrow> ('a \<Rightarrow> 'a) \<Rightarrow> 'a table" where
  "table_get_mut t name f =
     (case slot_of t name of
        None \<Rightarrow> t
      | Some slot \<Rightarrow> t\<lparr>slots := (slots t)[slot := map_option f (slots t ! slot)]\<rparr>)"

definition table_remove :: "'a table \<Rightarrow> u64 \<Rightarrow> 'a option \<times> 'a table" where
  "table_remove t name =
     (case slot_of t name of
        None \<Rightarrow> (None, t)
      | Some slot \<Rightarrow>
          (case slots t ! slot of
             None \<Rightarrow> (None, t)
           | Some value \<Rightarrow>
               (Some value, t\<lparr>slots := (slots t)[slot := None],
                  gens := (gens t)[slot := gens t ! slot + 1], live := live t - 1\<rparr>)))"

definition table_len :: "'a table \<Rightarrow> nat" where
  "table_len t = live t"

definition table_is_empty :: "'a table \<Rightarrow> bool" where
  "table_is_empty t \<longleftrightarrow> live t = 0"

definition table_iter_mut :: "'a table \<Rightarrow> ('a \<Rightarrow> 'a) \<Rightarrow> 'a table" where
  "table_iter_mut t f = t\<lparr>slots := map (map_option f) (slots t)\<rparr>"

definition live_slots :: "'a table \<Rightarrow> nat list" where
  "live_slots t = List.map_filter (\<lambda>(i, s). map_option (\<lambda>_. i) s) (List.enumerate 0 (slots t))"

definition table_values :: "'a table \<Rightarrow> 'a list" where
  "table_values t = List.map_filter id (slots t)"

definition table_iter_from :: "'a table \<Rightarrow> nat \<Rightarrow> (nat \<times> u64 \<times> 'a) list" where
  "table_iter_from t start =
     List.map_filter (\<lambda>(slot, s). map_option (\<lambda>v. (slot, slot_name slot (gens t ! slot), v)) s)
       (drop start (List.enumerate 0 (slots t)))"

definition table_iter :: "'a table \<Rightarrow> (u64 \<times> 'a) list" where
  "table_iter t = map (\<lambda>(_, name, v). (name, v)) (table_iter_from t 0)"

section \<open>Names\<close>

text \<open>The compile-time guard of \<open>new\<close> and what every operation keeps of the three fields.\<close>

definition table_wf :: "'a table \<Rightarrow> bool" where
  "table_wf t \<longleftrightarrow> length (gens t) = length (slots t) \<and> 0 < length (slots t)
     \<and> length (slots t) < 2 ^ 32 \<and> live t = length (filter (\<lambda>s. s \<noteq> None) (slots t))"

lemma table_wfD:
  assumes "table_wf t"
  shows "length (gens t) = length (slots t)" and "0 < length (slots t)"
    and "length (slots t) < 2 ^ 32" and "live t = length (filter (\<lambda>s. s \<noteq> None) (slots t))"
  using assms by (auto simp: table_wf_def)

lemma and_low32: "(w :: u64) AND 0xffffffff = take_bit 32 w"
  by (simp add: take_bit_eq_mask mask_eq_exp_minus_1)

lemma not_bit_nat: "(m :: nat) < 2 ^ k \<Longrightarrow> k \<le> n \<Longrightarrow> \<not> bit m n"
  by (metis bit_take_bit_iff linorder_not_less take_bit_nat_eq_self_iff)

lemma bit_slot_name [word_bits]:
  assumes "slot < 2 ^ 32"
  shows "bit (slot_name slot g) n \<longleftrightarrow>
    (if n < 32 then bit slot n else n < 64 \<and> bit g (n - 32))"
  using not_bit_nat [OF assms, of n] by (auto simp: slot_name_def bit_simps)

lemma slot_unpack_name [simp]:
  assumes "slot < 2 ^ 32"
  shows "slot_unpack (slot_name slot g) = (slot, g)"
proof -
  have "take_bit 32 (slot_name slot g) = of_nat slot"
  proof (rule bit_eqI)
    fix n
    show "bit (take_bit 32 (slot_name slot g)) n \<longleftrightarrow> bit (of_nat slot :: u64) n"
      using not_bit_nat [OF assms, of n] by (cases "n < 32") (simp_all add: bit_slot_name [OF assms] bit_simps)
  qed
  moreover have "ucast (drop_bit 32 (slot_name slot g)) = g"
    using assms by (auto intro!: bit_eqI simp: bit_slot_name bit_simps)
  ultimately show ?thesis
    using assms by (simp add: slot_unpack_def and_low32 unsigned_of_nat take_bit_nat_eq_self)
qed

lemma slot_name_unpack:
  assumes "slot_unpack name = (slot, g)"
  shows "slot_name slot g = name" and "slot < 2 ^ 32"
proof -
  from assms have s: "slot = unat (take_bit 32 name)" and g: "g = ucast (drop_bit 32 name)"
    by (auto simp: slot_unpack_def and_low32)
  show "slot < 2 ^ 32"
    unfolding s unsigned_take_bit_eq by (rule take_bit_nat_less_exp)
  then have "bit (slot_name slot g) n \<longleftrightarrow> bit name n" if "n < 64" for n
    using that by (simp add: bit_slot_name) (auto simp: s g bit_simps)
  then show "slot_name slot g = name"
    by (auto intro: bit_eqI)
qed

lemma slot_name_inject:
  "slot < 2 ^ 32 \<Longrightarrow> slot' < 2 ^ 32 \<Longrightarrow>
   slot_name slot g = slot_name slot' g' \<longleftrightarrow> slot = slot' \<and> g = g'"
  by (metis slot_unpack_name prod.inject)

section \<open>Lookup after each operation\<close>

lemma table_get_unpack:
  "table_get t name = (case slot_unpack name of (slot, g) \<Rightarrow>
     if slot < length (gens t) \<and> gens t ! slot = g then slots t ! slot else None)"
proof (cases "slot_unpack name")
  case (Pair slot g)
  then show ?thesis
    by (cases "slots t ! slot") (simp_all add: table_get_def slot_of_def slice_get_def)
qed

lemma table_get_name:
  assumes "table_wf t" and "slot < length (slots t)"
  shows "table_get t (slot_name slot g) = (if gens t ! slot = g then slots t ! slot else None)"
  using assms table_wfD [OF assms(1)] by (simp add: table_get_unpack)

lemma table_get_Some_iff:
  assumes "table_wf t"
  shows "table_get t name = Some v \<longleftrightarrow>
    (\<exists>slot < length (slots t). name = slot_name slot (gens t ! slot) \<and> slots t ! slot = Some v)"
proof
  assume get: "table_get t name = Some v"
  obtain slot g where un: "slot_unpack name = (slot, g)" by (cases "slot_unpack name")
  with get have "slot < length (slots t)" "gens t ! slot = g" "slots t ! slot = Some v"
    using table_wfD(1) [OF assms] by (simp_all add: table_get_unpack split: if_splits)
  with slot_name_unpack(1) [OF un] show
    "\<exists>slot < length (slots t). name = slot_name slot (gens t ! slot) \<and> slots t ! slot = Some v"
    by metis
next
  assume "\<exists>slot < length (slots t). name = slot_name slot (gens t ! slot) \<and> slots t ! slot = Some v"
  then show "table_get t name = Some v"
    using table_get_name [OF assms] by auto
qed

lemma slot_of_unpack:
  "slot_of t name = (case slot_unpack name of (slot, g) \<Rightarrow>
     if slot < length (gens t) \<and> gens t ! slot = g \<and> slots t ! slot \<noteq> None then Some slot else None)"
proof (cases "slot_unpack name")
  case (Pair slot g)
  then show ?thesis
    by (cases "slots t ! slot") (simp_all add: slot_of_def slice_get_def)
qed

lemma slot_of_Some_iff:
  assumes "table_wf t"
  shows "slot_of t name = Some slot \<longleftrightarrow>
    slot < length (slots t) \<and> name = slot_name slot (gens t ! slot) \<and> slots t ! slot \<noteq> None"
proof
  assume of: "slot_of t name = Some slot"
  obtain k g where un: "slot_unpack name = (k, g)" by (cases "slot_unpack name")
  with of slot_name_unpack(1) [OF un] table_wfD(1) [OF assms] show
    "slot < length (slots t) \<and> name = slot_name slot (gens t ! slot) \<and> slots t ! slot \<noteq> None"
    by (simp add: slot_of_unpack split: if_splits)
next
  assume "slot < length (slots t) \<and> name = slot_name slot (gens t ! slot) \<and> slots t ! slot \<noteq> None"
  with table_wfD [OF assms] show "slot_of t name = Some slot"
    by (simp add: slot_of_unpack)
qed

lemma filter_Some_update:
  assumes "i < length xs"
  shows "length (filter (\<lambda>s. s \<noteq> None) (xs[i := v])) + (if xs ! i = None then 0 else 1)
    = length (filter (\<lambda>s. s \<noteq> None) xs) + (if v = None then 0 else 1)"
  using assms
proof (induction xs arbitrary: i)
  case Nil
  then show ?case by simp
next
  case (Cons x xs)
  show ?case
  proof (cases i)
    case 0
    then show ?thesis by simp
  next
    case (Suc j)
    with Cons.IH [of j] Cons.prems show ?thesis by (auto split: if_splits)
  qed
qed

lemma table_wf_new: "0 < N \<Longrightarrow> N < 2 ^ 32 \<Longrightarrow> table_wf (table_new N)"
  by (simp add: table_wf_def table_new_def)

lemma table_get_new [simp]: "table_get (table_new N) name = None"
  by (simp add: table_get_unpack table_new_def split: prod.split)

lemma table_insert_with_None_iff:
  "fst (table_insert_with t f) = None \<longleftrightarrow> None \<notin> set (slots t)"
  by (auto simp: table_insert_with_def Let_def Option.is_none_def position_None_iff
      dest: position_SomeD split: option.splits) (metis nth_mem position_SomeD Option.is_none_def)

lemma table_insert_withE:
  assumes "table_insert_with t f = (r, t')"
  obtains (full) "r = None" "t' = t" "None \<notin> set (slots t)"
  | (placed) slot name where "position Option.is_none (slots t) = Some slot" "slot < length (slots t)"
      "slots t ! slot = None" "name = slot_name slot (gens t ! slot)" "r = Some name"
      "t' = t\<lparr>slots := (slots t)[slot := Some (f name)], live := live t + 1\<rparr>"
proof (cases "position Option.is_none (slots t)")
  case None
  with assms full show thesis
    by (auto simp: table_insert_with_def Option.is_none_def position_None_iff)
next
  case (Some slot)
  with position_SomeD [OF Some] assms placed show thesis
    by (auto simp: table_insert_with_def Let_def Option.is_none_def)
qed

lemma table_insert_with_wf:
  assumes "table_wf t" and "table_insert_with t f = (r, t')"
  shows "table_wf t'"
  using assms(2)
proof (cases rule: table_insert_withE)
  case full
  with assms show ?thesis by simp
next
  case (placed slot name)
  with table_wfD [OF assms(1)] filter_Some_update [of slot "slots t" "Some (f name)"] show ?thesis
    by (simp add: table_wf_def)
qed

lemma table_get_insert_with:
  assumes "table_wf t" and "table_insert_with t f = (Some name, t')"
  shows "table_get t name = None"
    and "table_get t' n = (if n = name then Some (f name) else table_get t n)"
proof -
  from assms(2) obtain slot where p: "slot < length (slots t)" "slots t ! slot = None"
      "name = slot_name slot (gens t ! slot)"
      "t' = t\<lparr>slots := (slots t)[slot := Some (f name)], live := live t + 1\<rparr>"
    by (cases rule: table_insert_withE) auto
  show "table_get t name = None"
    using p table_get_name [OF assms(1) p(1)] by simp
  obtain k g where un: "slot_unpack n = (k, g)" by (cases "slot_unpack n")
  have "n = name \<longleftrightarrow> k = slot \<and> g = gens t ! slot"
    using un slot_name_unpack [OF un] slot_name_inject [of k slot g] p table_wfD [OF assms(1)] by auto
  then show "table_get t' n = (if n = name then Some (f name) else table_get t n)"
    using un p table_wfD(1) [OF assms(1)] by (auto simp: table_get_unpack nth_list_update)
qed

lemma table_removeE:
  assumes "table_wf t" and "table_remove t name = (r, t')"
  obtains (dead) "r = None" "t' = t" "table_get t name = None"
  | (taken) slot v where "slot < length (slots t)" "name = slot_name slot (gens t ! slot)"
      "slots t ! slot = Some v" "r = Some v" "table_get t name = Some v"
      "t' = t\<lparr>slots := (slots t)[slot := None], gens := (gens t)[slot := gens t ! slot + 1],
             live := live t - 1\<rparr>"
proof (cases "slot_of t name")
  case None
  with assms dead show thesis
    by (simp add: table_remove_def table_get_def)
next
  case (Some slot)
  with slot_of_Some_iff [OF assms(1), of name slot] obtain v where
    "slot < length (slots t)" "name = slot_name slot (gens t ! slot)" "slots t ! slot = Some v"
    by auto
  moreover from this Some have "table_get t name = Some v"
    by (simp add: table_get_def)
  ultimately show thesis
    using Some assms(2) by (intro taken [of slot v]) (simp_all add: table_remove_def)
qed

lemma table_remove_wf:
  assumes "table_wf t" and "table_remove t name = (r, t')"
  shows "table_wf t'"
  using assms
proof (cases rule: table_removeE)
  case dead
  with assms show ?thesis by simp
next
  case (taken slot v)
  with table_wfD [OF assms(1)] filter_Some_update [of slot "slots t" None] show ?thesis
    by (simp add: table_wf_def)
qed

lemma table_get_remove:
  assumes "table_wf t" and "table_remove t name = (r, t')"
  shows "r = table_get t name" and "table_get t' n = (if n = name then None else table_get t n)"
proof -
  show "r = table_get t name"
    using assms by (cases rule: table_removeE) auto
  show "table_get t' n = (if n = name then None else table_get t n)"
    using assms
  proof (cases rule: table_removeE)
    case dead
    then show ?thesis by simp
  next
    case (taken slot v)
    obtain k g where un: "slot_unpack n = (k, g)" by (cases "slot_unpack n")
    have "n = name \<longleftrightarrow> k = slot \<and> g = gens t ! slot"
      using un slot_name_unpack [OF un] slot_name_inject [of k slot g] taken table_wfD [OF assms(1)]
      by auto
    then show ?thesis
      using un taken table_wfD(1) [OF assms(1)] by (auto simp: table_get_unpack nth_list_update)
  qed
qed

lemma table_get_get_mut:
  assumes "table_wf t"
  shows "table_wf (table_get_mut t name f)"
    and "table_get (table_get_mut t name f) n =
      (if n = name then map_option f (table_get t n) else table_get t n)"
proof -
  show "table_wf (table_get_mut t name f)"
  proof (cases "slot_of t name")
    case None
    with assms show ?thesis by (simp add: table_get_mut_def)
  next
    case (Some slot)
    with slot_of_Some_iff [OF assms, of name slot] table_wfD [OF assms]
      filter_Some_update [of slot "slots t" "map_option f (slots t ! slot)"]
    show ?thesis by (simp add: table_get_mut_def table_wf_def)
  qed
  show "table_get (table_get_mut t name f) n =
      (if n = name then map_option f (table_get t n) else table_get t n)"
  proof (cases "slot_of t name")
    case None
    then show ?thesis by (simp add: table_get_mut_def table_get_def)
  next
    case (Some slot)
    note s = Some slot_of_Some_iff [OF assms, of name slot]
    obtain k g where un: "slot_unpack n = (k, g)" by (cases "slot_unpack n")
    have "n = name \<longleftrightarrow> k = slot \<and> g = gens t ! slot"
      using un slot_name_unpack [OF un] slot_name_inject [of k slot g] s table_wfD [OF assms] by auto
    then show ?thesis
      using un s table_wfD(1) [OF assms] by (auto simp: table_get_unpack table_get_mut_def nth_list_update)
  qed
qed

lemma table_get_iter_mut:
  assumes "table_wf t"
  shows "table_wf (table_iter_mut t f)"
    and "table_get (table_iter_mut t f) n = map_option f (table_get t n)"
  using table_wfD [OF assms]
  by (auto simp: table_wf_def table_iter_mut_def table_get_unpack filter_map o_def split: prod.split)

section \<open>The interface of a table of names\<close>

text \<open>
  What the users of the table rely on: a name is fresh when it is issued, it resolves to what was
  stored under it until it is removed, and no operation on one name is seen through another.
\<close>

locale name_table =
  fixes ok :: "'t \<Rightarrow> bool"
    and get :: "'t \<Rightarrow> 'n \<Rightarrow> 'v option"
    and ins :: "'t \<Rightarrow> ('n \<Rightarrow> 'v) \<Rightarrow> 'n option \<times> 't"
    and del :: "'t \<Rightarrow> 'n \<Rightarrow> 'v option \<times> 't"
    and upd :: "'t \<Rightarrow> 'n \<Rightarrow> ('v \<Rightarrow> 'v) \<Rightarrow> 't"
  assumes ins_ok: "ok t \<Longrightarrow> ins t f = (i, t') \<Longrightarrow> ok t'"
    and ins_full: "ins t f = (None, t') \<Longrightarrow> t' = t"
    and ins_fresh: "ok t \<Longrightarrow> ins t f = (Some n, t') \<Longrightarrow> get t n = None"
    and ins_get: "ok t \<Longrightarrow> ins t f = (Some n, t') \<Longrightarrow> get t' = (get t)(n \<mapsto> f n)"
    and del_ok: "ok t \<Longrightarrow> del t n = (r, t') \<Longrightarrow> ok t'"
    and del_result: "ok t \<Longrightarrow> del t n = (r, t') \<Longrightarrow> r = get t n"
    and del_get: "ok t \<Longrightarrow> del t n = (r, t') \<Longrightarrow> get t' = (get t)(n := None)"
    and upd_ok: "ok t \<Longrightarrow> ok (upd t n g)"
    and upd_get: "ok t \<Longrightarrow> get (upd t n g) = (get t)(n := map_option g (get t n))"
begin

lemma ins_dom: "ok t \<Longrightarrow> ins t f = (Some n, t') \<Longrightarrow> dom (get t') = insert n (dom (get t))"
  by (simp add: ins_get)

lemma del_dom: "ok t \<Longrightarrow> del t n = (r, t') \<Longrightarrow> dom (get t') = dom (get t) - {n}"
  by (auto simp: del_get)

lemma upd_dom: "ok t \<Longrightarrow> dom (get (upd t n g)) = dom (get t)"
  by (auto simp: upd_get split: if_splits)

text \<open>A property of single entries holds of every entry if each insertion and update establishes it.\<close>

lemma ins_all:
  assumes "ok t" and "ins t f = (Some n, t')" and "\<And>m v. get t m = Some v \<Longrightarrow> P m v" and "P n (f n)"
    and "get t' m = Some v"
  shows "P m v"
  using assms by (auto simp: ins_get split: if_splits)

lemma upd_all:
  assumes "ok t" and "\<And>m v. get t m = Some v \<Longrightarrow> P m v"
    and "\<And>v. get t n = Some v \<Longrightarrow> P n (g v)" and "get (upd t n g) m = Some v"
  shows "P m v"
  using assms by (auto simp: upd_get split: if_splits)

end

interpretation tbl: name_table table_wf table_get table_insert_with table_remove table_get_mut
proof (unfold_locales, goal_cases)
  case 1
  then show ?case by (rule table_insert_with_wf)
next
  case (2 t f t')
  then show ?case by (cases rule: table_insert_withE) auto
next
  case 3
  then show ?case by (rule table_get_insert_with(1))
next
  case (4 t f n t')
  then show ?case by (simp add: fun_eq_iff table_get_insert_with(2))
next
  case 5
  then show ?case by (rule table_remove_wf)
next
  case 6
  then show ?case by (rule table_get_remove(1))
next
  case (7 t n r t')
  then show ?case by (auto simp: fun_eq_iff table_get_remove(2))
next
  case 8
  then show ?case by (rule table_get_get_mut(1))
next
  case (9 t n g)
  then show ?case by (simp add: fun_eq_iff table_get_get_mut(2))
qed

section \<open>Names over time\<close>

text \<open>\<open>table_steps t k t'\<close>: some operations, \<open>k\<close> of them removals, lead from \<open>t\<close> to \<open>t'\<close>.\<close>

inductive table_steps :: "'a table \<Rightarrow> nat \<Rightarrow> 'a table \<Rightarrow> bool" where
  none: "table_steps t 0 t"
| insert: "table_steps t k t1 \<Longrightarrow> table_insert_with t1 f = (r, t2) \<Longrightarrow> table_steps t k t2"
| update: "table_steps t k t1 \<Longrightarrow> table_steps t k (table_get_mut t1 name g)"
| sweep: "table_steps t k t1 \<Longrightarrow> table_steps t k (table_iter_mut t1 g)"
| remove: "table_steps t k t1 \<Longrightarrow> table_remove t1 name = (r, t2) \<Longrightarrow> table_steps t (Suc k) t2"

lemma table_steps_gens:
  assumes "table_steps t k t'" and "table_wf t"
  shows "table_wf t' \<and> length (slots t') = length (slots t)
    \<and> (\<forall>s < length (slots t). \<exists>j \<le> k. gens t' ! s = gens t ! s + of_nat j)"
  using assms
proof (induction rule: table_steps.induct)
  case (none t)
  then show ?case by (auto intro!: exI [of _ 0])
next
  case (insert t k t1 f r t2)
  then have "table_wf t1" by simp
  from insert.hyps(2) insert.IH insert.prems table_insert_with_wf [OF this insert.hyps(2)] show ?case
    by (cases rule: table_insert_withE) auto
next
  case (update t k t1 name g)
  then have "table_wf (table_get_mut t1 name g)"
    by (simp add: table_get_get_mut)
  with update show ?case
    by (auto simp: table_get_mut_def split: option.splits)
next
  case (sweep t k t1 g)
  then have "table_wf (table_iter_mut t1 g)"
    by (simp add: table_get_iter_mut)
  with sweep show ?case
    by (auto simp: table_iter_mut_def)
next
  case (remove t k t1 name r t2)
  then have wf: "table_wf t1" by simp
  from wf remove.hyps(2) show ?case
  proof (cases rule: table_removeE)
    case dead
    with remove.IH [OF remove.prems] show ?thesis by (metis le_SucI)
  next
    case (taken slot v)
    have "\<exists>j \<le> Suc k. gens t2 ! s = gens t ! s + of_nat j" if s: "s < length (slots t)" for s
    proof -
      obtain j where "j \<le> k" "gens t1 ! s = gens t ! s + of_nat j"
        using remove s by blast
      with taken wf show ?thesis
        by (cases "s = slot") (auto simp: table_wf_def intro: exI [of _ "Suc j"] exI [of _ j])
    qed
    with remove taken table_remove_wf [OF wf remove.hyps(2)] show ?thesis by simp
  qed
qed

text \<open>C19. A stale name stays dead. Once a name has been removed it resolves to nothing after any
  further insertions, updates, sweeps and removals, as long as there are fewer than two to the 32
  minus one removals among them (the slot's 32-bit generation has then not come round).\<close>

theorem stale_name_dead:
  assumes wf: "table_wf t" and removed: "table_remove t name = (Some v, t1)"
    and steps: "table_steps t1 k t2" and few: "k < 2 ^ 32 - 1"
  shows "table_get t2 name = None"
proof -
  from wf removed obtain slot where slot: "slot < length (slots t)"
      "name = slot_name slot (gens t ! slot)"
      "t1 = t\<lparr>slots := (slots t)[slot := None], gens := (gens t)[slot := gens t ! slot + 1],
             live := live t - 1\<rparr>"
    by (cases rule: table_removeE) auto
  have wf1: "table_wf t1"
    by (rule table_remove_wf [OF wf removed])
  from table_steps_gens [OF steps wf1] slot obtain j where wf2: "table_wf t2" "slot < length (slots t2)"
    and j: "j \<le> k" "gens t2 ! slot = gens t1 ! slot + of_nat j"
    by auto
  have "gens t1 ! slot = gens t ! slot + 1"
    using slot table_wfD(1) [OF wf] by simp
  with j have "gens t2 ! slot = gens t ! slot + of_nat (Suc j)"
    by simp
  moreover have "(of_nat (Suc j) :: u32) \<noteq> 0"
    using j few by (simp only: word_of_nat_eq_0_iff) (auto dest: dvd_imp_le)
  ultimately show ?thesis
    using slot wf2 by (simp add: table_get_name)
qed

theorem stale_name_dead_witness:
  "let t = snd (table_insert_with (table_new 2) (\<lambda>_. CHR ''a''));
       (r, t1) = table_remove t 0;
       t2 = snd (table_insert_with t1 (\<lambda>_. CHR ''b''))
   in r = Some CHR ''a'' \<and> table_get t2 0 = None \<and> table_get t2 0x100000000 = Some CHR ''b''"
proof -
  define t where "t = snd (table_insert_with (table_new 2) (\<lambda>_. CHR ''a''))"
  define t1 where "t1 = snd (table_remove t 0)"
  define t2 where "t2 = snd (table_insert_with t1 (\<lambda>_. CHR ''b''))"
  have t: "t = \<lparr>slots = [Some CHR ''a'', None], gens = [0, 0], live = 1\<rparr>"
    by (simp add: t_def table_insert_with_def table_new_def numeral_2_eq_2 slot_name_def Option.is_none_def)
  have removed: "table_remove t 0 = (Some CHR ''a'', t1)"
    by (simp add: t1_def t table_remove_def slot_of_def slot_unpack_def slice_get_def)
  have t1: "t1 = \<lparr>slots = [None, None], gens = [1, 0], live = 0\<rparr>"
    by (simp add: t1_def t table_remove_def slot_of_def slot_unpack_def slice_get_def)
  have wf: "table_wf t"
    by (simp add: t table_wf_def)
  have "table_steps t1 0 t2"
    unfolding t2_def by (rule table_steps.insert [OF table_steps.none prod.collapse [symmetric]])
  from stale_name_dead [OF wf removed this] have "table_get t2 0 = None"
    by simp
  moreover have "table_get t2 0x100000000 = Some CHR ''b''"
    by (simp add: t2_def t1 table_insert_with_def Option.is_none_def table_get_unpack slot_unpack_def)
  ultimately show ?thesis
    using removed by (simp add: Let_def t_def [symmetric] t2_def [symmetric])
qed

text \<open>
  The bound is needed: two to the 32 occupations of a slot bring its generation round, and a name
  that was removed then resolves to an entry it was never issued for.
\<close>

definition occupy_and_free :: "'a \<Rightarrow> 'a table \<Rightarrow> 'a table" where
  "occupy_and_free v t =
     (case table_insert_with t (\<lambda>_. v) of
        (None, t') \<Rightarrow> t'
      | (Some name, t') \<Rightarrow> snd (table_remove t' name))"

lemma occupy_and_free_iterate:
  "(occupy_and_free v ^^ k) (table_new 1) = \<lparr>slots = [None], gens = [of_nat k], live = 0\<rparr>"
proof (induction k)
  case 0
  then show ?case by (simp add: table_new_def)
next
  case (Suc k)
  have "slot_unpack (slot_name 0 g) = (0, g)" for g
    by simp
  with Suc show ?case
    by (simp add: occupy_and_free_def table_insert_with_def Option.is_none_def table_remove_def
        slot_of_unpack)
qed

lemma occupy_and_free_steps:
  assumes "table_insert_with t (\<lambda>_. v) = (Some name, t')"
  shows "table_steps t 1 (occupy_and_free v t)"
  using table_steps.remove [OF table_steps.insert [OF table_steps.none assms] prod.collapse [symmetric], of name]
    assms
  by (simp add: occupy_and_free_def)

lemma generation_wrap_reuses_name:
  "\<exists>t :: nat table. t = (occupy_and_free 7 ^^ (2 ^ 32)) (table_new 1)
     \<and> table_insert_with (table_new 1) (\<lambda>_. 7) = table_insert_with t (\<lambda>_. 7)
     \<and> table_get (snd (table_insert_with t (\<lambda>_. 9))) 0 = Some 9"
proof -
  have "(occupy_and_free 7 ^^ (2 ^ 32)) (table_new 1) = (table_new 1 :: nat table)"
    unfolding occupy_and_free_iterate by (simp add: table_new_def)
  moreover have "table_get (snd (table_insert_with (table_new 1) (\<lambda>_. 9 :: nat))) 0 = Some 9"
    by (simp add: table_new_def table_insert_with_def Option.is_none_def table_get_unpack slot_unpack_def)
  ultimately show ?thesis by metis
qed

section \<open>Sweeps\<close>

lemma enumerate_map_upt: "List.enumerate 0 xs = map (\<lambda>i. (i, xs ! i)) [0..<length xs]"
  by (auto simp: enumerate_eq_zip intro: nth_equalityI)

lemma table_iter_from_upt:
  "table_iter_from t k = map (\<lambda>i. (i, slot_name i (gens t ! i), the (slots t ! i)))
     (filter (\<lambda>i. slots t ! i \<noteq> None) [k..<length (slots t)])"
  unfolding table_iter_from_def enumerate_map_upt drop_map drop_upt map_filter_def filter_map
  by (auto simp: o_def intro!: filter_cong)

lemma live_slots_upt:
  "live_slots t = filter (\<lambda>i. slots t ! i \<noteq> None) [0..<length (slots t)]"
  unfolding live_slots_def enumerate_map_upt map_filter_def filter_map
  by (auto simp: o_def intro!: map_idI)

lemma table_iter_exact:
  assumes "table_wf t"
  shows "set (table_iter t) = {(name, v). table_get t name = Some v}"
    "distinct (map fst (table_iter t))" "length (table_iter t) = table_len t"
proof -
  let ?I = "filter (\<lambda>i. slots t ! i \<noteq> None) [0..<length (slots t)]"
  have iter: "table_iter t = map (\<lambda>i. (slot_name i (gens t ! i), the (slots t ! i))) ?I"
    by (simp add: table_iter_def table_iter_from_upt)
  show "set (table_iter t) = {(name, v). table_get t name = Some v}"
    by (auto simp: iter table_get_Some_iff [OF assms] image_iff)
  have "inj_on (\<lambda>i. slot_name i (gens t ! i)) {0..<length (slots t)}"
    using table_wfD(3) [OF assms] by (auto simp: inj_on_def slot_name_inject)
  then show "distinct (map fst (table_iter t))"
    by (auto simp: iter o_def distinct_map inj_on_def)
  have "filter (\<lambda>s. s \<noteq> None) (slots t) = map ((!) (slots t)) ?I"
    using filter_map [of "\<lambda>s. s \<noteq> None" "(!) (slots t)" "[0..<length (slots t)]"]
    by (simp add: map_nth o_def)
  then show "length (table_iter t) = table_len t"
    using table_wfD(4) [OF assms] by (simp add: iter table_len_def)
qed

text \<open>Distinct live names are no more than the slots.\<close>

lemma live_names_bound:
  assumes wf: "table_wf t" and "distinct ns" and "\<And>n. n \<in> set ns \<Longrightarrow> table_get t n \<noteq> None"
  shows "length ns \<le> length (slots t)"
proof -
  have "set ns \<subseteq> fst ` set (table_iter t)"
    using assms(3) by (force simp: table_iter_exact(1) [OF wf])
  then have "length ns \<le> length (table_iter t)"
    using assms(2) by (metis card_mono card_length distinct_card finite_set le_trans length_map set_map)
  also have "\<dots> \<le> length (slots t)"
    using table_iter_exact(3) [OF wf] table_wfD(4) [OF wf] by (simp add: table_len_def)
  finally show ?thesis .
qed

text \<open>C34. Sweeps are complete and resumable. Iterating a well-formed table yields exactly the live
  names with the entries they resolve to, each name once; and the sweep resumed at slot \<open>k\<close> is the
  full sweep without the entries of the slots below \<open>k\<close>.\<close>

theorem table_sweep_exact:
  assumes "table_wf t"
  shows "set (table_iter t) = {(name, v). table_get t name = Some v}
    \<and> distinct (map fst (table_iter t)) \<and> length (table_iter t) = table_len t
    \<and> table_iter_from t k = filter (\<lambda>(slot, _). k \<le> slot) (table_iter_from t 0)"
proof -
  have "[k..<length (slots t)] = filter (\<lambda>i. k \<le> i) [0..<length (slots t)]"
    by (rule sorted_distinct_set_unique) (auto simp: sorted_wrt_filter)
  then have "table_iter_from t k = filter (\<lambda>(slot, _). k \<le> slot) (table_iter_from t 0)"
    by (simp add: table_iter_from_upt filter_map o_def conj_commute)
  with table_iter_exact [OF assms] show ?thesis by simp
qed

theorem table_sweep_exact_witness:
  "let t = \<lparr>slots = [Some CHR ''a'', None, Some CHR ''c''], gens = [0, 5, 2], live = 2\<rparr>
   in table_wf t \<and> set (table_iter t) = {(name, v). table_get t name = Some v}
    \<and> distinct (map fst (table_iter t)) \<and> length (table_iter t) = table_len t
    \<and> table_iter_from t 1 = filter (\<lambda>(slot, _). 1 \<le> slot) (table_iter_from t 0)"
proof -
  let ?t = "\<lparr>slots = [Some CHR ''a'', None, Some CHR ''c''], gens = [0, 5, 2], live = 2\<rparr>"
  have "table_wf ?t" by (simp add: table_wf_def)
  with table_sweep_exact [OF this, of 1] show ?thesis by (simp add: Let_def)
qed

end
