(* ===== verification/Regions.thy ===== *)
theory Regions
  imports Slots
begin

text \<open>
  The untyped regions of \<open>src/crates/regions/src\<close>: the arithmetic of \<open>lib.rs\<close> and the table of
  \<open>table.rs\<close>, a generational table of page runs with a watermark, a pin and a count of children.
  Every operation is a function on the table of \<open>Slots\<close>. The second half follows a table through
  any interleaving of its operations with claims in flight, and shows that no page is ever handed
  out twice and that a run that goes back to the frame allocator overlaps nothing still in use.
\<close>

definition split_new_watermark :: "u64 \<Rightarrow> u64 \<Rightarrow> u64 \<Rightarrow> u64 option" where
  "split_new_watermark parent_pages parent_watermark want =
     (if want = 0 then None
      else Option.bind (checked_add parent_watermark want) (\<lambda>new.
        if new > parent_pages then None else Some new))"

datatype destroy_verdict = Refused | FreeToGlobal | ReturnToParent (unbump: u64)

definition destroy_outcome :: "bool \<Rightarrow> u32 \<Rightarrow> bool \<Rightarrow> bool \<Rightarrow> u64 \<Rightarrow> destroy_verdict" where
  "destroy_outcome is_pinned child_count is_root is_lifo_top child_pages =
     (if is_pinned \<or> child_count > 0 then Refused
      else if is_root then FreeToGlobal
      else ReturnToParent (if is_lifo_top then child_pages else 0))"

definition NO_PARENT :: u64 where
  "NO_PARENT = - 1"

record region =
  r_base_page :: u64
  r_pages :: u64
  r_watermark :: u64
  r_pinned :: bool
  r_parent :: u64
  r_children :: u32

record destroy_claim =
  c_base_page :: u64
  c_pages :: u64
  c_parent :: u64
  c_is_root :: bool

type_synonym region_table = "region table"

definition region_table_new :: "nat \<Rightarrow> region_table" where
  "region_table_new N = table_new N"

definition insert_root :: "region_table \<Rightarrow> u64 \<Rightarrow> u64 \<Rightarrow> u64 option \<times> region_table" where
  "insert_root t base_page pages =
     table_insert_with t (\<lambda>_. \<lparr>r_base_page = base_page, r_pages = pages, r_watermark = 0,
       r_pinned = False, r_parent = NO_PARENT, r_children = 0\<rparr>)"

definition region_split :: "region_table \<Rightarrow> u64 \<Rightarrow> u64 \<Rightarrow> u64 option \<times> region_table" where
  "region_split t parent pages =
     (case table_get t parent of
        None \<Rightarrow> (None, t)
      | Some r \<Rightarrow>
          (case split_new_watermark (r_pages r) (r_watermark r) pages of
             None \<Rightarrow> (None, t)
           | Some new_watermark \<Rightarrow>
               (let base_page = r_base_page r + r_watermark r;
                    t1 = table_get_mut t parent (\<lambda>r. r\<lparr>r_watermark := new_watermark,
                           r_children := r_children r + 1\<rparr>)
                in table_insert_with t1 (\<lambda>_. \<lparr>r_base_page = base_page, r_pages = pages,
                     r_watermark = 0, r_pinned = False, r_parent = parent, r_children = 0\<rparr>))))"

definition has_children :: "region_table \<Rightarrow> u64 \<Rightarrow> bool" where
  "has_children t name = (case table_get t name of None \<Rightarrow> False | Some r \<Rightarrow> r_children r > 0)"

definition region_retype_page :: "region_table \<Rightarrow> u64 \<Rightarrow> u64 option \<times> region_table" where
  "region_retype_page t name =
     (case table_get t name of
        None \<Rightarrow> (None, t)
      | Some r \<Rightarrow>
          if r_watermark r \<ge> r_pages r then (None, t)
          else (Some (r_base_page r + r_watermark r),
                table_get_mut t name (\<lambda>r. r\<lparr>r_watermark := r_watermark r + 1\<rparr>)))"

definition region_retype_object_page :: "region_table \<Rightarrow> u64 \<Rightarrow> u64 option \<times> region_table" where
  "region_retype_object_page t name =
     (case table_get t name of
        None \<Rightarrow> (None, t)
      | Some r \<Rightarrow>
          if r_watermark r \<ge> r_pages r then (None, t)
          else (Some (r_base_page r + r_watermark r),
                table_get_mut t name
                  (\<lambda>r. r\<lparr>r_pinned := True, r_watermark := r_watermark r + 1\<rparr>)))"

definition region_unpin :: "region_table \<Rightarrow> u64 \<Rightarrow> region_table" where
  "region_unpin t name = table_get_mut t name (\<lambda>r. r\<lparr>r_pinned := False\<rparr>)"

definition region_usage :: "region_table \<Rightarrow> u64 \<Rightarrow> (u64 \<times> u64) option" where
  "region_usage t name = map_option (\<lambda>r. (r_watermark r, r_pages r)) (table_get t name)"

definition region_bounds :: "region_table \<Rightarrow> u64 \<Rightarrow> (u64 \<times> u64) option" where
  "region_bounds t name = map_option (\<lambda>r. (r_base_page r, r_pages r)) (table_get t name)"

definition claim_for_destroy :: "region_table \<Rightarrow> u64 \<Rightarrow> destroy_claim option \<times> region_table" where
  "claim_for_destroy t name =
     (case table_get t name of
        None \<Rightarrow> (None, t)
      | Some r \<Rightarrow>
          (let is_root = (r_parent r = NO_PARENT)
           in if destroy_outcome (r_pinned r) (r_children r) is_root False (r_pages r) = Refused
              then (None, t)
              else (Some \<lparr>c_base_page = r_base_page r, c_pages = r_pages r, c_parent = r_parent r,
                     c_is_root = is_root\<rparr>,
                    snd (table_remove t name))))"

definition return_to_parent :: "region_table \<Rightarrow> destroy_claim \<Rightarrow> region_table" where
  "return_to_parent t claim =
     (if c_is_root claim then t
      else (case table_get t (c_parent claim) of
              None \<Rightarrow> t
            | Some p \<Rightarrow>
                (let is_lifo_top = (c_base_page claim + c_pages claim
                                     = r_base_page p + r_watermark p)
                 in table_get_mut t (c_parent claim) (\<lambda>p.
                      (case destroy_outcome False 0 False is_lifo_top (c_pages claim) of
                         ReturnToParent u \<Rightarrow> p\<lparr>r_watermark := r_watermark p - u\<rparr>
                       | _ \<Rightarrow> p)\<lparr>r_children := saturating_sub (r_children p) 1\<rparr>))))"

section \<open>The arithmetic\<close>

lemma split_new_watermark_Some_iff:
  "split_new_watermark pages wm want = Some new \<longleftrightarrow>
     0 < unat want \<and> unat new = unat wm + unat want \<and> unat wm + unat want \<le> unat pages"
proof -
  have "split_new_watermark pages wm want = Some new \<longleftrightarrow>
      want \<noteq> 0 \<and> checked_add wm want = Some new \<and> new \<le> pages"
    by (cases "checked_add wm want") (auto simp: split_new_watermark_def)
  also have "\<dots> \<longleftrightarrow> 0 < unat want \<and> unat new = unat wm + unat want \<and> unat wm + unat want \<le> unat pages"
    using unat_eq_zero [of want] by (auto simp: checked_add_Some_iff word_le_nat_alt)
  finally show ?thesis .
qed

lemma destroy_outcome_cases [simp]:
  "destroy_outcome p c is_root lifo n = Refused \<longleftrightarrow> p \<or> c > 0"
  "destroy_outcome p c is_root lifo n = FreeToGlobal \<longleftrightarrow> \<not> p \<and> c = 0 \<and> is_root"
  "destroy_outcome False 0 False lifo n = ReturnToParent (if lifo then n else 0)"
  by (auto simp: destroy_outcome_def word_gt_0)

section \<open>The forest of carved runs\<close>

text \<open>
  What is carved out of what, as numbers: a live region, a claimed region that has not been returned
  or freed yet, a run lost to a full table, or a single retyped page, each a run of pages below a
  parent. \<open>NO_PARENT\<close> is the parent of the runs that come from the frame allocator.
\<close>

datatype key = KLive u64 | KFlight nat | KLost nat | KPage u64 nat

record carve =
  cv_base :: nat
  cv_len :: nat
  par :: u64

type_synonym carving = "key \<Rightarrow> carve option"

definition run :: "carve \<Rightarrow> nat set" where
  "run c = {cv_base c ..< cv_base c + cv_len c}"

definition runs_disjoint :: "carving \<Rightarrow> bool" where
  "runs_disjoint C \<longleftrightarrow> (\<forall>k k' c c'. C k = Some c \<longrightarrow> C k' = Some c' \<longrightarrow> k \<noteq> k' \<longrightarrow> par c = par c'
     \<longrightarrow> run c \<inter> run c' = {})"

definition runs_inside :: "carving \<Rightarrow> (u64 \<Rightarrow> nat) \<Rightarrow> bool" where
  "runs_inside C wm \<longleftrightarrow> (\<forall>k c. C k = Some c \<longrightarrow> par c \<noteq> NO_PARENT
     \<longrightarrow> (\<exists>d. C (KLive (par c)) = Some d \<and> run c \<subseteq> {cv_base d ..< cv_base d + wm (par c)}))"

definition watermarks_ok :: "carving \<Rightarrow> (u64 \<Rightarrow> nat) \<Rightarrow> bool" where
  "watermarks_ok C wm \<longleftrightarrow> (\<forall>n c. C (KLive n) = Some c \<longrightarrow> wm n \<le> cv_len c)"

definition ranked :: "carving \<Rightarrow> (u64 \<Rightarrow> nat) \<Rightarrow> bool" where
  "ranked C rank \<longleftrightarrow> (\<forall>n c. C (KLive n) = Some c \<longrightarrow> par c \<noteq> NO_PARENT \<longrightarrow> rank (par c) < rank n)"

definition forest :: "carving \<Rightarrow> (u64 \<Rightarrow> nat) \<Rightarrow> bool" where
  "forest C wm \<longleftrightarrow> runs_disjoint C \<and> runs_inside C wm \<and> watermarks_ok C wm
     \<and> (\<exists>rank. ranked C rank) \<and> C (KLive NO_PARENT) = None \<and> (\<forall>k c. C k = Some c \<longrightarrow> 0 < cv_len c)"

text \<open>A region is below another when its chain of parents passes through it.\<close>

definition parent_of :: "carving \<Rightarrow> u64 \<Rightarrow> u64 \<Rightarrow> bool" where
  "parent_of C p n \<longleftrightarrow> (\<exists>c. C (KLive n) = Some c \<and> par c = p \<and> p \<noteq> NO_PARENT)"

abbreviation above :: "carving \<Rightarrow> u64 \<Rightarrow> u64 \<Rightarrow> bool" where
  "above C \<equiv> (parent_of C)\<^sup>+\<^sup>+"

lemma forest_disjointD:
  assumes "forest C wm" and "C k = Some c" and "C k' = Some c'" and "par c = par c'"
    and "x \<in> run c" and "x \<in> run c'"
  shows "k = k'"
proof -
  from assms(1) have "runs_disjoint C" by (simp add: forest_def)
  with assms show ?thesis unfolding runs_disjoint_def by blast
qed

lemma forest_insideD:
  assumes "forest C wm" and "C k = Some c" and "par c \<noteq> NO_PARENT"
  obtains d where "C (KLive (par c)) = Some d" and "run c \<subseteq> run d"
    and "run c \<subseteq> {cv_base d ..< cv_base d + wm (par c)}"
proof -
  from assms(1) have "runs_inside C wm" and wm: "watermarks_ok C wm"
    by (simp_all add: forest_def)
  with assms obtain d where d: "C (KLive (par c)) = Some d"
      "run c \<subseteq> {cv_base d ..< cv_base d + wm (par c)}"
    unfolding runs_inside_def by blast
  moreover from d wm have "{cv_base d ..< cv_base d + wm (par c)} \<subseteq> run d"
    by (fastforce simp: watermarks_ok_def run_def)
  ultimately show thesis using that by blast
qed

lemma forest_parent_live:
  "forest C wm \<Longrightarrow> C k = Some c \<Longrightarrow> par c \<noteq> NO_PARENT \<Longrightarrow> \<exists>d. C (KLive (par c)) = Some d"
  by (blast elim: forest_insideD)

lemma above_child:
  assumes "forest C wm" and "above C a n" and "C (KLive n) = Some c" and "x \<in> run c"
  shows "\<exists>m d. parent_of C a m \<and> C (KLive m) = Some d \<and> x \<in> run d \<and> (m = n \<or> above C m n)"
  using assms(2-4)
proof (induction arbitrary: c rule: tranclp_induct)
  case (base n)
  then show ?case by blast
next
  case (step p n)
  from step.hyps(2) step.prems(1) have c: "par c = p" "p \<noteq> NO_PARENT"
    by (auto simp: parent_of_def)
  with forest_insideD [OF assms(1) step.prems(1)] obtain d where
    d: "C (KLive p) = Some d" "run c \<subseteq> run d" by metis
  with step.IH [OF d(1)] step.prems(2) obtain m e where
    "parent_of C a m" "C (KLive m) = Some e" "x \<in> run e" "m = p \<or> above C m p" by blast
  with step.hyps(2) show ?case
    by (metis tranclp.intros(1,2))
qed

text \<open>Two regions that share a page are on one chain.\<close>

lemma forest_chain:
  assumes F: "forest C wm" and n: "C (KLive n) = Some c" "x \<in> run c"
    and m: "C (KLive m) = Some d" "x \<in> run d"
  shows "n = m \<or> above C n m \<or> above C m n"
proof -
  from F obtain rank where rank: "ranked C rank"
    by (auto simp: forest_def)
  show ?thesis
    using n m
  proof (induction "rank n + rank m" arbitrary: n m c d rule: less_induct)
    case less
    show ?case
    proof (cases "par d = NO_PARENT \<and> par c = NO_PARENT")
      case True
      with forest_disjointD [OF F less.prems(1,3)] less.prems show ?thesis by auto
    next
      case False
      have step: "a = b \<or> above C a b \<or> above C b a"
        if ab: "C (KLive a) = Some ca" "x \<in> run ca" "C (KLive b) = Some cb" "x \<in> run cb"
          and nr: "par cb \<noteq> NO_PARENT" and sum: "rank a + rank b = rank n + rank m" for a b ca cb
      proof -
        obtain e where e: "C (KLive (par cb)) = Some e" "run cb \<subseteq> run e"
          using forest_insideD [OF F ab(3) nr] by metis
        have up: "parent_of C (par cb) b"
          using ab nr by (auto simp: parent_of_def)
        have "rank (par cb) < rank b"
          using rank ab(3) nr by (auto simp: ranked_def)
        with sum have "rank a + rank (par cb) < rank n + rank m" by simp
        with less.hyps [of a "par cb" ca e] ab e
        consider "a = par cb" | "above C a (par cb)" | "above C (par cb) a" by blast
        then show ?thesis
        proof cases
          case 3
          from above_child [OF F 3 ab(1,2)] obtain k g where
            g: "parent_of C (par cb) k" "C (KLive k) = Some g" "x \<in> run g" "k = a \<or> above C k a"
            by blast
          with forest_disjointD [OF F g(2) ab(3)] ab(4) have "k = b"
            by (auto simp: parent_of_def)
          with g show ?thesis by blast
        qed (use up in \<open>auto intro: tranclp.trancl_into_trancl\<close>)
      qed
      from False step [OF less.prems(1,2,3,4)] step [OF less.prems(3,4,1,2)] show ?thesis
        by (auto simp: add.commute)
    qed
  qed
qed

text \<open>The four ways a table operation changes the forest.\<close>

lemma forest_add_root:
  assumes F: "forest C wm" and new: "C (KLive n) = None" "n \<noteq> NO_PARENT" and len: "0 < cv_len c"
    and root: "par c = NO_PARENT"
    and fresh: "\<And>k d. C k = Some d \<Longrightarrow> par d = NO_PARENT \<Longrightarrow> run c \<inter> run d = {}"
  shows "forest (C(KLive n \<mapsto> c)) (wm(n := 0))"
proof -
  from F fresh root have "runs_disjoint (C(KLive n \<mapsto> c))"
    unfolding forest_def runs_disjoint_def by (auto simp: Int_commute)
  moreover have "runs_inside (C(KLive n \<mapsto> c)) (wm(n := 0))"
    unfolding runs_inside_def
  proof (intro allI impI)
    fix k d
    assume d: "(C(KLive n \<mapsto> c)) k = Some d" "par d \<noteq> NO_PARENT"
    with root have Cd: "C k = Some d" by (auto split: if_splits)
    with forest_parent_live [OF F Cd d(2)] new have "par d \<noteq> n" by auto
    with forest_insideD [OF F Cd d(2)] show "\<exists>e. (C(KLive n \<mapsto> c)) (KLive (par d)) = Some e
        \<and> run d \<subseteq> {cv_base e ..< cv_base e + (wm(n := 0)) (par d)}"
      by fastforce
  qed
  moreover from F have "watermarks_ok (C(KLive n \<mapsto> c)) (wm(n := 0))"
    by (simp add: forest_def watermarks_ok_def)
  moreover from F obtain rank where "ranked C rank" by (auto simp: forest_def)
  then have "ranked (C(KLive n \<mapsto> c)) rank"
    using root by (auto simp: ranked_def)
  ultimately show ?thesis
    using F new len by (auto simp: forest_def)
qed

lemma forest_carve:
  assumes F: "forest C wm" and p: "C (KLive p) = Some d" and new: "C k = None"
    and k: "k = KLive n \<Longrightarrow> n \<noteq> NO_PARENT"
    and c: "cv_base c = cv_base d + wm p" "0 < cv_len c" "par c = p"
    and room: "wm p + cv_len c \<le> cv_len d"
    and wm': "\<And>q. q \<noteq> p \<Longrightarrow> C (KLive q) \<noteq> None \<Longrightarrow> wm' q = wm q" "wm' p = wm p + cv_len c"
      "k = KLive n \<Longrightarrow> wm' n = 0" and kn: "\<And>m. k = KLive m \<Longrightarrow> m = n"
  shows "forest (C(k \<mapsto> c)) wm'"
proof -
  have pn: "p \<noteq> NO_PARENT"
    using F p by (auto simp: forest_def)
  have pk: "KLive p \<noteq> k"
    using p new by auto
  have below: "run e \<subseteq> {cv_base d ..< cv_base d + wm p}" if "C j = Some e" "par e = p" for j e
    using forest_insideD [OF F that(1)] that(2) p pn by auto
  have "runs_disjoint (C(k \<mapsto> c))"
    unfolding runs_disjoint_def
  proof (intro allI impI)
    fix j j' e e'
    assume a: "(C(k \<mapsto> c)) j = Some e" "(C(k \<mapsto> c)) j' = Some e'" "j \<noteq> j'" "par e = par e'"
    have "run c \<inter> run g = {}" if "C i = Some g" "par g = p" for i g
      using below [OF that] c(1) by (auto simp: run_def)
    moreover from F a(3,4) have "run e \<inter> run e' = {}" if "C j = Some e" "C j' = Some e'"
      using that unfolding forest_def runs_disjoint_def by blast
    ultimately show "run e \<inter> run e' = {}"
      using a c(3) by (auto split: if_splits)
  qed
  moreover have "runs_inside (C(k \<mapsto> c)) wm'"
    unfolding runs_inside_def
  proof (intro allI impI)
    fix j e
    assume e: "(C(k \<mapsto> c)) j = Some e" "par e \<noteq> NO_PARENT"
    show "\<exists>g. (C(k \<mapsto> c)) (KLive (par e)) = Some g
        \<and> run e \<subseteq> {cv_base g ..< cv_base g + wm' (par e)}"
    proof (cases "j = k")
      case True
      with e c p pk wm'(2) show ?thesis by (intro exI [of _ d]) (auto simp: run_def)
    next
      case False
      with e have Ce: "C j = Some e" by simp
      from forest_insideD [OF F Ce e(2)] obtain g where g: "C (KLive (par e)) = Some g"
        "run e \<subseteq> {cv_base g ..< cv_base g + wm (par e)}" by blast
      moreover have "wm (par e) \<le> wm' (par e)"
        using wm'(1) [of "par e"] wm'(2) g(1) by (cases "par e = p") auto
      moreover have "KLive (par e) \<noteq> k"
        using g(1) new by auto
      ultimately show ?thesis by (intro exI [of _ g]) auto
    qed
  qed
  moreover have "watermarks_ok (C(k \<mapsto> c)) wm'"
    unfolding watermarks_ok_def
  proof (intro allI impI)
    fix q e
    assume e: "(C(k \<mapsto> c)) (KLive q) = Some e"
    from F have ok: "C (KLive q) = Some e \<Longrightarrow> wm q \<le> cv_len e"
      by (simp add: forest_def watermarks_ok_def)
    show "wm' q \<le> cv_len e"
      using e ok p room wm'(1) [of q] wm'(2,3) kn [of q]
      by (cases "k = KLive q"; cases "q = p") auto
  qed
  moreover obtain rank where rank: "ranked C rank"
    using F by (auto simp: forest_def)
  have "\<exists>rank. ranked (C(k \<mapsto> c)) rank"
  proof (cases "k = KLive n")
    case True
    have "par g \<noteq> n" if "C (KLive q) = Some g" "par g \<noteq> NO_PARENT" for q g
      using forest_parent_live [OF F that] new True by auto
    with rank pk True c(3) have "ranked (C(k \<mapsto> c)) (rank(n := Suc (rank p)))"
      unfolding ranked_def by auto
    then show ?thesis by blast
  next
    case False
    with kn have "k \<noteq> KLive m" for m by blast
    with rank have "ranked (C(k \<mapsto> c)) rank"
      by (auto simp: ranked_def)
    then show ?thesis by blast
  qed
  moreover have "(C(k \<mapsto> c)) (KLive NO_PARENT) = None"
    using F k kn [of NO_PARENT] by (auto simp: forest_def)
  moreover have "\<forall>j e. (C(k \<mapsto> c)) j = Some e \<longrightarrow> 0 < cv_len e"
    using F c(2) by (simp add: forest_def)
  ultimately show ?thesis
    by (simp only: forest_def)
qed

lemma forest_remove:
  assumes F: "forest C wm" and k: "k = KLive n \<Longrightarrow> (\<forall>j c. C j = Some c \<longrightarrow> par c \<noteq> n)"
    and kn: "\<And>m. k = KLive m \<Longrightarrow> m = n"
  shows "forest (C(k := None)) wm"
proof -
  from F have "runs_disjoint (C(k := None))"
    by (auto simp: forest_def runs_disjoint_def)
  moreover have "runs_inside (C(k := None)) wm"
    unfolding runs_inside_def
  proof (intro allI impI)
    fix j e
    assume e: "(C(k := None)) j = Some e" "par e \<noteq> NO_PARENT"
    then have Ce: "C j = Some e" by (simp split: if_splits)
    from forest_insideD [OF F Ce e(2)] obtain g where g: "C (KLive (par e)) = Some g"
      "run e \<subseteq> {cv_base g ..< cv_base g + wm (par e)}" by blast
    moreover have "KLive (par e) \<noteq> k"
      using k kn [of "par e"] Ce by auto
    ultimately show "\<exists>g. (C(k := None)) (KLive (par e)) = Some g
        \<and> run e \<subseteq> {cv_base g ..< cv_base g + wm (par e)}"
      by simp
  qed
  moreover from F have "watermarks_ok (C(k := None)) wm"
    by (simp add: forest_def watermarks_ok_def)
  moreover from F have "\<exists>rank. ranked (C(k := None)) rank"
    by (auto simp: forest_def ranked_def)
  ultimately show ?thesis
    using F by (simp add: forest_def)
qed

text \<open>Dropping entries and renaming one that is not a region keeps a forest.\<close>

lemma forest_rename:
  assumes F: "forest C wm" and sub: "\<And>k c. C' k = Some c \<Longrightarrow> C (f k) = Some c"
    and inj: "inj_on f (dom C')" and f: "\<And>m. C' (KLive m) \<noteq> None \<Longrightarrow> f (KLive m) = KLive m"
    and parents: "\<And>k c. C' k = Some c \<Longrightarrow> par c \<noteq> NO_PARENT \<Longrightarrow> C' (KLive (par c)) = C (KLive (par c))"
    and wm': "\<And>m. C' (KLive m) \<noteq> None \<Longrightarrow> wm' m = wm m"
  shows "forest C' wm'"
proof -
  have live: "C (KLive m) = Some c" if "C' (KLive m) = Some c" for m c
    using sub [OF that] f [of m] that by simp
  have "runs_disjoint C'"
    unfolding runs_disjoint_def
  proof (intro allI impI)
    fix k k' c c'
    assume a: "C' k = Some c" "C' k' = Some c'" "k \<noteq> k'" "par c = par c'"
    then have "f k \<noteq> f k'"
      using inj by (auto simp: inj_on_def dom_def)
    with forest_disjointD [OF F sub [OF a(1)] sub [OF a(2)] a(4)] show "run c \<inter> run c' = {}"
      by blast
  qed
  moreover have "runs_inside C' wm'"
    unfolding runs_inside_def
  proof (intro allI impI)
    fix k c
    assume c: "C' k = Some c" "par c \<noteq> NO_PARENT"
    from forest_insideD [OF F sub [OF c(1)] c(2)] obtain d where
      "C (KLive (par c)) = Some d" "run c \<subseteq> {cv_base d ..< cv_base d + wm (par c)}" by blast
    with parents [OF c] wm' [of "par c"] show "\<exists>d. C' (KLive (par c)) = Some d
        \<and> run c \<subseteq> {cv_base d ..< cv_base d + wm' (par c)}" by simp
  qed
  moreover have "watermarks_ok C' wm'"
    using F live wm' unfolding forest_def watermarks_ok_def by fastforce
  moreover obtain rank where "ranked C rank"
    using F by (auto simp: forest_def)
  then have "\<exists>rank. ranked C' rank"
    using live unfolding ranked_def by blast
  moreover have "C' (KLive NO_PARENT) = None"
    using F live unfolding forest_def by (metis not_Some_eq)
  moreover have "\<forall>k c. C' k = Some c \<longrightarrow> 0 < cv_len c"
    using F sub unfolding forest_def by blast
  ultimately show ?thesis by (simp only: forest_def)
qed

lemma forest_set_watermark:
  assumes F: "forest C wm" and p: "C (KLive p) = Some d" and "w \<le> cv_len d"
    and below: "\<And>k c. C k = Some c \<Longrightarrow> par c = p \<Longrightarrow> run c \<subseteq> {cv_base d ..< cv_base d + w}"
  shows "forest C (wm(p := w))"
proof -
  have "runs_inside C (wm(p := w))"
    unfolding runs_inside_def
  proof (intro allI impI)
    fix k c
    assume c: "C k = Some c" "par c \<noteq> NO_PARENT"
    then obtain e where "C (KLive (par c)) = Some e"
        "run c \<subseteq> {cv_base e ..< cv_base e + wm (par c)}"
      by (rule forest_insideD [OF F])
    with c p below [OF c(1)] show "\<exists>e. C (KLive (par c)) = Some e
        \<and> run c \<subseteq> {cv_base e ..< cv_base e + (wm(p := w)) (par c)}"
      by (cases "par c = p") auto
  qed
  with F p assms(3) show ?thesis
    by (simp add: forest_def watermarks_ok_def)
qed

text \<open>The children of a region: every run carved from it but single retyped pages.\<close>

fun is_page :: "key \<Rightarrow> bool" where
  "is_page (KPage _ _) = True"
| "is_page _ = False"

definition kids :: "carving \<Rightarrow> u64 \<Rightarrow> key set" where
  "kids C n = {k. \<not> is_page k \<and> (\<exists>c. C k = Some c \<and> par c = n)}"

lemma kids_bounded:
  assumes F: "forest C wm" and n: "C (KLive n) = Some d"
  shows "finite (kids C n)" and "card (kids C n) \<le> wm n"
proof -
  let ?f = "\<lambda>k. cv_base (the (C k))"
  have nn: "n \<noteq> NO_PARENT"
    using F n by (auto simp: forest_def)
  have mem: "?f k \<in> run (the (C k)) \<and> par (the (C k)) = n \<and> C k = Some (the (C k))"
    if "k \<in> kids C n" for k
    using that F by (auto simp: kids_def run_def forest_def)
  have inj: "inj_on ?f (kids C n)"
  proof (rule inj_onI)
    fix k k'
    assume "k \<in> kids C n" "k' \<in> kids C n" and eq: "?f k = ?f k'"
    with mem [of k] mem [of k'] forest_disjointD [OF F, of k "the (C k)" k' "the (C k')" "?f k"]
    show "k = k'" by auto
  qed
  have into: "?f ` kids C n \<subseteq> {cv_base d ..< cv_base d + wm n}"
  proof (rule image_subsetI)
    fix k
    assume k: "k \<in> kids C n"
    then obtain e where "C (KLive n) = Some e" "run (the (C k)) \<subseteq> {cv_base e ..< cv_base e + wm n}"
      using forest_insideD [OF F, of k "the (C k)"] mem [OF k] nn by metis
    with mem [OF k] n show "?f k \<in> {cv_base d ..< cv_base d + wm n}"
      by auto
  qed
  show "finite (kids C n)"
    using inj_on_finite [OF inj into] by simp
  show "card (kids C n) \<le> wm n"
    using card_inj_on_le [OF inj into] by simp
qed

lemma kids_insert:
  "C k = None \<Longrightarrow> kids (C(k \<mapsto> c)) n =
     (if \<not> is_page k \<and> par c = n then insert k (kids C n) else kids C n)"
  by (auto simp: kids_def)

lemma kids_remove: "kids (C(k := None)) n = kids C n - {k}"
  by (auto simp: kids_def split: if_splits)

section \<open>Runs of a region table\<close>

text \<open>
  The table together with the claims in flight (claimed, neither freed nor returned yet), the runs
  lost because the table was full, and the pages retyped out of each live region.
\<close>

record rstate =
  rt :: region_table
  flight :: "nat \<Rightarrow> destroy_claim option"
  lost :: "nat \<Rightarrow> destroy_claim option"
  handed :: "(u64 \<times> nat) set"

definition carve_of :: "region \<Rightarrow> carve" where
  "carve_of r = \<lparr>cv_base = unat (r_base_page r), cv_len = unat (r_pages r), par = r_parent r\<rparr>"

definition claim_carve :: "destroy_claim \<Rightarrow> carve" where
  "claim_carve c = \<lparr>cv_base = unat (c_base_page c), cv_len = unat (c_pages c), par = c_parent c\<rparr>"

fun carving_of :: "rstate \<Rightarrow> carving" where
  "carving_of st (KLive n) = map_option carve_of (table_get (rt st) n)"
| "carving_of st (KFlight i) = map_option claim_carve (flight st i)"
| "carving_of st (KLost i) = map_option claim_carve (lost st i)"
| "carving_of st (KPage n x) =
     (if (n, x) \<in> handed st then Some \<lparr>cv_base = x, cv_len = 1, par = n\<rparr> else None)"

definition wm_of :: "rstate \<Rightarrow> u64 \<Rightarrow> nat" where
  "wm_of st n = (case table_get (rt st) n of None \<Rightarrow> 0 | Some r \<Rightarrow> unat (r_watermark r))"

definition small :: "carving \<Rightarrow> bool" where
  "small C \<longleftrightarrow> (\<forall>k c. C k = Some c \<longrightarrow> cv_base c + cv_len c \<le> 2 ^ 52 \<and> cv_len c < 2 ^ 32)"

definition region_inv :: "rstate \<Rightarrow> bool" where
  "region_inv st \<longleftrightarrow> table_wf (rt st) \<and> forest (carving_of st) (wm_of st) \<and> small (carving_of st)
     \<and> (\<forall>n r. table_get (rt st) n = Some r
          \<longrightarrow> unat (r_children r) = card (kids (carving_of st) n))
     \<and> (\<forall>i c. flight st i = Some c \<longrightarrow> c_is_root c \<longleftrightarrow> c_parent c = NO_PARENT)"

inductive region_local :: "rstate \<Rightarrow> rstate \<Rightarrow> bool" where
  split: "region_split (rt st) q p = (Some n, t') \<Longrightarrow> region_local st (st\<lparr>rt := t'\<rparr>)"
| split_full: "region_split (rt st) q p = (None, t') \<Longrightarrow> table_get (rt st) q = Some r \<Longrightarrow>
    split_new_watermark (r_pages r) (r_watermark r) p = Some w \<Longrightarrow> lost st j = None \<Longrightarrow>
    region_local st (st\<lparr>rt := t', lost := (lost st)(j \<mapsto> \<lparr>c_base_page = r_base_page r + r_watermark r,
      c_pages = p, c_parent = q, c_is_root = False\<rparr>)\<rparr>)"
| retype: "region_retype_page (rt st) n = (Some x, t') \<Longrightarrow>
    region_local st (st\<lparr>rt := t', handed := insert (n, unat x) (handed st)\<rparr>)"
| retype_object: "region_retype_object_page (rt st) n = (Some x, t') \<Longrightarrow>
    region_local st (st\<lparr>rt := t', handed := insert (n, unat x) (handed st)\<rparr>)"
| unpin: "region_local st (st\<lparr>rt := region_unpin (rt st) n\<rparr>)"
| claim: "claim_for_destroy (rt st) n = (Some c, t') \<Longrightarrow> flight st i = None \<Longrightarrow>
    region_local st (st\<lparr>rt := t', flight := (flight st)(i \<mapsto> c),
      handed := {(m, x). (m, x) \<in> handed st \<and> m \<noteq> n}\<rparr>)"
| give_back: "flight st i = Some c \<Longrightarrow> \<not> c_is_root c \<Longrightarrow>
    region_local st (st\<lparr>rt := return_to_parent (rt st) c, flight := (flight st)(i := None)\<rparr>)"

text \<open>With the two steps that exchange a run with the frame allocator.\<close>

inductive region_step :: "rstate \<Rightarrow> rstate \<Rightarrow> bool" where
  create: "insert_root (rt st) b p = (Some n, t') \<Longrightarrow> 0 < p \<Longrightarrow> unat b + unat p \<le> 2 ^ 52 \<Longrightarrow>
    unat p < 2 ^ 32 \<Longrightarrow>
    (\<forall>k c. carving_of st k = Some c \<longrightarrow> par c = NO_PARENT \<longrightarrow> run c \<inter> {unat b ..< unat b + unat p} = {}) \<Longrightarrow>
    region_step st (st\<lparr>rt := t'\<rparr>)"
| free: "flight st i = Some c \<Longrightarrow> c_is_root c \<Longrightarrow>
    region_step st (st\<lparr>flight := (flight st)(i := None)\<rparr>)"
| inside: "region_local st st' \<Longrightarrow> region_step st st'"

definition rstate_new :: "nat \<Rightarrow> rstate" where
  "rstate_new N = \<lparr>rt = region_table_new N, flight = Map.empty, lost = Map.empty, handed = {}\<rparr>"

section \<open>Every step keeps the invariant\<close>

lemma region_invD:
  assumes "region_inv st"
  shows "table_wf (rt st)" and "forest (carving_of st) (wm_of st)" and "small (carving_of st)"
    and "table_get (rt st) n = Some r \<Longrightarrow> unat (r_children r) = card (kids (carving_of st) n)"
    and "flight st i = Some c \<Longrightarrow> c_is_root c \<longleftrightarrow> c_parent c = NO_PARENT"
  using assms by (auto simp: region_inv_def)

lemma table_get_NO_PARENT [simp]: "table_wf t \<Longrightarrow> table_get t NO_PARENT = None"
proof -
  assume wf: "table_wf t"
  have "fst (slot_unpack NO_PARENT) = 2 ^ 32 - 1"
    by (simp add: NO_PARENT_def slot_unpack_def)
  with table_wfD [OF wf] show ?thesis
    by (cases "slot_unpack NO_PARENT") (simp add: table_get_unpack)
qed

lemma region_live:
  assumes "region_inv st" and "table_get (rt st) n = Some r"
  shows "n \<noteq> NO_PARENT" and "unat (r_watermark r) \<le> unat (r_pages r)" and "0 < unat (r_pages r)"
    and "unat (r_base_page r) + unat (r_pages r) \<le> 2 ^ 52" and "unat (r_pages r) < 2 ^ 32"
    and "unat (r_base_page r + r_watermark r) = unat (r_base_page r) + unat (r_watermark r)"
proof -
  note inv = region_invD [OF assms(1)]
  from assms(2) have C: "carving_of st (KLive n) = Some (carve_of r)" and wm: "wm_of st n = unat (r_watermark r)"
    by (simp_all add: wm_of_def)
  show "n \<noteq> NO_PARENT"
    using assms(2) inv(1) by auto
  have "wm_of st n \<le> cv_len (carve_of r)" "0 < cv_len (carve_of r)"
    using inv(2) C unfolding forest_def watermarks_ok_def by blast+
  then show le: "unat (r_watermark r) \<le> unat (r_pages r)" and "0 < unat (r_pages r)"
    by (simp_all add: wm carve_of_def)
  have "cv_base (carve_of r) + cv_len (carve_of r) \<le> 2 ^ 52 \<and> cv_len (carve_of r) < 2 ^ 32"
    using inv(3) C unfolding small_def by blast
  then show "unat (r_base_page r) + unat (r_pages r) \<le> 2 ^ 52" and "unat (r_pages r) < 2 ^ 32"
    by (simp_all add: carve_of_def)
  with le show "unat (r_base_page r + r_watermark r) = unat (r_base_page r) + unat (r_watermark r)"
    by (intro unat_add_small) simp
qed

lemma no_carve_of_dead:
  assumes "region_inv st" and "table_get (rt st) n = None" and "n \<noteq> NO_PARENT"
    and "carving_of st k = Some c"
  shows "par c \<noteq> n"
  using forest_parent_live [OF region_invD(2) [OF assms(1)] assms(4)] assms(2,3) by auto

text \<open>A run carved at the watermark of \<open>q\<close> as a new child.\<close>

lemma carve_child_inv:
  assumes inv: "region_inv st" and q: "table_get (rt st) q = Some r"
    and w: "split_new_watermark (r_pages r) (r_watermark r) p = Some w"
    and wf': "table_wf (rt st')" and same: "flight st' = flight st"
    and q': "table_get (rt st') q = Some (r\<lparr>r_watermark := w, r_children := r_children r + 1\<rparr>)"
    and other: "\<And>m. m \<noteq> q \<Longrightarrow> k \<noteq> KLive m \<Longrightarrow> table_get (rt st') m = table_get (rt st) m"
    and new: "\<And>m. k = KLive m \<Longrightarrow> m = n \<and> n \<noteq> NO_PARENT
      \<and> (\<exists>r'. table_get (rt st') n = Some r' \<and> r_children r' = 0 \<and> r_watermark r' = 0)"
    and C': "carving_of st' = (carving_of st)(k \<mapsto> c)" and k: "carving_of st k = None" "\<not> is_page k"
    and c: "cv_base c = unat (r_base_page r) + unat (r_watermark r)" "cv_len c = unat p" "par c = q"
  shows "region_inv st'"
proof -
  note I = region_invD [OF inv] and live = region_live [OF inv q]
  from w have w: "0 < unat p" "unat w = unat (r_watermark r) + unat p" "unat w \<le> unat (r_pages r)"
    by (auto simp: split_new_watermark_Some_iff)
  have Cq: "carving_of st (KLive q) = Some (carve_of r)" and wmq: "wm_of st q = unat (r_watermark r)"
    using q by (simp_all add: wm_of_def)
  have kq: "k \<noteq> KLive q"
    using k(1) Cq by auto
  have F: "forest (carving_of st') (wm_of st')"
    unfolding C'
  proof (rule forest_carve [OF I(2) Cq k(1), where n = n])
    show "wm_of st' m = wm_of st m" if "m \<noteq> q" "carving_of st (KLive m) \<noteq> None" for m
    proof -
      have "k \<noteq> KLive m" using that k(1) by auto
      with that other show ?thesis by (simp add: wm_of_def)
    qed
    show "wm_of st' q = wm_of st q + cv_len c"
      using q' w c by (simp add: wm_of_def q)
    show "wm_of st' n = 0" if "k = KLive n"
      using new [OF that] by (auto simp: wm_of_def)
  qed (use c w new in \<open>auto simp: wmq carve_of_def\<close>)
  moreover have S: "small (carving_of st')"
    using I(3) c w live(4,5) unfolding C' small_def by auto
  moreover have "unat (r_children s) = card (kids (carving_of st') m)"
    if s: "table_get (rt st') m = Some s" for m s
  proof -
    consider "m = q" | "k = KLive m" | "m \<noteq> q" "k \<noteq> KLive m" by blast
    then show ?thesis
    proof cases
      case 1
      have "kids (carving_of st') q = insert k (kids (carving_of st) q)"
        using k c(3) by (simp add: C' kids_insert)
      moreover have "k \<notin> kids (carving_of st) q"
        using k(1) by (auto simp: kids_def)
      ultimately have card: "card (kids (carving_of st') q) = Suc (unat (r_children r))"
        using kids_bounded(1) [OF I(2) Cq] I(4) [OF q] by simp
      have "card (kids (carving_of st') q) \<le> wm_of st' q"
        using kids_bounded(2) [OF F, of q "carve_of r"] Cq kq by (simp add: C')
      also have "\<dots> < 2 ^ 32"
        using q' w(3) live(5) by (simp add: wm_of_def)
      finally have "unat (r_children r + 1) = Suc (unat (r_children r))"
        using card by (simp add: unat_add_small)
      with 1 s q' card show ?thesis by auto
    next
      case 2
      with new k(1) have mn: "m = n" "n \<noteq> NO_PARENT" "table_get (rt st) n = None" "r_children s = 0"
        using s by auto
      with kq 2 have "n \<noteq> q" by auto
      with no_carve_of_dead [OF inv mn(3,2)] have "kids (carving_of st') n = {}"
        using c(3) k(1) by (auto simp: C' kids_insert kids_def)
      with mn show ?thesis by simp
    next
      case 3
      with other s I(4) [of m s] c(3) k(1) show ?thesis
        by (simp add: C' kids_insert)
    qed
  qed
  ultimately show ?thesis
    using wf' same I(5) by (simp add: region_inv_def)
qed

text \<open>How the table operations show in the forest.\<close>

lemma carving_insert:
  assumes "table_wf (rt st)" and "table_insert_with (rt st) f = (Some n, t')"
  shows "carving_of (st\<lparr>rt := t'\<rparr>) = (carving_of st)(KLive n \<mapsto> carve_of (f n))"
    and "wm_of (st\<lparr>rt := t'\<rparr>) = (wm_of st)(n := unat (r_watermark (f n)))"
    and "n \<noteq> NO_PARENT"
proof -
  note get = tbl.ins_get [OF assms]
  show "carving_of (st\<lparr>rt := t'\<rparr>) = (carving_of st)(KLive n \<mapsto> carve_of (f n))"
  proof
    fix k
    show "carving_of (st\<lparr>rt := t'\<rparr>) k = ((carving_of st)(KLive n \<mapsto> carve_of (f n))) k"
      by (cases k) (auto simp: get)
  qed
  show "wm_of (st\<lparr>rt := t'\<rparr>) = (wm_of st)(n := unat (r_watermark (f n)))"
    by (auto simp: wm_of_def get)
  show "n \<noteq> NO_PARENT"
    using table_get_NO_PARENT [OF tbl.ins_ok [OF assms]] get by auto
qed

lemma carving_update:
  assumes "table_wf (rt st)" and "\<And>r. carve_of (g r) = carve_of r"
  shows "carving_of (st\<lparr>rt := table_get_mut (rt st) n g\<rparr>) = carving_of st"
proof
  fix k
  show "carving_of (st\<lparr>rt := table_get_mut (rt st) n g\<rparr>) k = carving_of st k"
    using assms(2) by (cases k) (auto simp: tbl.upd_get [OF assms(1)] option.map_comp o_def)
qed

lemma wm_update:
  assumes "table_wf (rt st)" and "table_get (rt st) n = Some r"
  shows "wm_of (st\<lparr>rt := table_get_mut (rt st) n g\<rparr>) = (wm_of st)(n := unat (r_watermark (g r)))"
  using assms(2) by (auto simp: wm_of_def tbl.upd_get [OF assms(1)])

lemma create_inv:
  assumes inv: "region_inv st" and step: "insert_root (rt st) b p = (Some n, t')"
    and p: "0 < p" "unat b + unat p \<le> 2 ^ 52" "unat p < 2 ^ 32"
    and fresh: "\<forall>k c. carving_of st k = Some c \<longrightarrow> par c = NO_PARENT \<longrightarrow>
      run c \<inter> {unat b ..< unat b + unat p} = {}"
  shows "region_inv (st\<lparr>rt := t'\<rparr>)"
proof -
  note I = region_invD [OF inv]
  let ?r = "\<lparr>r_base_page = b, r_pages = p, r_watermark = 0, r_pinned = False, r_parent = NO_PARENT,
    r_children = 0\<rparr>"
  have ins: "table_insert_with (rt st) (\<lambda>_. ?r) = (Some n, t')"
    using step by (simp add: insert_root_def)
  note C = carving_insert [OF I(1) ins]
  have dead: "table_get (rt st) n = None"
    by (rule tbl.ins_fresh [OF I(1) ins])
  have pos: "0 < unat p"
    using p(1) by (simp add: word_less_nat_alt)
  have "forest ((carving_of st)(KLive n \<mapsto> carve_of ?r)) ((wm_of st)(n := 0))"
    using dead C(3) pos fresh
    by (intro forest_add_root [OF I(2)]) (auto simp: carve_of_def run_def Int_commute)
  moreover have "small (carving_of (st\<lparr>rt := t'\<rparr>))"
    using I(3) p unfolding C(1) small_def by (auto simp: carve_of_def)
  moreover have "unat (r_children s) = card (kids (carving_of (st\<lparr>rt := t'\<rparr>)) m)"
    if s: "table_get t' m = Some s" for m s
  proof -
    have m: "m \<noteq> NO_PARENT"
      using s table_get_NO_PARENT [OF tbl.ins_ok [OF I(1) ins]] by auto
    then have kids: "kids (carving_of (st\<lparr>rt := t'\<rparr>)) m = kids (carving_of st) m"
      using dead by (simp add: C(1) kids_insert carve_of_def)
    have "kids (carving_of st) n = {}"
      using no_carve_of_dead [OF inv dead C(3)] by (auto simp: kids_def)
    with s kids I(4) [of m s] show ?thesis
      by (cases "m = n") (auto simp: tbl.ins_get [OF I(1) ins])
  qed
  ultimately show ?thesis
    using tbl.ins_ok [OF I(1) ins] I(5) C by (simp add: region_inv_def)
qed

lemma region_splitE:
  assumes "table_wf t" and "region_split t q p = (res, t')"
  obtains (refused) "res = None" "t' = t"
  | (carved) r w t1 where "table_get t q = Some r"
      "split_new_watermark (r_pages r) (r_watermark r) p = Some w"
      "t1 = table_get_mut t q (\<lambda>r. r\<lparr>r_watermark := w, r_children := r_children r + 1\<rparr>)"
      "table_wf t1"
      "table_get t1 = (table_get t)(q \<mapsto> r\<lparr>r_watermark := w, r_children := r_children r + 1\<rparr>)"
      "table_insert_with t1 (\<lambda>_. \<lparr>r_base_page = r_base_page r + r_watermark r, r_pages = p,
         r_watermark = 0, r_pinned = False, r_parent = q, r_children = 0\<rparr>) = (res, t')"
proof (cases "table_get t q")
  case None
  with assms(2) refused show thesis by (simp add: region_split_def)
next
  case (Some r)
  show thesis
  proof (cases "split_new_watermark (r_pages r) (r_watermark r) p")
    case None
    with Some assms(2) refused show thesis by (simp add: region_split_def)
  next
    case w: (Some w)
    with Some assms(2) show thesis
      by (intro carved [OF Some w refl tbl.upd_ok [OF assms(1)]])
        (simp_all add: region_split_def Let_def tbl.upd_get [OF assms(1)])
  qed
qed

lemma split_inv:
  assumes inv: "region_inv st" and step: "region_split (rt st) q p = (Some n, t')"
  shows "region_inv (st\<lparr>rt := t'\<rparr>)"
  using region_invD(1) [OF inv] step
proof (cases rule: region_splitE)
  case (carved r w t1)
  let ?r = "\<lparr>r_base_page = r_base_page r + r_watermark r, r_pages = p, r_watermark = 0,
    r_pinned = False, r_parent = q, r_children = 0\<rparr>"
  note get' = tbl.ins_get [OF carved(4,6)]
  have dead: "table_get t1 n = None"
    by (rule tbl.ins_fresh [OF carved(4,6)])
  then have nq: "n \<noteq> q" "table_get (rt st) n = None"
    using carved(5) by (auto split: if_splits)
  have C1: "carving_of (st\<lparr>rt := t1\<rparr>) = carving_of st"
    unfolding carved(3) by (rule carving_update [OF region_invD(1) [OF inv]]) (simp add: carve_of_def)
  have C: "carving_of (st\<lparr>rt := t'\<rparr>) = (carving_of st)(KLive n \<mapsto> carve_of ?r)"
    using carving_insert(1) [of "st\<lparr>rt := t1\<rparr>"] carved(4,6) C1 by simp
  have "n \<noteq> NO_PARENT"
    using carving_insert(3) [of "st\<lparr>rt := t1\<rparr>"] carved(4,6) by simp
  show ?thesis
  proof (rule carve_child_inv [OF inv carved(1,2), where k = "KLive n" and n = n and c = "carve_of ?r"])
    show "table_wf (rt (st\<lparr>rt := t'\<rparr>))"
      using tbl.ins_ok [OF carved(4,6)] by simp
  qed (use nq \<open>n \<noteq> NO_PARENT\<close> C region_live(6) [OF inv carved(1)] in
      \<open>auto simp: get' carved(5) carve_of_def\<close>)
qed simp

lemma split_full_inv:
  assumes inv: "region_inv st" and step: "region_split (rt st) q p = (None, t')"
    and q: "table_get (rt st) q = Some r"
    and w: "split_new_watermark (r_pages r) (r_watermark r) p = Some w" and j: "lost st j = None"
  shows "region_inv (st\<lparr>rt := t', lost := (lost st)(j \<mapsto> \<lparr>c_base_page = r_base_page r + r_watermark r,
    c_pages = p, c_parent = q, c_is_root = False\<rparr>)\<rparr>)" (is "region_inv ?st'")
  using region_invD(1) [OF inv] step
proof (cases rule: region_splitE)
  case refused
  let ?t1 = "table_get_mut (rt st) q (\<lambda>r. r\<lparr>r_watermark := w, r_children := r_children r + 1\<rparr>)"
  have "table_insert_with ?t1 (\<lambda>_. \<lparr>r_base_page = r_base_page r + r_watermark r, r_pages = p,
         r_watermark = 0, r_pinned = False, r_parent = q, r_children = 0\<rparr>) = (None, t')"
    using step q w by (simp add: region_split_def Let_def)
  then have "t' = ?t1" by (rule tbl.ins_full)
  then have "table_get t' q = Some (r\<lparr>r_watermark := w, r_children := r_children r + 1\<rparr>)"
    using q by (simp add: tbl.upd_get [OF region_invD(1) [OF inv]])
  with refused q have "r\<lparr>r_watermark := w, r_children := r_children r + 1\<rparr> = r"
    by simp
  then have "r_watermark r = w"
    by (metis region.select_convs(3) region.surjective region.update_convs(3) region.update_convs(6))
  with w show ?thesis by (auto simp: split_new_watermark_Some_iff)
next
  case (carved r' w' t1)
  then have [simp]: "r' = r" "w' = w" using q w by auto
  have t': "t' = t1" using tbl.ins_full [OF carved(6)] .
  have "carving_of (st\<lparr>rt := t1\<rparr>) = carving_of st"
    unfolding carved(3) by (rule carving_update [OF region_invD(1) [OF inv]]) (simp add: carve_of_def)
  then have C1: "map_option carve_of (table_get t1 n) = map_option carve_of (table_get (rt st) n)" for n
    by (metis carving_of.simps(1) rstate.select_convs(1) rstate.surjective rstate.update_convs(1))
  let ?c = "\<lparr>cv_base = unat (r_base_page r) + unat (r_watermark r), cv_len = unat p, par = q\<rparr>"
  have C: "carving_of ?st' = (carving_of st)(KLost j \<mapsto> ?c)"
  proof
    fix k
    show "carving_of ?st' k = ((carving_of st)(KLost j \<mapsto> ?c)) k"
      using region_live(6) [OF inv q] by (cases k) (simp_all add: t' C1 claim_carve_def)
  qed
  show ?thesis
    by (rule carve_child_inv [OF inv q w, where k = "KLost j" and n = 0 and c = ?c])
      (use C j carved(4) in \<open>auto simp: t' carved(5)\<close>)
qed

text \<open>Retyping a page, for the two operations that do: both set the pin as they like.\<close>

lemma retype_inv:
  assumes inv: "region_inv st" and n: "table_get (rt st) n = Some r" and room: "r_watermark r < r_pages r"
    and g: "\<And>s. carve_of (g s) = carve_of s \<and> r_watermark (g s) = r_watermark s + 1
      \<and> r_children (g s) = r_children s"
    and x: "x = r_base_page r + r_watermark r"
  shows "region_inv (st\<lparr>rt := table_get_mut (rt st) n g, handed := insert (n, unat x) (handed st)\<rparr>)"
    (is "region_inv ?st'")
proof -
  note I = region_invD [OF inv] and live = region_live [OF inv n]
  let ?st1 = "st\<lparr>rt := table_get_mut (rt st) n g\<rparr>"
  let ?c = "\<lparr>cv_base = unat x, cv_len = 1, par = n\<rparr>"
  have xr: "unat x = unat (r_base_page r) + unat (r_watermark r)"
    using live(6) x by simp
  have wm1: "unat (r_watermark r + 1) = unat (r_watermark r) + 1"
    using room live(5) unat_add_small [of "r_watermark r" 1] by (simp add: word_less_nat_alt)
  have Cn: "carving_of st (KLive n) = Some (carve_of r)" and wmn: "wm_of st n = unat (r_watermark r)"
    using n by (simp_all add: wm_of_def)
  have fresh: "(n, unat x) \<notin> handed st"
  proof
    assume "(n, unat x) \<in> handed st"
    then have "carving_of st (KPage n (unat x)) = Some ?c" by simp
    then obtain d where "carving_of st (KLive n) = Some d"
        "run ?c \<subseteq> {cv_base d ..< cv_base d + wm_of st n}"
      using forest_insideD [OF I(2)] live(1) by (metis carve.select_convs(3))
    with Cn xr show False
      by (auto simp: run_def wmn carve_of_def)
  qed
  have C1: "carving_of ?st1 = carving_of st"
    using g by (intro carving_update [OF I(1)]) simp
  have C: "carving_of ?st' = (carving_of st)(KPage n (unat x) \<mapsto> ?c)"
  proof
    fix k
    show "carving_of ?st' k = ((carving_of st)(KPage n (unat x) \<mapsto> ?c)) k"
      using C1 [THEN fun_cong, of k] by (cases k) auto
  qed
  have wm': "wm_of ?st' = (wm_of st)(n := wm_of st n + 1)"
    using wm_update [OF I(1) n, of g] g [of r] wm1 by (simp add: wm_of_def n fun_eq_iff)
  have "forest (carving_of ?st') (wm_of ?st')"
    unfolding C wm'
    by (rule forest_carve [OF I(2) Cn, where n = 0])
      (use fresh xr room in \<open>auto simp: wmn carve_of_def word_less_nat_alt\<close>)
  moreover have "small (carving_of ?st')"
    using I(3) xr room live(4) unfolding C small_def by (auto simp: word_less_nat_alt)
  moreover have "kids (carving_of ?st') m = kids (carving_of st) m" for m
    using fresh by (simp add: C kids_insert)
  moreover have "unat (r_children s) = card (kids (carving_of st) m)"
    if "table_get (rt ?st') m = Some s" for m s
    using that I(4) [of m] g by (auto simp: tbl.upd_get [OF I(1)] split: if_splits)
  ultimately show ?thesis
    using tbl.upd_ok [OF I(1)] I(5) by (simp add: region_inv_def)
qed

lemma retype_pageE:
  assumes "region_retype_page t n = (Some x, t')"
  obtains r where "table_get t n = Some r" "r_watermark r < r_pages r"
    "x = r_base_page r + r_watermark r" "t' = table_get_mut t n (\<lambda>r. r\<lparr>r_watermark := r_watermark r + 1\<rparr>)"
  using assms by (auto simp: region_retype_page_def not_le split: option.splits if_splits)

lemma retype_object_pageE:
  assumes "region_retype_object_page t n = (Some x, t')"
  obtains r where "table_get t n = Some r" "r_watermark r < r_pages r"
    "x = r_base_page r + r_watermark r"
    "t' = table_get_mut t n (\<lambda>r. r\<lparr>r_pinned := True, r_watermark := r_watermark r + 1\<rparr>)"
  using assms by (auto simp: region_retype_object_page_def not_le split: option.splits if_splits)

lemma unpin_inv:
  assumes inv: "region_inv st"
  shows "region_inv (st\<lparr>rt := region_unpin (rt st) n\<rparr>)"
proof -
  note I = region_invD [OF inv]
  let ?st' = "st\<lparr>rt := region_unpin (rt st) n\<rparr>"
  have C: "carving_of ?st' = carving_of st"
    unfolding region_unpin_def by (rule carving_update [OF I(1)]) (simp add: carve_of_def)
  have wm: "wm_of ?st' = wm_of st"
    by (auto simp: wm_of_def region_unpin_def tbl.upd_get [OF I(1)] fun_eq_iff split: option.splits)
  have "unat (r_children s) = card (kids (carving_of st) m)"
    if "table_get (region_unpin (rt st) n) m = Some s" for m s
    using that I(4) [of m] by (auto simp: region_unpin_def tbl.upd_get [OF I(1)] split: if_splits)
  with I tbl.upd_ok [OF I(1)] C wm show ?thesis
    by (simp add: region_inv_def region_unpin_def)
qed

lemma claim_for_destroyE:
  assumes "table_wf t" and "claim_for_destroy t n = (Some c, t')"
  obtains r where "table_get t n = Some r" "\<not> r_pinned r" "r_children r = 0"
    "c = \<lparr>c_base_page = r_base_page r, c_pages = r_pages r, c_parent = r_parent r,
          c_is_root = (r_parent r = NO_PARENT)\<rparr>"
    "table_wf t'" "table_get t' = (table_get t)(n := None)"
proof -
  obtain v t1 where rem: "table_remove t n = (v, t1)" by (cases "table_remove t n")
  with assms that tbl.del_ok [OF assms(1) rem] tbl.del_get [OF assms(1) rem] show thesis
    by (auto simp: claim_for_destroy_def Let_def word_gt_0 split: option.splits if_splits)
qed

lemma claim_inv:
  assumes inv: "region_inv st" and step: "claim_for_destroy (rt st) n = (Some c, t')"
    and i: "flight st i = None"
  shows "region_inv (st\<lparr>rt := t', flight := (flight st)(i \<mapsto> c),
    handed := {(m, x). (m, x) \<in> handed st \<and> m \<noteq> n}\<rparr>)" (is "region_inv ?st'")
proof -
  note I = region_invD [OF inv]
  obtain r where r: "table_get (rt st) n = Some r" "r_children r = 0"
      "c = \<lparr>c_base_page = r_base_page r, c_pages = r_pages r, c_parent = r_parent r,
            c_is_root = (r_parent r = NO_PARENT)\<rparr>"
      "table_wf t'" "table_get t' = (table_get (rt st))(n := None)"
    by (rule claim_for_destroyE [OF I(1) step])
  have Cn: "carving_of st (KLive n) = Some (carve_of r)"
    using r(1) by simp
  have nokids: "kids (carving_of st) n = {}"
    using I(4) [OF r(1)] kids_bounded(1) [OF I(2) Cn] r(2) by simp
  let ?f = "\<lambda>k. if k = KFlight i then KLive n else k"
  have sub: "carving_of st (?f k) = Some d \<and> par d \<noteq> n \<and> (k = KFlight i \<or> k \<noteq> KLive n)"
    if "carving_of ?st' k = Some d" for k d
  proof -
    have live: "par e \<noteq> n" if "carving_of st j = Some e" "\<not> is_page j" for j e
    proof -
      have "j \<notin> kids (carving_of st) n" using nokids by simp
      with that show ?thesis by (simp add: kids_def)
    qed
    show ?thesis
    proof (cases k)
      case (KLive m)
      with that r(5) live [of k d] show ?thesis by (simp split: if_splits)
    next
      case (KFlight j)
      show ?thesis
      proof (cases "j = i")
        case True
        with that KFlight r(1,3) have "d = carve_of r"
          by (simp add: claim_carve_def carve_of_def)
        with True KFlight r(1) live [of "KLive n" d] show ?thesis by simp
      next
        case False
        with that KFlight live [of k d] show ?thesis by simp
      qed
    next
      case (KLost j)
      with that live [of k d] show ?thesis by simp
    next
      case (KPage m x)
      with that show ?thesis by (auto split: if_splits)
    qed
  qed
  have eq: "carving_of ?st' k = carving_of st k" if "k \<noteq> KFlight i" "k \<noteq> KLive n" "\<not> is_page k" for k
    using that r(5) by (cases k) auto
  have Ci: "carving_of ?st' (KFlight i) = Some (carve_of r)" "carving_of st (KFlight i) = None"
    "carving_of ?st' (KLive n) = None"
    using i r by (simp_all add: claim_carve_def carve_of_def)
  have "forest (carving_of ?st') (wm_of ?st')"
  proof (rule forest_rename [OF I(2), where f = ?f])
    show "inj_on ?f (dom (carving_of ?st'))"
      using Ci(3) by (auto simp: inj_on_def)
    show "carving_of ?st' (KLive (par d)) = carving_of st (KLive (par d))"
      if "carving_of ?st' k = Some d" for k d
      using sub [OF that] eq [of "KLive (par d)"] by simp
    show "wm_of ?st' m = wm_of st m" if "carving_of ?st' (KLive m) \<noteq> None" for m
      using that r(5) by (auto simp: wm_of_def split: if_splits)
  qed (use sub in auto)
  moreover have "small (carving_of ?st')"
    using I(3) sub unfolding small_def by blast
  moreover have "unat (r_children s) = card (kids (carving_of ?st') m)"
    if s: "table_get t' m = Some s" for m s
  proof -
    from s r(5) have m: "m \<noteq> n" "table_get (rt st) m = Some s" by (auto split: if_splits)
    have K: "kids (carving_of ?st') m = (if par (carve_of r) = m
        then insert (KFlight i) (kids (carving_of st) m - {KLive n}) else kids (carving_of st) m)"
    proof (rule set_eqI)
      fix k
      show "k \<in> kids (carving_of ?st') m \<longleftrightarrow> k \<in> (if par (carve_of r) = m
          then insert (KFlight i) (kids (carving_of st) m - {KLive n}) else kids (carving_of st) m)"
        using eq [of k] Ci Cn unfolding kids_def
        by (cases "k = KFlight i"; cases "k = KLive n"; cases "is_page k") auto
    qed
    have fin: "finite (kids (carving_of st) m)"
      using kids_bounded(1) [OF I(2), of m "carve_of s"] m(2) by simp
    have "KFlight i \<notin> kids (carving_of st) m"
      using Ci(2) by (simp add: kids_def)
    moreover have "KLive n \<in> kids (carving_of st) m" if "par (carve_of r) = m"
      using that r(1) by (simp add: kids_def)
    ultimately have "card (kids (carving_of ?st') m) = card (kids (carving_of st) m)"
      using fin by (auto simp: K card_gt_0_iff intro!: Suc_pred)
    with I(4) [OF m(2)] show ?thesis by simp
  qed
  ultimately show ?thesis
    using r(3,4) I(5) by (auto simp: region_inv_def)
qed

lemma free_inv:
  assumes inv: "region_inv st" and i: "flight st i = Some c" "c_is_root c"
  shows "region_inv (st\<lparr>flight := (flight st)(i := None)\<rparr>)" (is "region_inv ?st'")
proof -
  note I = region_invD [OF inv]
  have C: "carving_of ?st' = (carving_of st)(KFlight i := None)"
  proof
    show "carving_of ?st' k = ((carving_of st)(KFlight i := None)) k" for k
      by (cases k) auto
  qed
  have wm: "wm_of ?st' = wm_of st"
    by (simp add: wm_of_def fun_eq_iff)
  have "forest (carving_of ?st') (wm_of ?st')"
    unfolding C wm by (rule forest_remove [OF I(2), where n = 0]) auto
  moreover have "small (carving_of ?st')"
    using I(3) by (simp add: C small_def)
  moreover have "kids (carving_of ?st') n = kids (carving_of st) n" if "n \<noteq> NO_PARENT" for n
    using that i I(5) [OF i(1)] by (auto simp: C kids_remove) (auto simp: kids_def claim_carve_def)
  ultimately show ?thesis
    using I(1,4,5) region_live(1) [OF inv] by (auto simp: region_inv_def)
qed

lemma give_back_inv:
  assumes inv: "region_inv st" and i: "flight st i = Some c" "\<not> c_is_root c"
  shows "region_inv (st\<lparr>rt := return_to_parent (rt st) c, flight := (flight st)(i := None)\<rparr>)"
    (is "region_inv ?st'")
proof -
  note I = region_invD [OF inv]
  let ?q = "c_parent c"
  let ?c = "claim_carve c"
  have q: "?q \<noteq> NO_PARENT" and Ci: "carving_of st (KFlight i) = Some ?c"
    using I(5) [OF i(1)] i by simp_all
  then have "par ?c \<noteq> NO_PARENT" "par ?c = ?q" by (simp_all add: claim_carve_def)
  with forest_insideD [OF I(2) Ci] obtain d where
    d: "carving_of st (KLive ?q) = Some d" "run ?c \<subseteq> {cv_base d ..< cv_base d + wm_of st ?q}"
    by metis
  then obtain p where p: "table_get (rt st) ?q = Some p" and [simp]: "d = carve_of p" by auto
  note live = region_live [OF inv p]
  have small: "unat (c_base_page c) + unat (c_pages c) \<le> 2 ^ 52" and pos: "0 < unat (c_pages c)"
    using I(2,3) Ci unfolding small_def forest_def by (fastforce simp: claim_carve_def)+
  define lifo where "lifo \<longleftrightarrow> c_base_page c + c_pages c = r_base_page p + r_watermark p"
  define g where "g = (\<lambda>p :: region. p\<lparr>r_watermark := r_watermark p - (if lifo then c_pages c else 0),
      r_children := saturating_sub (r_children p) 1\<rparr>)"
  have ret: "return_to_parent (rt st) c = table_get_mut (rt st) ?q g"
    using i(2) p by (simp add: return_to_parent_def lifo_def g_def Let_def)
  have wmq: "wm_of st ?q = unat (r_watermark p)"
    by (simp add: wm_of_def p)
  have bounds: "unat (r_base_page p) \<le> unat (c_base_page c)"
      "unat (c_base_page c) + unat (c_pages c) \<le> unat (r_base_page p) + unat (r_watermark p)"
    using d(2) pos by (auto simp: run_def claim_carve_def carve_of_def wmq)
  have "unat (c_base_page c + c_pages c) = unat (c_base_page c) + unat (c_pages c)"
    using small by (intro unat_add_small) simp
  with live(6) have lifo: "lifo \<longleftrightarrow> unat (c_base_page c) + unat (c_pages c)
      = unat (r_base_page p) + unat (r_watermark p)"
    unfolding lifo_def by (metis unat_inject_iff)
  define w where "w = unat (r_watermark p) - (if lifo then unat (c_pages c) else 0)"
  have w: "unat (r_watermark (g p)) = w"
    using bounds by (simp add: g_def w_def unat_sub word_le_nat_alt)
  have C: "carving_of ?st' = (carving_of st)(KFlight i := None)"
  proof
    fix k
    have "carving_of (st\<lparr>rt := table_get_mut (rt st) ?q g\<rparr>) k = carving_of st k"
      by (subst carving_update [OF I(1)]) (simp_all add: g_def carve_of_def)
    then show "carving_of ?st' k = ((carving_of st)(KFlight i := None)) k"
      by (cases k) (auto simp: ret)
  qed
  have wm: "wm_of ?st' = (wm_of st)(?q := w)"
    using wm_update [OF I(1) p, of g] w by (simp add: ret wm_of_def fun_eq_iff)
  have F: "forest ((carving_of st)(KFlight i := None)) (wm_of st)"
    by (rule forest_remove [OF I(2), where n = 0]) auto
  have "forest (carving_of ?st') (wm_of ?st')"
    unfolding C wm
  proof (rule forest_set_watermark [OF F])
    show "((carving_of st)(KFlight i := None)) (KLive ?q) = Some (carve_of p)"
      by (simp add: p)
    show "w \<le> cv_len (carve_of p)"
      using live(2) by (simp add: w_def carve_of_def)
    fix k e
    assume e: "((carving_of st)(KFlight i := None)) k = Some e" "par e = ?q"
    then have Ce: "carving_of st k = Some e" "k \<noteq> KFlight i" by (auto split: if_splits)
    with forest_insideD [OF I(2) Ce(1)] q e(2) d(1) have
      in_q: "run e \<subseteq> {cv_base (carve_of p) ..< cv_base (carve_of p) + wm_of st ?q}"
      by (metis option.inject \<open>d = carve_of p\<close>)
    have "run e \<inter> run ?c = {}"
      using forest_disjointD [OF I(2) Ce(1) Ci] Ce(2) e(2) by (auto simp: claim_carve_def)
    moreover have "0 < cv_len e"
      using I(2) Ce(1) unfolding forest_def by blast
    ultimately show "run e \<subseteq> {cv_base (carve_of p) ..< cv_base (carve_of p) + w}"
      using in_q lifo bounds pos unfolding w_def
      by (auto simp: run_def claim_carve_def carve_of_def wmq split: if_splits)
  qed
  moreover have "small (carving_of ?st')"
    using I(3) by (simp add: C small_def)
  moreover have "unat (r_children s) = card (kids (carving_of ?st') m)"
    if s: "table_get (rt ?st') m = Some s" for m s
  proof (cases "m = ?q")
    case True
    have "KFlight i \<in> kids (carving_of st) ?q"
      using i(1) by (simp add: kids_def claim_carve_def)
    with kids_bounded(1) [OF I(2) d(1)] have "card (kids (carving_of ?st') ?q) = unat (r_children p) - 1"
      using I(4) [OF p] by (simp add: C kids_remove)
    with True s p show ?thesis
      by (simp add: ret tbl.upd_get [OF I(1)]) (auto simp: g_def unat_saturating_sub)
  next
    case False
    then have "KFlight i \<notin> kids (carving_of st) m"
      using i(1) by (simp add: kids_def claim_carve_def)
    then have "kids (carving_of ?st') m = kids (carving_of st) m"
      by (simp add: C kids_remove)
    moreover from False s have "table_get (rt st) m = Some s"
      by (simp add: ret tbl.upd_get [OF I(1)])
    ultimately show ?thesis
      using I(4) [of m s] by simp
  qed
  moreover have "table_wf (rt ?st')"
    using tbl.upd_ok [OF I(1)] by (simp add: ret)
  moreover have "\<forall>j e. flight ?st' j = Some e \<longrightarrow> c_is_root e \<longleftrightarrow> c_parent e = NO_PARENT"
    using I(5) by simp
  ultimately show ?thesis
    unfolding region_inv_def by blast
qed

lemma region_local_inv: "region_local st st' \<Longrightarrow> region_inv st \<Longrightarrow> region_inv st'"
proof (induction rule: region_local.induct)
  case (split st q p n t')
  show ?case by (rule split_inv [OF split.prems split.hyps])
next
  case (split_full st q p t' r w j)
  show ?case by (rule split_full_inv [OF split_full.prems split_full.hyps])
next
  case (retype st n x t')
  from retype.hyps obtain r where "table_get (rt st) n = Some r" "r_watermark r < r_pages r"
      "x = r_base_page r + r_watermark r"
      "t' = table_get_mut (rt st) n (\<lambda>r. r\<lparr>r_watermark := r_watermark r + 1\<rparr>)"
    by (rule retype_pageE)
  then show ?case
    using retype_inv [OF retype.prems, of n r "\<lambda>r. r\<lparr>r_watermark := r_watermark r + 1\<rparr>" x]
    by (simp add: carve_of_def)
next
  case (retype_object st n x t')
  from retype_object.hyps obtain r where "table_get (rt st) n = Some r" "r_watermark r < r_pages r"
      "x = r_base_page r + r_watermark r"
      "t' = table_get_mut (rt st) n (\<lambda>r. r\<lparr>r_pinned := True, r_watermark := r_watermark r + 1\<rparr>)"
    by (rule retype_object_pageE)
  then show ?case
    using retype_inv [OF retype_object.prems, of n r
        "\<lambda>r. r\<lparr>r_pinned := True, r_watermark := r_watermark r + 1\<rparr>" x]
    by (simp add: carve_of_def)
next
  case (unpin st n)
  then show ?case by (rule unpin_inv)
next
  case (claim st n c t' i)
  show ?case by (rule claim_inv [OF claim.prems claim.hyps])
next
  case (give_back st i c)
  show ?case by (rule give_back_inv [OF give_back.prems give_back.hyps])
qed

lemma region_step_inv: "region_step st st' \<Longrightarrow> region_inv st \<Longrightarrow> region_inv st'"
proof (induction rule: region_step.induct)
  case (create st b p n t')
  show ?case by (rule create_inv [OF create.prems create.hyps])
next
  case (free st i c)
  show ?case by (rule free_inv [OF free.prems free.hyps])
next
  case (inside st st')
  then show ?case by (rule region_local_inv)
qed

lemma region_inv_new: "0 < N \<Longrightarrow> N < 2 ^ 32 \<Longrightarrow> region_inv (rstate_new N)"
proof -
  assume N: "0 < N" "N < 2 ^ 32"
  have "carving_of (rstate_new N) k = None" for k
    by (cases k) (simp_all add: rstate_new_def region_table_new_def)
  then show ?thesis
    using table_wf_new [OF N]
    by (auto simp: region_inv_def forest_def runs_disjoint_def runs_inside_def watermarks_ok_def
        ranked_def small_def rstate_new_def region_table_new_def)
qed

lemma region_steps_inv: "region_step\<^sup>*\<^sup>* st st' \<Longrightarrow> region_inv st \<Longrightarrow> region_inv st'"
  by (induction rule: rtranclp_induct) (auto intro: region_step_inv)

section \<open>Nothing is freed or handed out twice\<close>

lemma root_above:
  assumes F: "forest C wm" and "C k = Some c" and "x \<in> run c"
  shows "\<exists>k' d. (k' = k \<or> (\<exists>n. k' = KLive n)) \<and> C k' = Some d \<and> par d = NO_PARENT \<and> x \<in> run d"
proof -
  from F obtain rank where rank: "ranked C rank" by (auto simp: forest_def)
  have live: "\<exists>m d. C (KLive m) = Some d \<and> par d = NO_PARENT \<and> x \<in> run d"
    if "C (KLive n) = Some e" "x \<in> run e" for n e
    using that
  proof (induction "rank n" arbitrary: n e rule: less_induct)
    case less
    show ?case
    proof (cases "par e = NO_PARENT")
      case True
      with less.prems show ?thesis by blast
    next
      case False
      with forest_insideD [OF F less.prems(1)] obtain g where
        "C (KLive (par e)) = Some g" "run e \<subseteq> run g" by metis
      with less.hyps [of "par e" g] less.prems rank False show ?thesis
        unfolding ranked_def by blast
    qed
  qed
  show ?thesis
  proof (cases "par c = NO_PARENT")
    case True
    with assms show ?thesis by blast
  next
    case False
    with forest_insideD [OF F assms(2)] obtain g where
      "C (KLive (par c)) = Some g" "run c \<subseteq> run g" by metis
    with live [of "par c" g] assms(3) show ?thesis by blast
  qed
qed

lemma flight_root_exclusive:
  assumes inv: "region_inv st" and i: "flight st i = Some c" "c_is_root c"
    and k: "carving_of st k = Some e" "k \<noteq> KFlight i"
  shows "run e \<inter> run (claim_carve c) = {}"
proof (rule equals0I)
  fix x
  assume x: "x \<in> run e \<inter> run (claim_carve c)"
  note F = region_invD(2) [OF inv]
  from root_above [OF F k(1)] x obtain k' d where
    d: "k' = k \<or> (\<exists>n. k' = KLive n)" "carving_of st k' = Some d" "par d = NO_PARENT" "x \<in> run d"
    by blast
  have "k' = KFlight i"
    using forest_disjointD [OF F d(2), of "KFlight i" "claim_carve c" x] d i
      region_invD(5) [OF inv i(1)] x by (simp add: claim_carve_def)
  with d(1) k(2) show False by auto
qed

definition span :: "region \<Rightarrow> nat set" where
  "span r = {unat (r_base_page r) ..< unat (r_base_page r) + unat (r_pages r)}"

definition claim_span :: "destroy_claim \<Rightarrow> nat set" where
  "claim_span c = {unat (c_base_page c) ..< unat (c_base_page c) + unat (c_pages c)}"

lemma run_span: "run (carve_of r) = span r" "run (claim_carve c) = claim_span c"
  by (simp_all add: run_def span_def claim_span_def carve_of_def claim_carve_def)

text \<open>C5. No double free of a region. Over any interleaving of creations, splits, retypes, claims,
  returns and frees, with any number of claims in flight: the run of a claimed root region, the one
  that goes back to the frame allocator, overlaps no live region, no other claimed run, no page
  retyped out of a live region and no run lost to a full table.\<close>

theorem freed_run_exclusive:
  assumes "0 < N" and "N < 2 ^ 32" and "region_step\<^sup>*\<^sup>* (rstate_new N) st"
    and "flight st i = Some c" and "c_is_root c"
  shows "(\<forall>n r. table_get (rt st) n = Some r \<longrightarrow> span r \<inter> claim_span c = {})
    \<and> (\<forall>j d. flight st j = Some d \<longrightarrow> j \<noteq> i \<longrightarrow> claim_span d \<inter> claim_span c = {})
    \<and> (\<forall>j d. lost st j = Some d \<longrightarrow> claim_span d \<inter> claim_span c = {})
    \<and> (\<forall>n x. (n, x) \<in> handed st \<longrightarrow> x \<notin> claim_span c)"
proof -
  have inv: "region_inv st"
    using region_steps_inv [OF assms(3) region_inv_new [OF assms(1,2)]] .
  note excl = flight_root_exclusive [OF inv assms(4,5)]
  have "span r \<inter> claim_span c = {}" if "table_get (rt st) n = Some r" for n r
    using excl [of "KLive n"] that by (simp add: run_span)
  moreover have "claim_span d \<inter> claim_span c = {}" if "flight st j = Some d" "j \<noteq> i" for j d
    using excl [of "KFlight j"] that by (simp add: run_span)
  moreover have "claim_span d \<inter> claim_span c = {}" if "lost st j = Some d" for j d
    using excl [of "KLost j"] that by (simp add: run_span)
  moreover have "x \<notin> claim_span c" if "(n, x) \<in> handed st" for n x
    using excl [of "KPage n x"] that by (simp add: run_span) (simp add: run_def)
  ultimately show ?thesis by blast
qed

text \<open>C4. A page is handed out once. A page retyped out of a region is, at that moment, held by nobody
  else: no live region has it handed out, and every other live region whose run contains it is an
  ancestor the region was split from.\<close>

theorem retyped_page_unshared:
  assumes "0 < N" and "N < 2 ^ 32" and "region_step\<^sup>*\<^sup>* (rstate_new N) st"
    and step: "region_retype_page (rt st) n = (Some x, t')"
  shows "(\<forall>m. (m, unat x) \<notin> handed st)
    \<and> (\<forall>m r. table_get (rt st) m = Some r \<longrightarrow> m \<noteq> n \<longrightarrow> unat x \<in> span r \<longrightarrow> above (carving_of st) m n)"
proof -
  have inv: "region_inv st"
    using region_steps_inv [OF assms(3) region_inv_new [OF assms(1,2)]] .
  note F = region_invD(2) [OF inv]
  from step obtain r where r: "table_get (rt st) n = Some r" "r_watermark r < r_pages r"
    "x = r_base_page r + r_watermark r" by (rule retype_pageE)
  have Cn: "carving_of st (KLive n) = Some (carve_of r)" and wmn: "wm_of st n = unat (r_watermark r)"
    using r(1) by (simp_all add: wm_of_def)
  have x: "unat x = unat (r_base_page r) + unat (r_watermark r)"
    using region_live(6) [OF inv r(1)] r(3) by simp
  have xin: "unat x \<in> run (carve_of r)"
    using r(2) by (simp add: run_span span_def x word_less_nat_alt)
  have above_watermark: False if e: "carving_of st k = Some e" "par e = n" "unat x \<in> run e" for k e
  proof -
    obtain d where "carving_of st (KLive n) = Some d" "run e \<subseteq> {cv_base d ..< cv_base d + wm_of st n}"
      using forest_insideD [OF F e(1)] e(2) region_live(1) [OF inv r(1)] by metis
    with Cn e(3) show False by (auto simp: x wmn carve_of_def)
  qed
  have chain: "above (carving_of st) m n"
    if m: "table_get (rt st) m = Some s" "m \<noteq> n" "unat x \<in> span s" for m s
  proof -
    have "carving_of st (KLive m) = Some (carve_of s)" "unat x \<in> run (carve_of s)"
      using m by (simp_all add: run_span)
    from forest_chain [OF F this Cn xin] m(2)
    have "above (carving_of st) m n \<or> above (carving_of st) n m" by blast
    moreover have "\<not> above (carving_of st) n m"
    proof
      assume "above (carving_of st) n m"
      with above_child [OF F _ \<open>carving_of st (KLive m) = _\<close> \<open>unat x \<in> run (carve_of s)\<close>]
      obtain k d where kd: "parent_of (carving_of st) n k" "carving_of st (KLive k) = Some d"
        "unat x \<in> run d" by blast
      then have "par d = n" by (auto simp: parent_of_def)
      with above_watermark [OF kd(2) _ kd(3)] show False .
    qed
    ultimately show ?thesis by blast
  qed
  have "(m, unat x) \<notin> handed st" for m
  proof
    assume h: "(m, unat x) \<in> handed st"
    let ?e = "\<lparr>cv_base = unat x, cv_len = 1, par = m\<rparr>"
    have Ce: "carving_of st (KPage m (unat x)) = Some ?e" and xe: "unat x \<in> run ?e"
      using h by (simp_all add: run_def)
    have mn: "m \<noteq> n" using above_watermark [OF Ce _ xe] by auto
    obtain k' d where "k' = KLive n \<or> (\<exists>n. k' = KLive n)" "carving_of st k' = Some d"
        "par d = NO_PARENT" "unat x \<in> run d"
      using root_above [OF F Cn xin] by blast
    with forest_disjointD [OF F _ Ce _ _ xe, of k' d] have "m \<noteq> NO_PARENT" by auto
    then obtain d where "carving_of st (KLive m) = Some d" "run ?e \<subseteq> run d"
      using forest_insideD [OF F Ce] by (metis carve.select_convs(3))
    with xe obtain s where s: "table_get (rt st) m = Some s" "unat x \<in> span s"
      by (auto simp: run_span)
    have "above (carving_of st) m n"
      by (rule chain [OF s(1) mn s(2)])
    then obtain k d where
      kd: "parent_of (carving_of st) m k" "carving_of st (KLive k) = Some d" "unat x \<in> run d"
      using above_child [OF F _ Cn xin] by blast
    with forest_disjointD [OF F kd(2) Ce _ kd(3) xe] show False
      by (auto simp: parent_of_def)
  qed
  with chain show ?thesis by blast
qed

text \<open>C20. The child count is exact and never wraps. In every reachable state a live region's 32-bit count
  of children is the number of live regions split from it, plus its children claimed and not yet
  returned, plus its runs lost to a full table; so a claim succeeds exactly on a live unpinned region
  with none of these.\<close>

theorem child_count_exact:
  assumes "0 < N" and "N < 2 ^ 32" and "region_step\<^sup>*\<^sup>* (rstate_new N) st"
    and "table_get (rt st) n = Some r"
  shows "unat (r_children r) = card {m. \<exists>s. table_get (rt st) m = Some s \<and> r_parent s = n}
      + card {i. \<exists>c. flight st i = Some c \<and> c_parent c = n}
      + card {j. \<exists>c. lost st j = Some c \<and> c_parent c = n}
    \<and> (fst (claim_for_destroy (rt st) n) \<noteq> None \<longleftrightarrow> \<not> r_pinned r \<and> kids (carving_of st) n = {})"
proof -
  have inv: "region_inv st"
    using region_steps_inv [OF assms(3) region_inv_new [OF assms(1,2)]] .
  let ?L = "{m. \<exists>s. table_get (rt st) m = Some s \<and> r_parent s = n}"
  let ?F = "{i. \<exists>c. flight st i = Some c \<and> c_parent c = n}"
  let ?X = "{j. \<exists>c. lost st j = Some c \<and> c_parent c = n}"
  have K: "kids (carving_of st) n = KLive ` ?L \<union> (KFlight ` ?F \<union> KLost ` ?X)"
  proof (rule set_eqI)
    fix k
    show "k \<in> kids (carving_of st) n \<longleftrightarrow> k \<in> KLive ` ?L \<union> (KFlight ` ?F \<union> KLost ` ?X)"
      by (cases k) (auto simp: kids_def carve_of_def claim_carve_def)
  qed
  have fin: "finite (kids (carving_of st) n)"
    using kids_bounded(1) [OF region_invD(2) [OF inv], of n "carve_of r"] assms(4) by simp
  have "card (KFlight ` ?F \<union> KLost ` ?X) = card (KFlight ` ?F) + card (KLost ` ?X)"
    using fin unfolding K by (intro card_Un_disjoint) auto
  moreover have "card (kids (carving_of st) n) = card (KLive ` ?L) + card (KFlight ` ?F \<union> KLost ` ?X)"
    using fin unfolding K by (intro card_Un_disjoint) auto
  ultimately have "card (kids (carving_of st) n) = card (KLive ` ?L) + (card (KFlight ` ?F) + card (KLost ` ?X))"
    by simp
  also have "\<dots> = card ?L + card ?F + card ?X"
    by (simp add: card_image inj_on_def)
  finally have count: "card (kids (carving_of st) n) = card ?L + card ?F + card ?X" .
  have children: "unat (r_children r) = card (kids (carving_of st) n)"
    by (rule region_invD(4) [OF inv assms(4)])
  have "fst (claim_for_destroy (rt st) n) \<noteq> None \<longleftrightarrow> \<not> r_pinned r \<and> r_children r = 0"
    by (simp add: claim_for_destroy_def assms(4) Let_def word_gt_0)
  also have "r_children r = 0 \<longleftrightarrow> kids (carving_of st) n = {}"
    using children fin by (simp add: unat_eq_zero [symmetric])
  finally show ?thesis
    using children count by simp
qed

text \<open>C30. Spawn then reap costs nothing. Splitting a child off a region, claiming the child and returning
  the claim leaves every name resolving to exactly what it resolved to before: the parent's watermark
  and child count are restored.\<close>

theorem split_claim_return_roundtrip:
  assumes inv: "region_inv st" and split: "region_split (rt st) q p = (Some n, t1)"
    and claim: "claim_for_destroy t1 n = (Some c, t2)"
  shows "table_get (return_to_parent t2 c) = table_get (rt st)"
  using region_invD(1) [OF inv] split
proof (cases rule: region_splitE)
  case (carved r w t0)
  have inv1: "region_inv (st\<lparr>rt := t1\<rparr>)"
    by (rule split_inv [OF inv split])
  let ?r = "\<lparr>r_base_page = r_base_page r + r_watermark r, r_pages = p, r_watermark = 0,
    r_pinned = False, r_parent = q, r_children = 0\<rparr>"
  let ?q = "r\<lparr>r_watermark := w, r_children := r_children r + 1\<rparr>"
  have wf1: "table_wf t1" and n1: "table_get t0 n = None"
    using tbl.ins_ok [OF carved(4,6)] tbl.ins_fresh [OF carved(4,6)] by simp_all
  have get1: "table_get t1 = (table_get (rt st))(q \<mapsto> ?q, n \<mapsto> ?r)"
    using tbl.ins_get [OF carved(4,6)] carved(5) by simp
  have nq: "n \<noteq> q" and dead: "table_get (rt st) n = None"
    using n1 carved(5) by (auto split: if_splits)
  have c: "c = \<lparr>c_base_page = r_base_page ?r, c_pages = p, c_parent = q, c_is_root = False\<rparr>"
      "table_wf t2" "table_get t2 = (table_get t1)(n := None)"
    using claim_for_destroyE [OF wf1 claim] get1 region_live(1) [OF inv carved(1)] by (auto split: if_splits)
  have get2: "table_get t2 = (table_get (rt st))(q \<mapsto> ?q)"
    using nq dead by (auto simp: c(3) get1 fun_eq_iff)
  have w: "w = r_watermark r + p"
    using carved(2) by (auto simp: split_new_watermark_def bind_eq_Some_conv checked_add_def split: if_splits)
  have q1: "table_get (rt (st\<lparr>rt := t1\<rparr>)) q = Some ?q"
    using get1 nq by simp
  have "KLive n \<in> kids (carving_of (st\<lparr>rt := t1\<rparr>)) q"
    by (simp add: kids_def get1 carve_of_def)
  moreover have "finite (kids (carving_of (st\<lparr>rt := t1\<rparr>)) q)"
    using kids_bounded(1) [OF region_invD(2) [OF inv1], of q "carve_of ?q"] q1 by simp
  ultimately have "unat (r_children r + 1) \<noteq> 0"
    using region_invD(4) [OF inv1 q1] by auto
  then have "saturating_sub (r_children r + 1) 1 = r_children r"
    by (simp add: saturating_sub_def word_le_nat_alt)
  with w show ?thesis
    by (simp add: return_to_parent_def c(1) get2 Let_def tbl.upd_get [OF c(2)] fun_eq_iff carved(1) add.assoc)
qed simp

section \<open>Concrete runs\<close>

text \<open>A table of two slots with one root region of eight pages at page 16.\<close>

definition example_region :: region where
  "example_region = \<lparr>r_base_page = 16, r_pages = 8, r_watermark = 0, r_pinned = False,
     r_parent = NO_PARENT, r_children = 0\<rparr>"

definition example_table :: region_table where
  "example_table = \<lparr>slots = [Some example_region, None], gens = [0, 0], live = 1\<rparr>"

definition example_state :: rstate where
  "example_state = (rstate_new 2)\<lparr>rt := example_table\<rparr>"

lemma example_insert: "insert_root (region_table_new 2) 16 8 = (Some 0, example_table)"
  by (simp add: insert_root_def region_table_new_def table_new_def numeral_2_eq_2 table_insert_with_def
      Option.is_none_def slot_name_def example_table_def example_region_def)

lemma example_reachable: "region_step\<^sup>*\<^sup>* (rstate_new 2) example_state"
proof -
  have none: "carving_of (rstate_new 2) k = None" for k
    by (cases k) (simp_all add: rstate_new_def region_table_new_def)
  have "insert_root (rt (rstate_new 2)) 16 8 = (Some 0, example_table)"
    by (simp add: rstate_new_def example_insert)
  then have "region_step (rstate_new 2) ((rstate_new 2)\<lparr>rt := example_table\<rparr>)"
    by (rule region_step.create) (simp_all add: none)
  then show ?thesis by (simp add: example_state_def)
qed

lemma example_get: "table_get example_table n = (if n = 0 then Some example_region else None)"
proof -
  have wf: "table_wf (region_table_new 2 :: region_table)"
    by (simp add: region_table_new_def table_wf_new)
  from tbl.ins_get [OF wf example_insert [unfolded insert_root_def]] show ?thesis
    by (auto simp: example_region_def region_table_new_def)
qed

text \<open>A second root region of four pages at page 32 beside it, and a child of three pages split off it.\<close>

definition example_other :: region where
  "example_other = \<lparr>r_base_page = 32, r_pages = 4, r_watermark = 0, r_pinned = False,
     r_parent = NO_PARENT, r_children = 0\<rparr>"

lemma example_rt [simp]: "rt example_state = example_table"
  by (simp add: example_state_def)

lemma example_wf_table: "table_wf example_table"
  by (simp add: example_table_def table_wf_def)

lemma example_carving: "carving_of example_state k = (if k = KLive 0 then Some (carve_of example_region) else None)"
  by (cases k) (simp_all add: example_state_def rstate_new_def example_get)

lemma example_two_regions:
  obtains t where "insert_root example_table 32 4 = (Some 1, t)"
    "table_get t = [0 \<mapsto> example_region, 1 \<mapsto> example_other]"
    "region_step\<^sup>*\<^sup>* (rstate_new 2) (example_state\<lparr>rt := t\<rparr>)"
proof -
  obtain t where ins: "insert_root example_table 32 4 = (Some 1, t)"
    by (simp add: insert_root_def example_table_def table_insert_with_def Option.is_none_def slot_name_def)
  have "table_get t = [0 \<mapsto> example_region, 1 \<mapsto> example_other]"
    using tbl.ins_get [OF example_wf_table ins [unfolded insert_root_def]]
    by (simp add: example_get example_other_def fun_eq_iff)
  moreover have "region_step example_state (example_state\<lparr>rt := t\<rparr>)"
    using ins by (intro region_step.create [of _ 32 4 1])
      (auto simp: example_carving carve_of_def run_def example_region_def split: if_splits)
  then have "region_step\<^sup>*\<^sup>* (rstate_new 2) (example_state\<lparr>rt := t\<rparr>)"
    using example_reachable by simp
  ultimately show thesis using that ins by blast
qed

lemma example_split:
  obtains t r where "region_split example_table 0 3 = (Some 1, t)"
    "table_get t 1 = Some r" "r_base_page r = 16" "r_pages r = 3" "r_watermark r = 0"
    "\<not> r_pinned r" "r_children r = 0" "r_parent r = 0"
    "\<exists>q. table_get t 0 = Some q \<and> r_base_page q = 16 \<and> r_pages q = 8"
    "region_step\<^sup>*\<^sup>* (rstate_new 2) (example_state\<lparr>rt := t\<rparr>)"
proof -
  have "split_new_watermark 8 0 3 = Some 3"
    by (simp add: split_new_watermark_Some_iff)
  then obtain t where split: "region_split example_table 0 3 = (Some 1, t)"
    by (simp add: region_split_def example_get Let_def)
      (simp add: example_region_def example_table_def table_get_mut_def slot_of_unpack slot_unpack_def
        table_insert_with_def Option.is_none_def slot_name_def)
  have "region_step example_state (example_state\<lparr>rt := t\<rparr>)"
    using region_step.inside [OF region_local.split [of example_state 0 3 1 t]] split
    by (simp add: example_state_def)
  then have run: "region_step\<^sup>*\<^sup>* (rstate_new 2) (example_state\<lparr>rt := t\<rparr>)"
    using example_reachable by simp
  from example_wf_table split show thesis
  proof (cases rule: region_splitE)
    case (carved r w t1)
    note get = tbl.ins_get [OF carved(4,6)]
    from carved(1) have "r = example_region" by (simp add: example_get)
    with that split run get carved(5) show thesis by (simp add: example_region_def)
  qed simp
qed

theorem freed_run_exclusive_witness:
  "\<exists>t c t'. table_get t = [0 \<mapsto> example_region, 1 \<mapsto> example_other]
    \<and> claim_for_destroy t 0 = (Some c, t') \<and> c_is_root c \<and> table_get t' 1 = Some example_other
    \<and> claim_span c = {16 ..< 24} \<and> span example_other \<inter> claim_span c = {}"
proof -
  let ?c = "\<lparr>c_base_page = 16, c_pages = 8, c_parent = NO_PARENT, c_is_root = True\<rparr>"
  obtain t where t: "insert_root example_table 32 4 = (Some 1, t)"
      "table_get t = [0 \<mapsto> example_region, 1 \<mapsto> example_other]"
      "region_step\<^sup>*\<^sup>* (rstate_new 2) (example_state\<lparr>rt := t\<rparr>)"
    by (rule example_two_regions)
  have wf: "table_wf t"
    using tbl.ins_ok [OF example_wf_table t(1) [unfolded insert_root_def]] .
  obtain t' where claim: "claim_for_destroy t 0 = (Some ?c, t')"
    by (simp add: claim_for_destroy_def t(2) example_region_def Let_def)
  have other: "table_get t' 1 = Some example_other"
    using claim_for_destroyE [OF wf claim] t(2) by (metis fun_upd_other fun_upd_same zero_neq_one)
  define st where "st = example_state\<lparr>rt := t', flight := (flight example_state)(0 \<mapsto> ?c), handed := {}\<rparr>"
  have "region_step (example_state\<lparr>rt := t\<rparr>) st"
    using region_step.inside [OF region_local.claim [of "example_state\<lparr>rt := t\<rparr>" 0 ?c t' 0]] claim
    by (simp add: st_def example_state_def rstate_new_def)
  with t(3) have run: "region_step\<^sup>*\<^sup>* (rstate_new 2) st" by simp
  have "flight st 0 = Some ?c" "table_get (rt st) 1 = Some example_other"
    using other by (simp_all add: st_def)
  with freed_run_exclusive [OF _ _ run, of 0 ?c] have "span example_other \<inter> claim_span ?c = {}"
    by simp
  with t(2) claim other show ?thesis by (fastforce simp: claim_span_def)
qed

theorem retyped_page_unshared_witness:
  "\<exists>t t'. region_split example_table 0 3 = (Some 1, t) \<and> region_retype_page t 1 = (Some 16, t')
    \<and> above (carving_of (example_state\<lparr>rt := t\<rparr>)) 0 1"
proof -
  obtain t r where t: "region_split example_table 0 3 = (Some 1, t)"
      "table_get t 1 = Some r" "r_base_page r = 16" "r_pages r = 3" "r_watermark r = 0"
      "\<exists>q. table_get t 0 = Some q \<and> r_base_page q = 16 \<and> r_pages q = 8"
      "region_step\<^sup>*\<^sup>* (rstate_new 2) (example_state\<lparr>rt := t\<rparr>)"
    by (rule example_split)
  then obtain t' where step: "region_retype_page (rt (example_state\<lparr>rt := t\<rparr>)) 1 = (Some 16, t')"
    by (simp add: region_retype_page_def)
  from t(6) obtain q where "table_get (rt (example_state\<lparr>rt := t\<rparr>)) 0 = Some q" "16 \<in> span q"
    by (auto simp: span_def)
  with retyped_page_unshared [OF _ _ t(7) step] have "above (carving_of (example_state\<lparr>rt := t\<rparr>)) 0 1"
    by simp
  with t(1) step show ?thesis by auto
qed

theorem child_count_exact_witness:
  "table_get (rt example_state) 0 = Some example_region
    \<and> unat (r_children example_region)
        = card {m. \<exists>s. table_get (rt example_state) m = Some s \<and> r_parent s = 0}
          + card {i. \<exists>c. flight example_state i = Some c \<and> c_parent c = 0}
          + card {j. \<exists>c. lost example_state j = Some c \<and> c_parent c = 0}
    \<and> (fst (claim_for_destroy (rt example_state) 0) \<noteq> None
        \<longleftrightarrow> \<not> r_pinned example_region \<and> kids (carving_of example_state) 0 = {})"
proof -
  have get: "table_get (rt example_state) 0 = Some example_region"
    by (simp add: example_state_def example_get)
  from child_count_exact [OF _ _ example_reachable get] get show ?thesis by simp
qed

theorem split_claim_return_roundtrip_witness:
  "\<exists>n t1 c t2. region_split example_table 0 3 = (Some n, t1) \<and> claim_for_destroy t1 n = (Some c, t2)
    \<and> table_get (return_to_parent t2 c) = table_get example_table"
proof -
  have inv: "region_inv example_state"
    by (rule region_steps_inv [OF example_reachable]) (simp add: region_inv_new)
  obtain t1 r where split: "region_split example_table 0 3 = (Some 1, t1)"
      and r: "table_get t1 1 = Some r" "\<not> r_pinned r" "r_children r = 0"
    by (rule example_split)
  from r obtain c t2 where claim: "claim_for_destroy t1 1 = (Some c, t2)"
    by (auto simp: claim_for_destroy_def Let_def)
  have "region_split (rt example_state) 0 3 = (Some 1, t1)"
    using split by (simp add: example_state_def)
  from split_claim_return_roundtrip [OF inv this claim] split claim show ?thesis
    by (auto simp: example_state_def)
qed

end
