(* ===== verification/Untyped.thy ===== *)
theory Untyped
  imports Frames Regions
begin

text \<open>
  The kernel's untyped memory, \<open>src/kernel/src/untyped.rs\<close>: the frame allocator and the region table
  together. \<open>untyped_create\<close> and \<open>untyped_destroy\<close> are the code's, with the loops that give frames
  back and the panics they could raise; \<open>kmem_step\<close> cuts them where the code releases its locks, so
  that every interleaving of cores is a run. The pages retyped for objects and page tables are zeroed
  in a memory of bytes.
\<close>

definition page_addr :: "u64 \<Rightarrow> u64" where
  "page_addr page = page * FRAME_SIZE"

text \<open>\<open>for i in 0..pages { memory::free(Frame::from_addr(base + i * FRAME_SIZE)) }\<close>\<close>

fun free_loop :: "frame_allocator \<Rightarrow> u64 \<Rightarrow> nat list \<Rightarrow> frame_allocator checked" where
  "free_loop a base [] = Ok a"
| "free_loop a base (i # is) =
     (case from_addr (base + of_nat i * FRAME_SIZE) of
        Err e \<Rightarrow> Err e
      | Ok f \<Rightarrow> (case fa_free a f of Err e \<Rightarrow> Err e | Ok a' \<Rightarrow> free_loop a' base is))"

definition untyped_create ::
  "frame_allocator \<Rightarrow> region_table \<Rightarrow> u64 \<Rightarrow> (u64 option \<times> frame_allocator \<times> region_table) checked" where
  "untyped_create a t pages =
     (case fa_alloc_contiguous a (unat pages) of
        (None, a') \<Rightarrow> Ok (None, a', t)
      | (Some f, a') \<Rightarrow>
          (case insert_root t (addr f div FRAME_SIZE) pages of
             (Some name, t') \<Rightarrow> Ok (Some name, a', t')
           | (None, t') \<Rightarrow>
               (case free_loop a' (addr f) [0 ..< unat pages] of
                  Err e \<Rightarrow> Err e
                | Ok a'' \<Rightarrow> Ok (None, a'', t'))))"

definition zero_page :: "(u64 \<Rightarrow> u8) \<Rightarrow> u64 \<Rightarrow> u64 \<Rightarrow> u8" where
  "zero_page mem phys = (\<lambda>x. if phys \<le> x \<and> unat x < unat phys + 4096 then 0 else mem x)"

definition untyped_retype_page ::
  "(u64 \<Rightarrow> u8) \<Rightarrow> region_table \<Rightarrow> u64 \<Rightarrow> u64 option \<times> (u64 \<Rightarrow> u8) \<times> region_table" where
  "untyped_retype_page mem t region =
     (case region_retype_page t region of
        (None, t') \<Rightarrow> (None, mem, t')
      | (Some page, t') \<Rightarrow> (Some (page_addr page), zero_page mem (page_addr page), t'))"

definition untyped_retype_object_page ::
  "(u64 \<Rightarrow> u8) \<Rightarrow> region_table \<Rightarrow> u64 \<Rightarrow> u64 option \<times> (u64 \<Rightarrow> u8) \<times> region_table" where
  "untyped_retype_object_page mem t region =
     (case region_retype_object_page t region of
        (None, t') \<Rightarrow> (None, mem, t')
      | (Some page, t') \<Rightarrow> (Some (page_addr page), zero_page mem (page_addr page), t'))"

definition untyped_region_bounds :: "region_table \<Rightarrow> u64 \<Rightarrow> (u64 \<times> u64) option" where
  "untyped_region_bounds t region =
     map_option (\<lambda>(base_page, pages). (page_addr base_page, page_addr pages)) (region_bounds t region)"

text \<open>\<open>destroy\<close>, whose revocation of mappings touches neither the allocator nor the table.\<close>

definition untyped_destroy ::
  "frame_allocator \<Rightarrow> region_table \<Rightarrow> u64 \<Rightarrow> (frame_allocator \<times> region_table) checked" where
  "untyped_destroy a t region =
     (case claim_for_destroy t region of
        (None, t') \<Rightarrow> Ok (a, t')
      | (Some claim, t') \<Rightarrow>
          if c_is_root claim
          then (case free_loop a (page_addr (c_base_page claim)) [0 ..< unat (c_pages claim)] of
                  Err e \<Rightarrow> Err e
                | Ok a' \<Rightarrow> Ok (a', t'))
          else Ok (a, return_to_parent t' claim))"

section \<open>The allocator and the regions together\<close>

text \<open>
  \<open>rs\<close> is the region table with its claims in flight; a run that has been allocated and is not in the
  table yet is a root claim in flight, which is the right its holder has. \<open>kernel_frames\<close> are the
  frames the rest of the kernel holds.
\<close>

record kmem =
  alloc :: frame_allocator
  rs :: rstate
  kernel_frames :: "nat set"

definition page_of :: "frame_allocator \<Rightarrow> nat \<Rightarrow> nat" where
  "page_of a i = unat (fbase a) div 4096 + i"

definition root_claim :: "frame \<Rightarrow> u64 \<Rightarrow> destroy_claim" where
  "root_claim f pages =
     \<lparr>c_base_page = addr f div FRAME_SIZE, c_pages = pages, c_parent = NO_PARENT, c_is_root = True\<rparr>"

inductive kmem_step :: "kmem \<Rightarrow> kmem \<Rightarrow> bool" where
  create_alloc: "fa_alloc_contiguous (alloc m) (unat pages) = (Some f, a') \<Longrightarrow> flight (rs m) i = None \<Longrightarrow>
    kmem_step m (m\<lparr>alloc := a', rs := (rs m)\<lparr>flight := (flight (rs m))(i \<mapsto> root_claim f pages)\<rparr>\<rparr>)"
| create_insert: "flight (rs m) i = Some c \<Longrightarrow> c_is_root c \<Longrightarrow>
    insert_root (rt (rs m)) (c_base_page c) (c_pages c) = (Some name, t') \<Longrightarrow>
    kmem_step m (m\<lparr>rs := (rs m)\<lparr>rt := t', flight := (flight (rs m))(i := None)\<rparr>\<rparr>)"
| free_run: "flight (rs m) i = Some c \<Longrightarrow> c_is_root c \<Longrightarrow>
    free_loop (alloc m) (page_addr (c_base_page c)) [0 ..< unat (c_pages c)] = Ok a' \<Longrightarrow>
    kmem_step m (m\<lparr>alloc := a', rs := (rs m)\<lparr>flight := (flight (rs m))(i := None)\<rparr>\<rparr>)"
| region: "region_local (rs m) r' \<Longrightarrow> kmem_step m (m\<lparr>rs := r'\<rparr>)"
| kernel_alloc: "fa_alloc (alloc m) = (Some f, a') \<Longrightarrow> index_of (alloc m) f = Some i \<Longrightarrow>
    kmem_step m (m\<lparr>alloc := a', kernel_frames := insert i (kernel_frames m)\<rparr>)"
| kernel_free: "index_of (alloc m) f = Some i \<Longrightarrow> i \<in> kernel_frames m \<Longrightarrow>
    fa_free (alloc m) f = Ok a' \<Longrightarrow>
    kmem_step m (m\<lparr>alloc := a', kernel_frames := kernel_frames m - {i}\<rparr>)"

definition root_pages :: "rstate \<Rightarrow> nat set" where
  "root_pages st = \<Union> {run c | k c. carving_of st k = Some c \<and> par c = NO_PARENT}"

text \<open>
  The pages of root regions and of root claims in flight are frames the allocator counts as used, and
  none of them is a frame of the rest of the kernel.
\<close>

definition kmem_inv :: "kmem \<Rightarrow> bool" where
  "kmem_inv m \<longleftrightarrow> fa_wf (alloc m) \<and> total (alloc m) < 2 ^ 32 \<and> region_inv (rs m)
     \<and> root_pages (rs m) \<subseteq> page_of (alloc m) ` (used_frames (alloc m) - kernel_frames m)
     \<and> kernel_frames m \<subseteq> used_frames (alloc m)"

definition kmem_start :: "frame_allocator \<Rightarrow> nat \<Rightarrow> kmem" where
  "kmem_start a N = \<lparr>alloc = a, rs = rstate_new N, kernel_frames = {}\<rparr>"

section \<open>Pages and frames\<close>

lemma frame_at_add:
  "addr (frame_at a s) + of_nat i * FRAME_SIZE = addr (frame_at a (s + i))"
  by (simp add: frame_at_def algebra_simps)

lemma page_of_frame:
  assumes "fa_wf a" and "s < total a"
  shows "unat (addr (frame_at a s) div FRAME_SIZE) = page_of a s"
    and "page_addr (addr (frame_at a s) div FRAME_SIZE) = addr (frame_at a s)"
proof -
  note f = frame_at_index [OF assms]
  have "unat (addr (frame_at a s)) div 4096 = page_of a s"
    using f(3) fa_wfD(4) [OF assms(1)] by (auto simp: page_of_def)
  then show "unat (addr (frame_at a s) div FRAME_SIZE) = page_of a s"
    by (simp add: unat_div FRAME_SIZE_def)
  show "page_addr (addr (frame_at a s) div FRAME_SIZE) = addr (frame_at a s)"
    unfolding page_addr_def
    by (metis f(2) add_0_right mult.commute mult_div_mod_eq)
qed

lemma page_addr_of:
  assumes "fa_wf a" and "s < total a" and "unat p = page_of a s"
  shows "page_addr p = addr (frame_at a s)"
proof -
  have "p = addr (frame_at a s) div FRAME_SIZE"
    using assms(3) page_of_frame(1) [OF assms(1,2)] by (metis unat_inject_iff)
  then show ?thesis
    using page_of_frame(2) [OF assms(1,2)] by simp
qed

lemma free_loop_ok:
  assumes "fa_wf a" and "distinct is" and "(+) s ` set is \<subseteq> used_frames a"
  shows "\<exists>a'. free_loop a (addr (frame_at a s)) is = Ok a' \<and> fa_wf a' \<and> total a' = total a
    \<and> fbase a' = fbase a \<and> used_frames a' = used_frames a - (+) s ` set is"
  using assms
proof (induction "is" arbitrary: a)
  case Nil
  then show ?case by simp
next
  case (Cons i "is")
  have i: "s + i < total a" "s + i \<in> used_frames a"
    using Cons.prems(3) by (auto simp: used_frames_def)
  note f = frame_at_index [OF Cons.prems(1) i(1)]
  obtain a1 where a1: "fa_free a (frame_at a (s + i)) = Ok a1" "fa_wf a1"
      "used_frames a1 = used_frames a - {s + i}" "total a1 = total a" "fbase a1 = fbase a"
    using fa_free_ok [OF Cons.prems(1) f(1) i(2)] by blast
  have at: "frame_at a1 s = frame_at a s"
    by (simp add: frame_at_def a1(5))
  have "(+) s ` set is \<subseteq> used_frames a1"
    using Cons.prems(2,3) a1(3) by auto
  from Cons.IH [OF a1(2) _ this] Cons.prems(2) obtain a2 where
    a2: "free_loop a1 (addr (frame_at a s)) is = Ok a2" "fa_wf a2" "total a2 = total a1"
      "fbase a2 = fbase a1" "used_frames a2 = used_frames a1 - (+) s ` set is"
    by (auto simp: at)
  have "from_addr (addr (frame_at a s) + of_nat i * FRAME_SIZE) = Ok (frame_at a (s + i))"
    using f(2) by (simp add: frame_at_add from_addr_def)
  with a1 a2 show ?case by auto
qed

section \<open>The root runs\<close>

lemma region_local_roots:
  assumes "region_local st st'" and "region_inv st"
    and "carving_of st' k = Some c" and "par c = NO_PARENT"
  shows "\<exists>k'. carving_of st k' = Some c"
  using assms
proof (induction rule: region_local.induct)
  case (split st q p n t')
  note wf = region_invD(1) [OF split.prems(1)]
  from wf split.hyps show ?case
  proof (cases rule: region_splitE)
    case (carved r w t1)
    have "q \<noteq> NO_PARENT" using carved(1) wf by auto
    with split.prems carved tbl.ins_get [OF carved(4,6)] show ?thesis
      by (cases k) (auto simp: carve_of_def intro!: exI [of _ k] split: if_splits)
  qed simp
next
  case (split_full st q p t' r w j)
  note wf = region_invD(1) [OF split_full.prems(1)]
  from wf split_full.hyps(1) show ?case
  proof (cases rule: region_splitE)
    case (carved r' w' t1)
    have "q \<noteq> NO_PARENT" using carved(1) wf by auto
    with split_full.prems carved(1,5) tbl.ins_full [OF carved(6)] show ?thesis
      by (cases k) (auto simp: carve_of_def claim_carve_def intro!: exI [of _ k] split: if_splits)
  next
    case refused
    have "q \<noteq> NO_PARENT" using split_full.hyps(2) wf by auto
    with split_full.prems refused show ?thesis
      by (cases k) (auto simp: claim_carve_def intro!: exI [of _ k] split: if_splits)
  qed
next
  case (retype st n x t')
  note wf = region_invD(1) [OF retype.prems(1)]
  from retype.hyps obtain r where r: "table_get (rt st) n = Some r"
      "t' = table_get_mut (rt st) n (\<lambda>r. r\<lparr>r_watermark := r_watermark r + 1\<rparr>)"
    by (rule retype_pageE)
  have "n \<noteq> NO_PARENT" using r(1) wf by auto
  with retype.prems r show ?case
    by (cases k) (auto simp: carve_of_def tbl.upd_get [OF wf] intro!: exI [of _ k] split: if_splits)
next
  case (retype_object st n x t')
  note wf = region_invD(1) [OF retype_object.prems(1)]
  from retype_object.hyps obtain r where r: "table_get (rt st) n = Some r"
      "t' = table_get_mut (rt st) n (\<lambda>r. r\<lparr>r_pinned := True, r_watermark := r_watermark r + 1\<rparr>)"
    by (rule retype_object_pageE)
  have "n \<noteq> NO_PARENT" using r(1) wf by auto
  with retype_object.prems r show ?case
    by (cases k) (auto simp: carve_of_def tbl.upd_get [OF wf] intro!: exI [of _ k] split: if_splits)
next
  case (unpin st n)
  note wf = region_invD(1) [OF unpin.prems(1)]
  from unpin.prems show ?case
    by (cases k) (auto simp: carve_of_def region_unpin_def tbl.upd_get [OF wf] intro!: exI [of _ k]
        split: if_splits)
next
  case (claim st n d t' i)
  note wf = region_invD(1) [OF claim.prems(1)]
  obtain r where r: "table_get (rt st) n = Some r" "table_get t' = (table_get (rt st))(n := None)"
      "d = \<lparr>c_base_page = r_base_page r, c_pages = r_pages r, c_parent = r_parent r,
            c_is_root = (r_parent r = NO_PARENT)\<rparr>"
    by (rule claim_for_destroyE [OF wf claim.hyps(1)])
  show ?case
  proof (cases "k = KFlight i")
    case True
    with claim.prems r show ?thesis
      by (intro exI [of _ "KLive n"]) (simp add: carve_of_def claim_carve_def)
  next
    case False
    with claim.prems r show ?thesis
      by (cases k) (auto intro!: exI [of _ k] split: if_splits)
  qed
next
  case (give_back st i d)
  note wf = region_invD(1) [OF give_back.prems(1)]
  from give_back.prems show ?case
    by (cases k) (auto simp: carve_of_def return_to_parent_def Let_def tbl.upd_get [OF wf]
        intro!: exI [of _ k] split: if_splits option.splits destroy_verdict.splits)
qed

lemma forest_add_flight:
  assumes F: "forest C wm" and new: "C (KFlight i) = None" and len: "0 < cv_len c"
    and root: "par c = NO_PARENT"
    and fresh: "\<And>k d. C k = Some d \<Longrightarrow> par d = NO_PARENT \<Longrightarrow> run c \<inter> run d = {}"
  shows "forest (C(KFlight i \<mapsto> c)) wm"
proof -
  have "runs_disjoint (C(KFlight i \<mapsto> c))"
    using F fresh root unfolding forest_def runs_disjoint_def by (auto simp: Int_commute)
  moreover have "runs_inside (C(KFlight i \<mapsto> c)) wm"
    using F root unfolding forest_def runs_inside_def by simp
  moreover have "ranked (C(KFlight i \<mapsto> c)) = ranked C"
    by (simp add: ranked_def fun_eq_iff)
  ultimately show ?thesis
    using F len unfolding forest_def by (simp add: watermarks_ok_def)
qed

lemma root_pages_iff:
  "x \<in> root_pages st \<longleftrightarrow> (\<exists>k c. carving_of st k = Some c \<and> par c = NO_PARENT \<and> x \<in> run c)"
  by (auto simp: root_pages_def)

lemma region_inv_add_flight:
  assumes inv: "region_inv st" and i: "flight st i = None"
    and c: "c_is_root c" "c_parent c = NO_PARENT" "0 < unat (c_pages c)" "unat (c_pages c) < 2 ^ 32"
      "unat (c_base_page c) + unat (c_pages c) \<le> 2 ^ 52"
    and fresh: "claim_span c \<inter> root_pages st = {}"
  shows "region_inv (st\<lparr>flight := (flight st)(i \<mapsto> c)\<rparr>)" (is "region_inv ?st'")
    and "root_pages (st\<lparr>flight := (flight st)(i \<mapsto> c)\<rparr>) = root_pages st \<union> claim_span c"
proof -
  note I = region_invD [OF inv]
  have C: "carving_of ?st' = (carving_of st)(KFlight i \<mapsto> claim_carve c)"
  proof
    show "carving_of ?st' k = ((carving_of st)(KFlight i \<mapsto> claim_carve c)) k" for k
      by (cases k) auto
  qed
  have wm: "wm_of ?st' = wm_of st"
    by (simp add: wm_of_def fun_eq_iff)
  have root: "par (claim_carve c) = NO_PARENT"
    using c(2) by (simp add: claim_carve_def)
  have "forest (carving_of ?st') (wm_of ?st')"
    unfolding C wm
  proof (rule forest_add_flight [OF I(2)])
    show "run (claim_carve c) \<inter> run d = {}" if "carving_of st k = Some d" "par d = NO_PARENT" for k d
      using fresh that unfolding root_pages_def run_span by blast
  qed (use i c in \<open>auto simp: claim_carve_def\<close>)
  moreover have "small (carving_of ?st')"
    using I(3) c by (simp add: C small_def claim_carve_def)
  moreover have "kids (carving_of ?st') n = kids (carving_of st) n" if "n \<noteq> NO_PARENT" for n
    using i root that by (simp add: C kids_insert)
  ultimately show "region_inv ?st'"
    using I(1,4,5) c region_live(1) [OF inv] by (auto simp: region_inv_def)
  show "root_pages ?st' = root_pages st \<union> claim_span c"
  proof (rule set_eqI)
    fix x
    have "x \<in> root_pages ?st' \<longleftrightarrow>
        x \<in> run (claim_carve c) \<or> (\<exists>k d. k \<noteq> KFlight i \<and> carving_of st k = Some d \<and> par d = NO_PARENT \<and> x \<in> run d)"
      unfolding root_pages_iff C using root by (metis (full_types) fun_upd_other fun_upd_same option.inject)
    also have "(\<exists>k d. k \<noteq> KFlight i \<and> carving_of st k = Some d \<and> par d = NO_PARENT \<and> x \<in> run d)
        \<longleftrightarrow> x \<in> root_pages st"
    proof -
      have "carving_of st (KFlight i) = None" using i by simp
      then show ?thesis unfolding root_pages_iff by (metis option.distinct(1))
    qed
    finally show "x \<in> root_pages ?st' \<longleftrightarrow> x \<in> root_pages st \<union> claim_span c"
      unfolding run_span Un_iff by (simp only: disj_commute)
  qed
qed

lemma root_pages_drop_flight:
  assumes inv: "region_inv st" and i: "flight st i = Some c" "c_is_root c"
  shows "root_pages (st\<lparr>flight := (flight st)(i := None)\<rparr>) = root_pages st - claim_span c"
proof -
  let ?st' = "st\<lparr>flight := (flight st)(i := None)\<rparr>"
  have C: "carving_of ?st' k = (if k = KFlight i then None else carving_of st k)" for k
    by (cases k) auto
  have Ci: "carving_of st (KFlight i) = Some (claim_carve c)" "par (claim_carve c) = NO_PARENT"
    using i region_invD(5) [OF inv i(1)] by (simp_all add: claim_carve_def)
  have excl: "run d \<inter> run (claim_carve c) = {}" if "carving_of st k = Some d" "k \<noteq> KFlight i" for k d
    by (rule flight_root_exclusive [OF inv i that])
  show ?thesis
  proof (rule set_eqI)
    fix x
    have "x \<in> root_pages ?st' \<longleftrightarrow>
        (\<exists>k d. k \<noteq> KFlight i \<and> carving_of st k = Some d \<and> par d = NO_PARENT \<and> x \<in> run d)"
      unfolding root_pages_iff C by auto
    also have "\<dots> \<longleftrightarrow> x \<in> root_pages st \<and> x \<notin> run (claim_carve c)"
      unfolding root_pages_iff using excl Ci by (metis disjoint_iff option.inject)
    finally show "x \<in> root_pages ?st' \<longleftrightarrow> x \<in> root_pages st - claim_span c"
      by (simp add: run_span)
  qed
qed

section \<open>Every step keeps the invariant\<close>

lemma kmem_invD:
  assumes "kmem_inv m"
  shows "fa_wf (alloc m)" and "total (alloc m) < 2 ^ 32" and "region_inv (rs m)"
    and "root_pages (rs m) \<subseteq> page_of (alloc m) ` (used_frames (alloc m) - kernel_frames m)"
    and "kernel_frames m \<subseteq> used_frames (alloc m)"
  using assms by (auto simp: kmem_inv_def)

lemma page_of_inject [simp]: "page_of a i = page_of a j \<longleftrightarrow> i = j"
  by (simp add: page_of_def)

lemma page_of_cong: "fbase a' = fbase a \<Longrightarrow> page_of a' = page_of a"
  by (simp add: page_of_def fun_eq_iff)

lemma page_of_image: "page_of a ` {s ..< s + n} = {page_of a s ..< page_of a s + n}"
proof -
  have "page_of a = (+) (unat (fbase a) div 4096)"
    by (simp add: page_of_def fun_eq_iff)
  then show ?thesis by (simp add: ac_simps)
qed

lemma page_of_bound:
  assumes "fa_wf a" and "s + n \<le> total a"
  shows "page_of a s + n \<le> 2 ^ 52"
proof -
  have "unat (fbase a) = 4096 * (unat (fbase a) div 4096)"
    using fa_wfD(4) [OF assms(1)] by (metis add_0_right mult_div_mod_eq)
  with fa_wfD(5) [OF assms(1)] assms(2) show ?thesis
    by (simp add: page_of_def)
qed

lemma create_alloc_inv:
  assumes inv: "kmem_inv m" and al: "fa_alloc_contiguous (alloc m) (unat pages) = (Some f, a')"
    and i: "flight (rs m) i = None"
  shows "kmem_inv (m\<lparr>alloc := a', rs := (rs m)\<lparr>flight := (flight (rs m))(i \<mapsto> root_claim f pages)\<rparr>\<rparr>)"
proof -
  note I = kmem_invD [OF inv]
  let ?n = "unat pages" and ?c = "root_claim f pages" and ?a = "alloc m"
  obtain s where s: "0 < ?n" "free_run ?a s ?n" "f = frame_at ?a s" "fa_wf a'"
      "used_frames a' = used_frames ?a \<union> {s ..< s + ?n}" "total a' = total ?a" "fbase a' = fbase ?a"
    using fa_alloc_contiguous_cases [OF I(1), of ?n] al by (metis Pair_inject option.distinct(1) option.inject)
  have sn: "s + ?n \<le> total ?a" "s < total ?a"
    using s(1,2) by (auto simp: free_run_def)
  have base: "unat (c_base_page ?c) = page_of ?a s"
    using page_of_frame(1) [OF I(1) sn(2)] s(3) by (simp add: root_claim_def)
  have span: "claim_span ?c = page_of ?a ` {s ..< s + ?n}"
    unfolding claim_span_def base page_of_image by (simp add: root_claim_def)
  have unused: "{s ..< s + ?n} \<inter> used_frames ?a = {}"
    using s(2) by (auto simp: free_run_def used_frames_def)
  have fresh: "claim_span ?c \<inter> root_pages (rs m) = {}"
    using I(4) unused unfolding span by fastforce
  have bounds: "c_is_root ?c" "c_parent ?c = NO_PARENT" "0 < unat (c_pages ?c)" "unat (c_pages ?c) < 2 ^ 32"
      "unat (c_base_page ?c) + unat (c_pages ?c) \<le> 2 ^ 52"
    using s(1) sn(1) I(2) page_of_bound [OF I(1) sn(1)] unfolding base by (simp_all add: root_claim_def)
  note add = region_inv_add_flight [OF I(3) i bounds fresh]
  have "root_pages (rs m) \<union> claim_span ?c
      \<subseteq> page_of ?a ` (used_frames ?a \<union> {s ..< s + ?n} - kernel_frames m)"
    unfolding span using I(4,5) unused by fastforce
  then show ?thesis
    using add s I(2,5) by (auto simp: kmem_inv_def page_of_cong [OF s(7)])
qed

lemma create_insert_inv:
  assumes inv: "kmem_inv m" and i: "flight (rs m) i = Some c" "c_is_root c"
    and ins: "insert_root (rt (rs m)) (c_base_page c) (c_pages c) = (Some name, t')"
  shows "kmem_inv (m\<lparr>rs := (rs m)\<lparr>rt := t', flight := (flight (rs m))(i := None)\<rparr>\<rparr>)"
proof -
  note I = kmem_invD [OF inv]
  let ?dropped = "(rs m)\<lparr>flight := (flight (rs m))(i := None)\<rparr>"
  let ?st = "(rs m)\<lparr>rt := t', flight := (flight (rs m))(i := None)\<rparr>"
  have inv0: "region_inv ?dropped"
    by (rule free_inv [OF I(3) i])
  have Ci: "carving_of (rs m) (KFlight i) = Some (claim_carve c)" by (simp add: i)
  have pos: "0 < unat (c_pages c)" and b: "unat (c_base_page c) + unat (c_pages c) \<le> 2 ^ 52"
      "unat (c_pages c) < 2 ^ 32"
    using region_invD(2,3) [OF I(3)] Ci unfolding forest_def small_def
    by (fastforce simp: claim_carve_def)+
  have step: "region_step ?dropped (?dropped\<lparr>rt := t'\<rparr>)"
  proof (rule region_step.create)
    show "insert_root (rt ?dropped) (c_base_page c) (c_pages c) = (Some name, t')"
      using ins by simp
    show "0 < c_pages c" using pos by (simp add: word_less_nat_alt)
    show "\<forall>k d. carving_of ?dropped k = Some d \<longrightarrow> par d = NO_PARENT \<longrightarrow>
        run d \<inter> {unat (c_base_page c) ..< unat (c_base_page c) + unat (c_pages c)} = {}"
    proof (intro allI impI)
      fix k d
      assume d: "carving_of ?dropped k = Some d" "par d = NO_PARENT"
      then have "run d \<subseteq> root_pages ?dropped" unfolding root_pages_def by blast
      then show "run d \<inter> {unat (c_base_page c) ..< unat (c_base_page c) + unat (c_pages c)} = {}"
        unfolding root_pages_drop_flight [OF I(3) i] claim_span_def by blast
    qed
  qed (use b in auto)
  have inv': "region_inv ?st"
    using region_step_inv [OF step inv0] by (cases "rs m") simp
  have "root_pages ?st \<subseteq> root_pages (rs m)"
  proof
    fix x
    assume "x \<in> root_pages ?st"
    then obtain k d where d: "carving_of ?st k = Some d" "par d = NO_PARENT" "x \<in> run d"
      by (auto simp: root_pages_iff)
    have get: "table_get t' = (table_get (rt (rs m)))(name \<mapsto> \<lparr>r_base_page = c_base_page c,
        r_pages = c_pages c, r_watermark = 0, r_pinned = False, r_parent = NO_PARENT, r_children = 0\<rparr>)"
      using tbl.ins_get [OF region_invD(1) [OF I(3)] ins [unfolded insert_root_def]] .
    have "(\<exists>k'. carving_of (rs m) k' = Some d) \<or> run d = run (claim_carve c)"
      using d(1) by (cases k) (auto simp: get run_def carve_of_def claim_carve_def
          intro!: exI [of _ k] split: if_splits)
    moreover have "x \<in> root_pages (rs m)" if "run d = run (claim_carve c)"
      using that d(3) Ci region_invD(5) [OF I(3) i(1)] i(2) unfolding root_pages_iff
      by (intro exI [of _ "KFlight i"] exI [of _ "claim_carve c"]) (simp add: claim_carve_def)
    ultimately show "x \<in> root_pages (rs m)"
      using d(2,3) by (auto simp: root_pages_iff)
  qed
  with I inv' show ?thesis by (auto simp: kmem_inv_def)
qed

lemma flight_root_frames:
  assumes inv: "kmem_inv m" and i: "flight (rs m) i = Some c" "c_is_root c"
  obtains s where "s + unat (c_pages c) \<le> total (alloc m)"
    "page_addr (c_base_page c) = addr (frame_at (alloc m) s)"
    "{s ..< s + unat (c_pages c)} \<subseteq> used_frames (alloc m) - kernel_frames m"
    "claim_span c = page_of (alloc m) ` {s ..< s + unat (c_pages c)}"
proof -
  note I = kmem_invD [OF inv]
  have Ci: "carving_of (rs m) (KFlight i) = Some (claim_carve c)" by (simp add: i)
  have pos: "0 < unat (c_pages c)"
    using region_invD(2) [OF I(3)] Ci unfolding forest_def by (fastforce simp: claim_carve_def)
  have "par (claim_carve c) = NO_PARENT"
    using region_invD(5) [OF I(3) i(1)] i(2) by (simp add: claim_carve_def)
  then have "claim_span c \<subseteq> root_pages (rs m)"
    using Ci unfolding root_pages_def run_span(2) [symmetric] by blast
  with I(4) have sub: "claim_span c \<subseteq> page_of (alloc m) ` (used_frames (alloc m) - kernel_frames m)"
    by blast
  moreover have "unat (c_base_page c) \<in> claim_span c"
    using pos by (simp add: claim_span_def)
  ultimately obtain s where s: "s \<in> used_frames (alloc m)" "unat (c_base_page c) = page_of (alloc m) s"
    by blast
  have span: "claim_span c = page_of (alloc m) ` {s ..< s + unat (c_pages c)}"
    unfolding page_of_image claim_span_def s(2) ..
  have frames: "{s ..< s + unat (c_pages c)} \<subseteq> used_frames (alloc m) - kernel_frames m"
  proof
    fix j
    assume "j \<in> {s ..< s + unat (c_pages c)}"
    then have "page_of (alloc m) j \<in> claim_span c" unfolding span by blast
    with sub show "j \<in> used_frames (alloc m) - kernel_frames m" by auto
  qed
  moreover have "s + unat (c_pages c) - 1 \<in> {s ..< s + unat (c_pages c)}"
    using pos by simp
  ultimately have "s + unat (c_pages c) - 1 \<in> used_frames (alloc m)" by blast
  then have "s + unat (c_pages c) \<le> total (alloc m)"
    by (auto simp: used_frames_def)
  moreover have "page_addr (c_base_page c) = addr (frame_at (alloc m) s)"
    using page_addr_of [OF I(1) _ s(2)] s(1) by (simp add: used_frames_def)
  ultimately show thesis
    using that frames span by blast
qed

lemma free_run_ok:
  assumes inv: "kmem_inv m" and i: "flight (rs m) i = Some c" "c_is_root c"
  shows "\<exists>a'. free_loop (alloc m) (page_addr (c_base_page c)) [0 ..< unat (c_pages c)] = Ok a'
    \<and> kmem_inv (m\<lparr>alloc := a', rs := (rs m)\<lparr>flight := (flight (rs m))(i := None)\<rparr>\<rparr>)"
proof -
  note I = kmem_invD [OF inv]
  let ?a = "alloc m" and ?n = "unat (c_pages c)"
  obtain s where s: "page_addr (c_base_page c) = addr (frame_at ?a s)"
      "{s ..< s + ?n} \<subseteq> used_frames ?a - kernel_frames m" "claim_span c = page_of ?a ` {s ..< s + ?n}"
    by (rule flight_root_frames [OF inv i])
  have idx: "(+) s ` set [0 ..< ?n] = {s ..< s + ?n}"
    by (simp add: add.commute)
  then obtain a' where a': "free_loop ?a (addr (frame_at ?a s)) [0 ..< ?n] = Ok a'" "fa_wf a'"
      "total a' = total ?a" "fbase a' = fbase ?a" "used_frames a' = used_frames ?a - {s ..< s + ?n}"
    using free_loop_ok [OF I(1), of "[0 ..< ?n]" s] s(2) by auto
  have "root_pages (rs m) - claim_span c
      \<subseteq> page_of ?a ` (used_frames ?a - {s ..< s + ?n} - kernel_frames m)"
    using I(4) unfolding s(3) by fastforce
  then have "kmem_inv (m\<lparr>alloc := a', rs := (rs m)\<lparr>flight := (flight (rs m))(i := None)\<rparr>\<rparr>)"
    using I a' s(2) free_inv [OF I(3) i]
    by (auto simp: kmem_inv_def page_of_cong [OF a'(4)] root_pages_drop_flight [OF I(3) i])
  with a'(1) s(1) show ?thesis by auto
qed

lemma kmem_step_inv: "kmem_step m m' \<Longrightarrow> kmem_inv m \<Longrightarrow> kmem_inv m'"
proof (induction rule: kmem_step.induct)
  case (create_alloc m pages f a' i)
  show ?case by (rule create_alloc_inv [OF create_alloc.prems create_alloc.hyps])
next
  case (create_insert m i c name t')
  show ?case by (rule create_insert_inv [OF create_insert.prems create_insert.hyps])
next
  case (free_run m i c a')
  from free_run_ok [OF free_run.prems free_run.hyps(1,2)] free_run.hyps(3) show ?case by auto
next
  case (region m r')
  note I = kmem_invD [OF region.prems]
  have "root_pages r' \<subseteq> root_pages (rs m)"
  proof
    fix x
    assume "x \<in> root_pages r'"
    then obtain k c where c: "carving_of r' k = Some c" "par c = NO_PARENT" "x \<in> run c"
      unfolding root_pages_iff by blast
    from region_local_roots [OF region.hyps I(3) c(1,2)] c(2,3) show "x \<in> root_pages (rs m)"
      unfolding root_pages_iff by blast
  qed
  with I region_local_inv [OF region.hyps I(3)] show ?case by (auto simp: kmem_inv_def)
next
  case (kernel_alloc m f a' i)
  note I = kmem_invD [OF kernel_alloc.prems]
  obtain j where j: "j < total (alloc m)" "j \<notin> used_frames (alloc m)" "f = frame_at (alloc m) j" "fa_wf a'"
      "used_frames a' = insert j (used_frames (alloc m))" "total a' = total (alloc m)"
      "fbase a' = fbase (alloc m)"
    by (rule fa_alloc_frame [OF I(1) kernel_alloc.hyps(1)])
  have "i = j"
    using kernel_alloc.hyps(2) frame_at_index(1) [OF I(1) j(1)] j(3) by simp
  moreover have "root_pages (rs m) \<subseteq> page_of (alloc m) ` (insert j (used_frames (alloc m)) - insert j (kernel_frames m))"
    using I(4) j(2) by fastforce
  ultimately show ?case
    using I j by (auto simp: kmem_inv_def page_of_cong [OF j(7)])
next
  case (kernel_free m f i a')
  note I = kmem_invD [OF kernel_free.prems]
  have "i \<in> used_frames (alloc m)" using kernel_free.hyps(2) I(5) by blast
  then obtain a1 where a1: "fa_free (alloc m) f = Ok a1" "fa_wf a1"
      "used_frames a1 = used_frames (alloc m) - {i}" "total a1 = total (alloc m)"
      "fbase a1 = fbase (alloc m)"
    by (rule fa_free_ok [OF I(1) kernel_free.hyps(1)])
  have "root_pages (rs m) \<subseteq> page_of (alloc m) ` (used_frames (alloc m) - {i} - (kernel_frames m - {i}))"
    using I(4) kernel_free.hyps(2) by fastforce
  with a1 I kernel_free.hyps(3) show ?case
    by (auto simp: kmem_inv_def page_of_cong [OF a1(5)])
qed

section \<open>No double free, end to end\<close>

lemma kmem_inv_start:
  assumes "fa_wf a" and "total a < 2 ^ 32" and "0 < N" and "N < 2 ^ 32"
  shows "kmem_inv (kmem_start a N)"
proof -
  have "carving_of (rstate_new N) k = None" for k
    by (cases k) (simp_all add: rstate_new_def region_table_new_def)
  then have "root_pages (rstate_new N) = {}"
    by (simp add: root_pages_def)
  with assms region_inv_new [OF assms(3,4)] show ?thesis
    by (simp add: kmem_inv_def kmem_start_def)
qed

lemma kmem_steps_inv: "kmem_step\<^sup>*\<^sup>* m m' \<Longrightarrow> kmem_inv m \<Longrightarrow> kmem_inv m'"
  by (induction rule: rtranclp_induct) (auto intro: kmem_step_inv)


text \<open>C28. Create then destroy gives everything back. A region that was created and has neither children
  nor pinned objects is destroyed without a panic, after which the allocator has the same used frames
  as before the creation and every region name resolves as before it.\<close>

theorem create_destroy_roundtrip:
  assumes wf: "fa_wf a" "table_wf t" and create: "untyped_create a t pages = Ok (Some name, a1, t1)"
  shows "\<exists>a2 t2. untyped_destroy a1 t1 name = Ok (a2, t2) \<and> fa_wf a2
    \<and> used_frames a2 = used_frames a \<and> table_get t2 = table_get t"
proof -
  let ?n = "unat pages"
  from wf(1) show ?thesis
  proof (cases rule: fa_alloc_contiguous_cases [of a ?n])
    case none
    with create show ?thesis by (simp add: untyped_create_def)
  next
    case (run s a')
    let ?f = "frame_at a s"
    have s: "s < total a" "s + ?n \<le> total a" "{s ..< s + ?n} \<inter> used_frames a = {}"
      using run(1,2) by (auto simp: free_run_def used_frames_def)
    have at: "frame_at a' s = ?f"
      by (simp add: frame_at_def run(8))
    let ?r = "\<lparr>r_base_page = addr ?f div FRAME_SIZE, r_pages = pages, r_watermark = 0,
      r_pinned = False, r_parent = NO_PARENT, r_children = 0\<rparr>"
    have ins: "table_insert_with t (\<lambda>_. ?r) = (Some name, t1)" and a1: "a1 = a'"
      using create run(4)
      by (auto simp: untyped_create_def insert_root_def split: prod.splits option.splits sum.splits)
    obtain c t2 where claim: "claim_for_destroy t1 name = (Some c, t2)"
      by (simp add: claim_for_destroy_def tbl.ins_get [OF wf(2) ins] Let_def)
    have c: "c = \<lparr>c_base_page = addr ?f div FRAME_SIZE, c_pages = pages, c_parent = NO_PARENT, c_is_root = True\<rparr>"
        "table_get t2 = (table_get t1)(name := None)"
      using claim_for_destroyE [OF tbl.ins_ok [OF wf(2) ins] claim]
      by (auto simp: tbl.ins_get [OF wf(2) ins])
    have "(+) s ` set [0 ..< ?n] \<subseteq> used_frames a'"
      using run(6) by auto
    from free_loop_ok [OF run(5) _ this] obtain a2 where a2:
      "free_loop a' (addr ?f) [0 ..< ?n] = Ok a2" "fa_wf a2"
      "used_frames a2 = used_frames a' - (+) s ` set [0 ..< ?n]"
      by (auto simp: at)
    have "untyped_destroy a1 t1 name = Ok (a2, t2)"
      using claim c(1) a2(1) page_of_frame(2) [OF wf(1) s(1)] by (simp add: untyped_destroy_def a1)
    moreover have "(+) s ` set [0 ..< ?n] = {s ..< s + ?n}"
      by (simp add: add.commute)
    moreover have "table_get t2 = table_get t"
      using tbl.ins_fresh [OF wf(2) ins] by (auto simp: c(2) tbl.ins_get [OF wf(2) ins] fun_eq_iff)
    ultimately show ?thesis
      using a2 run(6) s(3) by auto
  qed
qed

lemma example_alloc:
  obtains f a' where "fa_alloc_contiguous example_allocator (unat (2 :: u64)) = (Some f, a')"
  using example_wf
proof (cases rule: fa_alloc_contiguous_cases [of example_allocator 2])
  case none
  with example_free show thesis by simp
next
  case (run s a')
  with that show thesis by simp
qed


theorem create_destroy_roundtrip_witness:
  "\<exists>name a1 t1 a2 t2. untyped_create example_allocator (region_table_new 2) 2 = Ok (Some name, a1, t1)
    \<and> untyped_destroy a1 t1 name = Ok (a2, t2) \<and> fa_wf a2
    \<and> used_frames a2 = used_frames example_allocator \<and> table_get t2 = table_get (region_table_new 2)"
proof -
  have wf: "table_wf (region_table_new 2)"
    by (simp add: region_table_new_def table_wf_new)
  obtain f a' where al: "fa_alloc_contiguous example_allocator (unat (2 :: u64)) = (Some f, a')"
    by (rule example_alloc)
  have "\<exists>name t1. insert_root (region_table_new 2) (addr f div FRAME_SIZE) 2 = (Some name, t1)"
    by (simp add: insert_root_def region_table_new_def table_insert_with_def table_new_def
        numeral_2_eq_2 Option.is_none_def)
  then obtain name t1 where
    ins: "insert_root (region_table_new 2) (addr f div FRAME_SIZE) 2 = (Some name, t1)" by blast
  have "untyped_create example_allocator (region_table_new 2) 2 = Ok (Some name, a', t1)"
    unfolding untyped_create_def al by (simp add: ins)
  with create_destroy_roundtrip [OF example_wf wf this] show ?thesis by blast
qed

end
