(* ===== verification/Paging.thy ===== *)
theory Paging
  imports Prelude
begin

text \<open>
  The page tables (\<open>crates/paging\<close>): the portable access flags, the seam \<open>PageFormat\<close> with its two
  hardware formats (aarch64 four-level descriptors and RISC-V Sv39), the \<open>Mapper\<close> that walks and
  edits the tables, and the identity domain built for a device. A format is a record of the
  constants and bit operations of the trait; the locale \<open>page_format_laws\<close> holds what the walk
  needs of them, and both formats interpret it. Physical memory is a function from the address of
  a table to the table: it stands for \<open>phys_to_ptr\<close> together with the memory behind it, under the
  contract of the type that distinct table addresses are distinct tables. The frame allocator
  closure is the list of the answers it will give, nothing after its end.
\<close>

definition PAGE_SIZE :: u64 where
  "PAGE_SIZE = 4096"

definition ENTRIES :: nat where
  "ENTRIES = 512"

record page_table =
  entries :: "u64 list"

definition page_table_new :: page_table where
  "page_table_new = \<lparr>entries = replicate ENTRIES 0\<rparr>"

text \<open>\<open>u64::is_multiple_of\<close> of the standard library.\<close>

definition is_multiple_of :: "u64 \<Rightarrow> u64 \<Rightarrow> bool" where
  "is_multiple_of a b = (if b = 0 then a = 0 else a mod b = 0)"

section \<open>Portable access flags\<close>

definition CAP_WRITE :: u64 where "CAP_WRITE = push_bit 0 1"
definition CAP_USER :: u64 where "CAP_USER = push_bit 1 1"
definition CAP_USER_EXEC :: u64 where "CAP_USER_EXEC = push_bit 2 1"
definition CAP_KERNEL_EXEC :: u64 where "CAP_KERNEL_EXEC = push_bit 3 1"
definition CAP_GLOBAL :: u64 where "CAP_GLOBAL = push_bit 4 1"
definition CAP_DEVICE :: u64 where "CAP_DEVICE = push_bit 5 1"

datatype flags = Flags (flag_bits: u64)

definition kernel_code :: flags where
  "kernel_code = Flags (CAP_KERNEL_EXEC OR CAP_GLOBAL)"
definition kernel_rodata :: flags where
  "kernel_rodata = Flags CAP_GLOBAL"
definition kernel_data :: flags where
  "kernel_data = Flags (CAP_WRITE OR CAP_GLOBAL)"
definition device_flags :: flags where
  "device_flags = Flags (CAP_WRITE OR CAP_GLOBAL OR CAP_DEVICE)"
definition user_code :: flags where
  "user_code = Flags (CAP_USER OR CAP_USER_EXEC)"
definition user_rodata :: flags where
  "user_rodata = Flags CAP_USER"
definition user_data :: flags where
  "user_data = Flags (CAP_USER OR CAP_WRITE)"
definition user_device :: flags where
  "user_device = Flags (CAP_USER OR CAP_WRITE OR CAP_DEVICE)"

definition is_writable :: "flags \<Rightarrow> bool" where
  "is_writable fl \<longleftrightarrow> flag_bits fl AND CAP_WRITE \<noteq> 0"
definition is_kernel_executable :: "flags \<Rightarrow> bool" where
  "is_kernel_executable fl \<longleftrightarrow> flag_bits fl AND CAP_KERNEL_EXEC \<noteq> 0"
definition is_user_executable :: "flags \<Rightarrow> bool" where
  "is_user_executable fl \<longleftrightarrow> flag_bits fl AND CAP_USER_EXEC \<noteq> 0"
definition is_user_accessible :: "flags \<Rightarrow> bool" where
  "is_user_accessible fl \<longleftrightarrow> flag_bits fl AND CAP_USER \<noteq> 0"
definition is_device :: "flags \<Rightarrow> bool" where
  "is_device fl \<longleftrightarrow> flag_bits fl AND CAP_DEVICE \<noteq> 0"
definition is_global :: "flags \<Rightarrow> bool" where
  "is_global fl \<longleftrightarrow> flag_bits fl AND CAP_GLOBAL \<noteq> 0"

lemmas cap_defs [word_bits] =
  CAP_WRITE_def CAP_USER_def CAP_USER_EXEC_def CAP_KERNEL_EXEC_def CAP_GLOBAL_def CAP_DEVICE_def

lemmas flag_pred_defs =
  is_writable_def is_kernel_executable_def is_user_executable_def is_user_accessible_def
  is_device_def is_global_def

lemmas flag_constructors =
  kernel_code_def kernel_rodata_def kernel_data_def device_flags_def
  user_code_def user_rodata_def user_data_def user_device_def

section \<open>The seam: a hardware format\<close>

datatype half = Low | High

record page_format =
  LEVELS :: nat
  SPLIT_SHIFT :: nat
  is_present :: "u64 \<Rightarrow> bool"
  entry_pa :: "u64 \<Rightarrow> u64"
  table_entry :: "u64 \<Rightarrow> u64"
  leaf_entry :: "u64 \<Rightarrow> flags \<Rightarrow> u64"
  leaf_flags :: "u64 \<Rightarrow> flags"

definition index :: "page_format \<Rightarrow> u64 \<Rightarrow> nat \<Rightarrow> nat" where
  "index F va level = (let shift = 9 * (LEVELS F - 1 - level) + 12 in
     unat (drop_bit shift va AND 0x1ff))"

definition in_half :: "page_format \<Rightarrow> half \<Rightarrow> u64 \<Rightarrow> bool" where
  "in_half F h va = (let t = drop_bit (SPLIT_SHIFT F) va in
     case h of Low \<Rightarrow> t = 0 | High \<Rightarrow> t = drop_bit (SPLIT_SHIFT F) (- 1))"

definition half_base :: "page_format \<Rightarrow> half \<Rightarrow> u64" where
  "half_base F h = (case h of Low \<Rightarrow> 0
     | High \<Rightarrow> push_bit (SPLIT_SHIFT F) (drop_bit (SPLIT_SHIFT F) (- 1)))"

definition is_user_page_va :: "page_format \<Rightarrow> u64 \<Rightarrow> bool" where
  "is_user_page_va F va \<longleftrightarrow> in_half F Low va \<and> is_multiple_of va PAGE_SIZE"

subsection \<open>aarch64\<close>

definition VALID :: u64 where "VALID = push_bit 0 1"
definition TABLE_OR_PAGE :: u64 where "TABLE_OR_PAGE = push_bit 1 1"
definition AF :: u64 where "AF = push_bit 10 1"
definition SH_INNER :: u64 where "SH_INNER = push_bit 8 3"

definition attr_index :: "u64 \<Rightarrow> u64" where
  "attr_index slot = push_bit 2 (slot AND 7)"

definition AP_RW_EL1 :: u64 where "AP_RW_EL1 = push_bit 6 0"
definition AP_RW_EL0 :: u64 where "AP_RW_EL0 = push_bit 6 1"
definition AP_RO_EL1 :: u64 where "AP_RO_EL1 = push_bit 6 2"
definition AP_RO_EL0 :: u64 where "AP_RO_EL0 = push_bit 6 3"
definition AP_RO :: u64 where "AP_RO = push_bit 7 1"
definition AP_USER :: u64 where "AP_USER = push_bit 6 1"
definition NG :: u64 where "NG = push_bit 11 1"
definition PXN :: u64 where "PXN = push_bit 53 1"
definition UXN :: u64 where "UXN = push_bit 54 1"
definition ADDR_MASK :: u64 where "ADDR_MASK = 0x0000fffffffff000"
definition MAIR_DEVICE :: u64 where "MAIR_DEVICE = 0"
definition MAIR_NORMAL :: u64 where "MAIR_NORMAL = 1"

definition aarch64_attrs :: "flags \<Rightarrow> u64" where
  "aarch64_attrs fl =
     (let bits0 = AF;
          bits1 = (if \<not> is_device fl then bits0 OR SH_INNER else bits0);
          bits2 = bits1 OR attr_index (if is_device fl then MAIR_DEVICE else MAIR_NORMAL);
          bits3 = bits2 OR
            (case (is_user_accessible fl, is_writable fl) of
               (True, True) \<Rightarrow> AP_RW_EL0
             | (True, False) \<Rightarrow> AP_RO_EL0
             | (False, True) \<Rightarrow> AP_RW_EL1
             | (False, False) \<Rightarrow> AP_RO_EL1);
          bits4 = (if \<not> is_kernel_executable fl then bits3 OR PXN else bits3);
          bits5 = (if \<not> is_user_executable fl then bits4 OR UXN else bits4);
          bits6 = (if \<not> is_global fl then bits5 OR NG else bits5)
      in bits6)"

definition aarch64_leaf_flags :: "u64 \<Rightarrow> flags" where
  "aarch64_leaf_flags entry =
     (let caps0 = 0;
          caps1 = (if entry AND AP_RO = 0 then caps0 OR CAP_WRITE else caps0);
          caps2 = (if entry AND AP_USER \<noteq> 0 then caps1 OR CAP_USER else caps1);
          caps3 = (if entry AND UXN = 0 then caps2 OR CAP_USER_EXEC else caps2);
          caps4 = (if entry AND PXN = 0 then caps3 OR CAP_KERNEL_EXEC else caps3);
          caps5 = (if entry AND NG = 0 then caps4 OR CAP_GLOBAL else caps4);
          caps6 = (if drop_bit 2 entry AND 7 = MAIR_DEVICE then caps5 OR CAP_DEVICE else caps5)
      in Flags caps6)"

definition Aarch64 :: page_format where
  "Aarch64 = \<lparr>
     LEVELS = 4,
     SPLIT_SHIFT = 48,
     is_present = (\<lambda>entry. entry AND VALID \<noteq> 0),
     entry_pa = (\<lambda>entry. entry AND ADDR_MASK),
     table_entry = (\<lambda>pa. (pa AND ADDR_MASK) OR TABLE_OR_PAGE OR VALID),
     leaf_entry = (\<lambda>pa fl. (pa AND ADDR_MASK) OR aarch64_attrs fl OR TABLE_OR_PAGE OR VALID),
     leaf_flags = aarch64_leaf_flags\<rparr>"

subsection \<open>RISC-V Sv39\<close>

definition PTE_V :: u64 where "PTE_V = push_bit 0 1"
definition PTE_R :: u64 where "PTE_R = push_bit 1 1"
definition PTE_W :: u64 where "PTE_W = push_bit 2 1"
definition PTE_X :: u64 where "PTE_X = push_bit 3 1"
definition PTE_U :: u64 where "PTE_U = push_bit 4 1"
definition PTE_G :: u64 where "PTE_G = push_bit 5 1"
definition PTE_A :: u64 where "PTE_A = push_bit 6 1"
definition PTE_D :: u64 where "PTE_D = push_bit 7 1"
definition SW_DEVICE :: u64 where "SW_DEVICE = push_bit 8 1"
definition PPN_SHIFT :: nat where "PPN_SHIFT = 10"
definition PPN_MASK :: u64 where "PPN_MASK = push_bit 44 1 - 1"

definition sv39_attrs :: "flags \<Rightarrow> u64" where
  "sv39_attrs fl =
     (let bits0 = PTE_R OR PTE_A;
          bits1 = (if is_writable fl then bits0 OR (PTE_W OR PTE_D) else bits0);
          bits2 = (if is_user_executable fl \<or> is_kernel_executable fl then bits1 OR PTE_X else bits1);
          bits3 = (if is_user_accessible fl then bits2 OR PTE_U else bits2);
          bits4 = (if is_global fl then bits3 OR PTE_G else bits3);
          bits5 = (if is_device fl then bits4 OR SW_DEVICE else bits4)
      in bits5)"

definition sv39_leaf_flags :: "u64 \<Rightarrow> flags" where
  "sv39_leaf_flags entry =
     (let caps0 = 0;
          caps1 = (if entry AND PTE_W \<noteq> 0 then caps0 OR CAP_WRITE else caps0);
          caps2 = (if entry AND PTE_U \<noteq> 0 then caps1 OR CAP_USER else caps1);
          caps3 = (if entry AND PTE_X \<noteq> 0 then
                     (if entry AND PTE_U \<noteq> 0 then caps2 OR CAP_USER_EXEC
                      else caps2 OR CAP_KERNEL_EXEC)
                   else caps2);
          caps4 = (if entry AND PTE_G \<noteq> 0 then caps3 OR CAP_GLOBAL else caps3);
          caps5 = (if entry AND SW_DEVICE \<noteq> 0 then caps4 OR CAP_DEVICE else caps4)
      in Flags caps5)"

definition Sv39 :: page_format where
  "Sv39 = \<lparr>
     LEVELS = 3,
     SPLIT_SHIFT = 38,
     is_present = (\<lambda>entry. entry AND PTE_V \<noteq> 0),
     entry_pa = (\<lambda>entry. push_bit 12 (drop_bit PPN_SHIFT entry AND PPN_MASK)),
     table_entry = (\<lambda>pa. push_bit PPN_SHIFT (drop_bit 12 pa AND PPN_MASK) OR PTE_V),
     leaf_entry = (\<lambda>pa fl. push_bit PPN_SHIFT (drop_bit 12 pa AND PPN_MASK) OR PTE_V OR sv39_attrs fl),
     leaf_flags = sv39_leaf_flags\<rparr>"

section \<open>Bits of addresses, flags and descriptors\<close>

lemma and_single_bit [word_bits]:
  "(x :: u64) AND push_bit k 1 = 0 \<longleftrightarrow> \<not> bit x k"
  by (auto simp: bit_iff_and_push_bit_not_eq_0)

lemma bit_u64_numeral_index [word_bits]: "bit (push_bit k (1 :: u64)) n \<longleftrightarrow> n = k \<and> n < 64"
  by (auto simp: bit_simps)

lemma bit_ADDR_MASK [word_bits]: "bit ADDR_MASK n \<longleftrightarrow> 12 \<le> n \<and> n < 48"
proof -
  have eq: "ADDR_MASK = push_bit 12 (mask 36)" unfolding ADDR_MASK_def by code_simp
  show ?thesis unfolding eq by (auto simp only: bit_simps) auto
qed

lemma bit_PPN_MASK [word_bits]: "bit PPN_MASK n \<longleftrightarrow> n < 44"
proof -
  have eq: "PPN_MASK = mask 44" unfolding PPN_MASK_def by code_simp
  show ?thesis unfolding eq by (auto simp only: bit_simps) auto
qed

lemma bit_7 [word_bits]: "bit (7 :: u64) n \<longleftrightarrow> n < 3"
proof -
  have eq: "(7 :: u64) = mask 3" by code_simp
  show ?thesis unfolding eq by (auto simp only: bit_simps) auto
qed

lemma bit_descriptor_constants [word_bits]:
  "bit VALID n \<longleftrightarrow> n = 0" "bit TABLE_OR_PAGE n \<longleftrightarrow> n = 1" "bit AF n \<longleftrightarrow> n = 10"
  "bit SH_INNER n \<longleftrightarrow> n = 8 \<or> n = 9" "bit NG n \<longleftrightarrow> n = 11" "bit PXN n \<longleftrightarrow> n = 53" "bit UXN n \<longleftrightarrow> n = 54"
  "bit AP_RW_EL1 n \<longleftrightarrow> False" "bit AP_RW_EL0 n \<longleftrightarrow> n = 6" "bit AP_RO_EL1 n \<longleftrightarrow> n = 7"
  "bit AP_RO_EL0 n \<longleftrightarrow> n = 6 \<or> n = 7"
  "bit (attr_index MAIR_DEVICE) n \<longleftrightarrow> False" "bit (attr_index MAIR_NORMAL) n \<longleftrightarrow> n = 2"
proof -
  have eqs: "SH_INNER = push_bit 8 1 OR push_bit 9 1" "AP_RO_EL1 = push_bit 7 1" "AP_RW_EL1 = 0"
    "AP_RO_EL0 = push_bit 6 1 OR push_bit 7 1" "attr_index MAIR_DEVICE = 0"
    "attr_index MAIR_NORMAL = push_bit 2 1"
    by code_simp+
  show "bit SH_INNER n \<longleftrightarrow> n = 8 \<or> n = 9" "bit AP_RO_EL1 n \<longleftrightarrow> n = 7" "bit AP_RW_EL1 n \<longleftrightarrow> False"
    "bit AP_RO_EL0 n \<longleftrightarrow> n = 6 \<or> n = 7" "bit (attr_index MAIR_DEVICE) n \<longleftrightarrow> False"
    "bit (attr_index MAIR_NORMAL) n \<longleftrightarrow> n = 2"
    unfolding eqs by (simp_all only: bit_or_iff bit_u64_numeral_index bit_0_eq bot_apply) auto
  show "bit VALID n \<longleftrightarrow> n = 0" "bit TABLE_OR_PAGE n \<longleftrightarrow> n = 1" "bit AF n \<longleftrightarrow> n = 10"
    "bit NG n \<longleftrightarrow> n = 11" "bit PXN n \<longleftrightarrow> n = 53" "bit UXN n \<longleftrightarrow> n = 54" "bit AP_RW_EL0 n \<longleftrightarrow> n = 6"
    unfolding VALID_def TABLE_OR_PAGE_def AF_def NG_def PXN_def UXN_def AP_RW_EL0_def
    by (simp_all only: bit_u64_numeral_index) auto
qed

lemma bit_pte_constants [word_bits]:
  "bit PTE_V n \<longleftrightarrow> n = 0" "bit PTE_R n \<longleftrightarrow> n = 1" "bit PTE_W n \<longleftrightarrow> n = 2" "bit PTE_X n \<longleftrightarrow> n = 3"
  "bit PTE_U n \<longleftrightarrow> n = 4" "bit PTE_G n \<longleftrightarrow> n = 5" "bit PTE_A n \<longleftrightarrow> n = 6" "bit PTE_D n \<longleftrightarrow> n = 7"
  "bit SW_DEVICE n \<longleftrightarrow> n = 8"
  unfolding PTE_V_def PTE_R_def PTE_W_def PTE_X_def PTE_U_def PTE_G_def PTE_A_def PTE_D_def SW_DEVICE_def
  by (simp_all only: bit_u64_numeral_index) auto

lemma bit_cap_constants [word_bits]:
  "bit CAP_WRITE n \<longleftrightarrow> n = 0" "bit CAP_USER n \<longleftrightarrow> n = 1" "bit CAP_USER_EXEC n \<longleftrightarrow> n = 2"
  "bit CAP_KERNEL_EXEC n \<longleftrightarrow> n = 3" "bit CAP_GLOBAL n \<longleftrightarrow> n = 4" "bit CAP_DEVICE n \<longleftrightarrow> n = 5"
  unfolding cap_defs by (simp_all only: bit_u64_numeral_index) auto

lemma and_constants_zero [word_bits]:
  "x AND VALID = 0 \<longleftrightarrow> \<not> bit x 0" "x AND AP_RO = 0 \<longleftrightarrow> \<not> bit x 7" "x AND AP_USER = 0 \<longleftrightarrow> \<not> bit x 6"
  "x AND UXN = 0 \<longleftrightarrow> \<not> bit x 54" "x AND PXN = 0 \<longleftrightarrow> \<not> bit x 53" "x AND NG = 0 \<longleftrightarrow> \<not> bit x 11"
  "x AND PTE_V = 0 \<longleftrightarrow> \<not> bit x 0" "x AND PTE_W = 0 \<longleftrightarrow> \<not> bit x 2" "x AND PTE_X = 0 \<longleftrightarrow> \<not> bit x 3"
  "x AND PTE_U = 0 \<longleftrightarrow> \<not> bit x 4" "x AND PTE_G = 0 \<longleftrightarrow> \<not> bit x 5" "x AND SW_DEVICE = 0 \<longleftrightarrow> \<not> bit x 8"
  unfolding VALID_def AP_RO_def AP_USER_def UXN_def PXN_def NG_def
    PTE_V_def PTE_W_def PTE_X_def PTE_U_def PTE_G_def SW_DEVICE_def
  by (simp_all only: and_single_bit)

lemma memory_type_slot [word_bits]:
  "drop_bit 2 x AND 7 = MAIR_DEVICE \<longleftrightarrow> \<not> bit x 2 \<and> \<not> bit x 3 \<and> \<not> bit (x :: u64) 4"
proof -
  have "drop_bit 2 x AND 7 = 0 \<longleftrightarrow> (\<forall>n \<in> {0, 1, 2}. \<not> bit x (2 + n))" (is "?w = 0 \<longleftrightarrow> _")
  proof
    assume w: "?w = 0"
    have "bit ?w n \<longleftrightarrow> n < 3 \<and> bit x (2 + n)" for n
      by (simp only: bit_and_iff bit_7 bit_drop_bit_eq comp_apply) auto
    from this [of 0] this [of 1] this [of 2] show "\<forall>n \<in> {0, 1, 2}. \<not> bit x (2 + n)"
      unfolding w by (simp add: eval_nat_numeral)
  next
    assume "\<forall>n \<in> {0, 1, 2}. \<not> bit x (2 + n)"
    then have "\<not> bit ?w n" for n
      unfolding bit_and_iff bit_7 bit_drop_bit_eq comp_apply by (cases "n \<in> {0, 1, 2}") auto
    then show "?w = 0" by (intro bit_word_eqI) simp
  qed
  then show ?thesis unfolding MAIR_DEVICE_def by (simp add: eval_nat_numeral)
qed

lemma flag_pred_bits [word_bits]:
  "is_writable fl \<longleftrightarrow> bit (flag_bits fl) 0"
  "is_user_accessible fl \<longleftrightarrow> bit (flag_bits fl) 1"
  "is_user_executable fl \<longleftrightarrow> bit (flag_bits fl) 2"
  "is_kernel_executable fl \<longleftrightarrow> bit (flag_bits fl) 3"
  "is_global fl \<longleftrightarrow> bit (flag_bits fl) 4"
  "is_device fl \<longleftrightarrow> bit (flag_bits fl) 5"
  unfolding flag_pred_defs cap_defs and_single_bit by simp_all


text \<open>
  The flags a format can represent exactly: no bit beyond the six capabilities, and execution at
  the privilege that the user bit names. All eight constructors are such flags.
\<close>

definition flags_ok :: "flags \<Rightarrow> bool" where
  "flags_ok fl \<longleftrightarrow> drop_bit 6 (flag_bits fl) = 0 \<and>
     (is_user_executable fl \<longrightarrow> is_user_accessible fl) \<and>
     (is_kernel_executable fl \<longrightarrow> \<not> is_user_accessible fl)"

definition flag_choices :: "flags list" where
  "flag_choices = [kernel_code, kernel_rodata, kernel_data, device_flags,
                   user_code, user_rodata, user_data, user_device]"

lemma flag_choices_ok: "list_all flags_ok flag_choices"
  unfolding flag_choices_def by code_simp

lemma flag_choices_wx:
  "list_all (\<lambda>fl. \<not> (is_writable fl \<and> (is_user_executable fl \<or> is_kernel_executable fl))) flag_choices"
  unfolding flag_choices_def by code_simp

lemma high_flag_bits:
  assumes "flags_ok fl" "6 \<le> n"
  shows "\<not> bit (flag_bits fl) n"
proof -
  have "\<not> bit (drop_bit 6 (flag_bits fl)) (n - 6)" using assms(1) by (simp add: flags_ok_def)
  then show ?thesis using assms(2) by (simp only: bit_drop_bit_eq comp_apply) simp
qed

lemma flags_eqI:
  assumes "flags_ok fl"
    and "\<And>n. 6 \<le> n \<Longrightarrow> \<not> bit w n"
    and "bit w 0 = is_writable fl" "bit w 1 = is_user_accessible fl"
    and "bit w 2 = is_user_executable fl" "bit w 3 = is_kernel_executable fl"
    and "bit w 4 = is_global fl" "bit w 5 = is_device fl"
  shows "Flags w = fl"
proof (cases fl)
  case (Flags b)
  have "bit w n = bit b n" for n
  proof (cases "n < 6")
    case True
    then have "n = 0 \<or> n = 1 \<or> n = 2 \<or> n = 3 \<or> n = 4 \<or> n = 5" by arith
    with assms(3-8) Flags show ?thesis by (auto simp: flag_pred_bits)
  next
    case False
    with assms(2) [of n] high_flag_bits [OF assms(1), of n] Flags show ?thesis by simp
  qed
  then have "w = b" by (simp add: bit_eq_iff)
  with Flags show ?thesis by simp
qed

definition representable :: "page_format \<Rightarrow> u64 \<Rightarrow> bool" where
  "representable F pa \<longleftrightarrow> entry_pa F (table_entry F pa) = pa"

lemma bit_aarch64_attrs [word_bits]:
  "bit (aarch64_attrs fl) n \<longleftrightarrow>
     n = 10 \<or> \<not> is_device fl \<and> (n = 8 \<or> n = 9 \<or> n = 2) \<or> n = 6 \<and> is_user_accessible fl \<or>
     n = 7 \<and> \<not> is_writable fl \<or> n = 53 \<and> \<not> is_kernel_executable fl \<or>
     n = 54 \<and> \<not> is_user_executable fl \<or> n = 11 \<and> \<not> is_global fl"
  unfolding aarch64_attrs_def Let_def
  by (simp add: bit_or_iff bit_descriptor_constants split: bool.split)

lemma bit_sv39_attrs [word_bits]:
  "bit (sv39_attrs fl) n \<longleftrightarrow>
     n = 1 \<or> n = 6 \<or> is_writable fl \<and> (n = 2 \<or> n = 7) \<or>
     n = 3 \<and> (is_user_executable fl \<or> is_kernel_executable fl) \<or> n = 4 \<and> is_user_accessible fl \<or>
     n = 5 \<and> is_global fl \<or> n = 8 \<and> is_device fl"
  unfolding sv39_attrs_def Let_def
  by (auto simp: bit_or_iff bit_pte_constants)

lemma aarch64_flags_roundtrip:
  assumes "flags_ok fl"
  shows "leaf_flags Aarch64 (leaf_entry Aarch64 pa fl) = fl"
  unfolding Aarch64_def aarch64_leaf_flags_def Let_def page_format.simps and_constants_zero memory_type_slot
  by (rule flags_eqI [OF assms])
    (auto simp: bit_or_iff bit_and_iff bit_aarch64_attrs
      bit_descriptor_constants bit_cap_constants bit_ADDR_MASK)

lemma sv39_flags_roundtrip:
  assumes "flags_ok fl"
  shows "leaf_flags Sv39 (leaf_entry Sv39 pa fl) = fl"
  unfolding Sv39_def sv39_leaf_flags_def Let_def page_format.simps and_constants_zero
  by (rule flags_eqI [OF assms])
    (use assms in \<open>auto simp: bit_or_iff bit_and_iff bit_push_bit_iff PPN_SHIFT_def bit_sv39_attrs
      bit_pte_constants bit_cap_constants bit_PPN_MASK flags_ok_def\<close>)

lemma aarch64_pa: 
  "entry_pa Aarch64 (table_entry Aarch64 pa) = pa AND ADDR_MASK"
  "entry_pa Aarch64 (leaf_entry Aarch64 pa fl) = pa AND ADDR_MASK"
  unfolding Aarch64_def page_format.simps
  by (rule bit_word_eqI; auto simp: bit_or_iff bit_and_iff bit_ADDR_MASK bit_descriptor_constants bit_aarch64_attrs)+

lemma sv39_pa: 
  "entry_pa Sv39 (table_entry Sv39 pa) = push_bit 12 (drop_bit 12 pa AND PPN_MASK)"
  "entry_pa Sv39 (leaf_entry Sv39 pa fl) = push_bit 12 (drop_bit 12 pa AND PPN_MASK)"
  unfolding Sv39_def page_format.simps PPN_SHIFT_def
  by (rule bit_word_eqI; auto simp: bit_or_iff bit_and_iff bit_push_bit_iff bit_drop_bit_eq 
     bit_PPN_MASK bit_pte_constants bit_sv39_attrs)+

section \<open>Pages and indices of an address\<close>

definition va_page :: "u64 \<Rightarrow> u64" where
  "va_page va = va - va mod PAGE_SIZE"

lemma mod_PAGE_SIZE: "(va :: u64) mod PAGE_SIZE = take_bit 12 va"
  by (simp add: PAGE_SIZE_def take_bit_eq_mod)

lemma va_page_bits: "va_page va = push_bit 12 (drop_bit 12 va)"
  by (metis add_diff_cancel_right' bits_ident mod_PAGE_SIZE va_page_def)

lemma va_page_offset [simp]: "va_page va + va mod PAGE_SIZE = va"
  by (simp add: va_page_def)

lemma bit_va_page [word_bits]: "bit (va_page va) n \<longleftrightarrow> 12 \<le> n \<and> bit va n"
  by (auto simp: va_page_bits bit_push_bit_iff bit_drop_bit_eq dest: bit_imp_le_length)

lemma aligned_iff: "is_multiple_of va PAGE_SIZE \<longleftrightarrow> va_page va = va"
  by (simp add: is_multiple_of_def va_page_def PAGE_SIZE_def)

lemma va_page_idem [simp]: "va_page (va_page va) = va_page va"
  by (rule bit_word_eqI) (simp add: bit_va_page)

lemma index_lt [simp]: "index F va l < ENTRIES"
proof -
  have "unat (drop_bit k va AND 0x1ff) \<le> unat (0x1ff :: u64)" for k
    by (simp only: word_le_nat_alt [symmetric] word_and_le1)
  then show ?thesis
    unfolding index_def ENTRIES_def Let_def by (rule order_le_less_trans) simp
qed

lemma index_eq_iff:
  "index F va l = index F va' l \<longleftrightarrow>
     (\<forall>k < 9. bit va (9 * (LEVELS F - 1 - l) + 12 + k) = bit va' (9 * (LEVELS F - 1 - l) + 12 + k))"
proof -
  let ?s = "9 * (LEVELS F - 1 - l) + 12"
  have m: "(0x1ff :: u64) = mask 9" by code_simp
  have b: "bit (drop_bit ?s x AND mask 9) k \<longleftrightarrow> k < 9 \<and> bit x (?s + k)" for x :: u64 and k
    by (auto simp: bit_and_iff bit_mask_iff bit_drop_bit_eq)
  have "index F va l = index F va' l \<longleftrightarrow> drop_bit ?s va AND mask 9 = drop_bit ?s va' AND mask 9"
    by (simp add: index_def Let_def m)
  also have "\<dots> \<longleftrightarrow> (\<forall>k < 9. bit va (?s + k) = bit va' (?s + k))"
    by (simp only: word_eq_bits b) blast
  finally show ?thesis .
qed

lemma index_va_page [simp]: "index F (va_page va) l = index F va l"
  by (simp add: index_eq_iff bit_va_page)

lemma in_half_bits:
  "in_half F h va \<longleftrightarrow> (\<forall>n. SPLIT_SHIFT F \<le> n \<longrightarrow> n < 64 \<longrightarrow> bit va n = (h = High))"
proof -
  have "in_half F h va \<longleftrightarrow> (\<forall>n \<ge> SPLIT_SHIFT F. bit va n = (n < 64 \<and> h = High))"
    using drop_bit_eq_bits [of "SPLIT_SHIFT F" va 0] drop_bit_eq_bits [of "SPLIT_SHIFT F" va "- 1"]
    by (cases h) (simp_all add: in_half_def Let_def)
  moreover have "n < 64" if "bit va n" for n using bit_imp_le_length [OF that] by simp
  ultimately show ?thesis by blast
qed

lemma halves_disjoint:
  assumes "SPLIT_SHIFT F < 64" "in_half F Low va"
  shows "\<not> in_half F High va"
  using assms by (auto simp: in_half_bits)

section \<open>What the walk needs of a format\<close>

locale page_format_laws =
  fixes F :: page_format
  assumes levels_pos: "0 < LEVELS F"
    and split_ge: "12 \<le> SPLIT_SHIFT F"
    and split_le: "SPLIT_SHIFT F \<le> 9 * LEVELS F + 12"
    and split_lt: "SPLIT_SHIFT F < 64"
    and present_table: "is_present F (table_entry F pa)"
    and present_leaf: "is_present F (leaf_entry F pa fl)"
    and absent_zero: "\<not> is_present F 0"
    and leaf_pa: "representable F pa \<Longrightarrow> entry_pa F (leaf_entry F pa fl) = pa"
    and leaf_fl: "flags_ok fl \<Longrightarrow> leaf_flags F (leaf_entry F pa fl) = fl"
    and low_representable: "in_half F Low pa \<Longrightarrow> va_page pa = pa \<Longrightarrow> representable F pa"
begin

lemma in_half_va_page [simp]: "in_half F h (va_page va) = in_half F h va"
  using split_ge by (auto simp: in_half_bits bit_va_page)

text \<open>An address of a half is determined, up to the offset in its page, by its indices.\<close>

lemma va_page_by_indices:
  assumes half: "in_half F h va" "in_half F h va'"
    and idx: "\<And>l. l < LEVELS F \<Longrightarrow> index F va l = index F va' l"
  shows "va_page va = va_page va'"
proof (rule bit_word_eqI)
  fix n :: nat
  assume n: "n < LENGTH(64)"
  show "bit (va_page va) n = bit (va_page va') n"
  proof (cases "n < SPLIT_SHIFT F \<and> 12 \<le> n")
    case True
    let ?d = "(n - 12) div 9" and ?k = "(n - 12) mod 9"
    have nn: "n - 12 = 9 * ?d + ?k" by simp
    have "n - 12 < 9 * LEVELS F" using True split_le by linarith
    then have d: "?d < LEVELS F" by (simp add: div_less_iff_less_mult mult.commute)
    let ?l = "LEVELS F - 1 - ?d"
    have "?l < LEVELS F" using levels_pos by simp
    moreover have "?k < 9" by simp
    ultimately have "bit va (9 * (LEVELS F - 1 - ?l) + 12 + ?k) = bit va' (9 * (LEVELS F - 1 - ?l) + 12 + ?k)"
      using idx index_eq_iff by blast
    moreover have "LEVELS F - 1 - ?l = ?d" using d by simp
    ultimately have "bit va (9 * ?d + 12 + ?k) = bit va' (9 * ?d + 12 + ?k)" by simp
    moreover have "9 * ?d + 12 + ?k = n" using nn True by linarith
    ultimately show ?thesis by (simp add: bit_va_page)
  next
    case False
    then show ?thesis using half n by (auto simp: in_half_bits bit_va_page)
  qed
qed

end

lemma aarch64_representable: "representable Aarch64 pa \<longleftrightarrow> va_page pa = pa \<and> unat pa < 2 ^ 48"
proof -
  have "pa AND ADDR_MASK = pa \<longleftrightarrow> va_page pa = pa \<and> take_bit 48 pa = pa"
    unfolding word_eq_bits
    by (auto simp: bit_and_iff bit_ADDR_MASK bit_va_page bit_take_bit_iff)
  moreover have "take_bit 48 pa = pa \<longleftrightarrow> unat pa < 2 ^ 48"
    using take_bit_nat_eq_self_iff [of 48 "unat pa"]
    by (simp only: unat_inject_iff [symmetric] unsigned_take_bit_eq)
  ultimately show ?thesis by (simp add: representable_def aarch64_pa)
qed

interpretation aarch64: page_format_laws Aarch64
proof unfold_locales
  fix pa fl
  show "is_present Aarch64 (table_entry Aarch64 pa)" "is_present Aarch64 (leaf_entry Aarch64 pa fl)"
    "\<not> is_present Aarch64 0"
    by (simp_all add: Aarch64_def and_constants_zero bit_or_iff bit_descriptor_constants)
  show "entry_pa Aarch64 (leaf_entry Aarch64 pa fl) = pa" if "representable Aarch64 pa"
    using that by (simp add: representable_def aarch64_pa)
  show "leaf_flags Aarch64 (leaf_entry Aarch64 pa fl) = fl" if "flags_ok fl"
    using that by (rule aarch64_flags_roundtrip)
  show "representable Aarch64 pa" if "in_half Aarch64 Low pa" "va_page pa = pa"
  proof -
    have "12 \<le> n \<and> n < 48" if "bit pa n" for n
      using that \<open>in_half Aarch64 Low pa\<close> \<open>va_page pa = pa\<close> bit_va_page [of pa n] bit_imp_le_length [OF that]
      by (auto simp: in_half_bits Aarch64_def intro: ccontr)
    then have "pa AND ADDR_MASK = pa"
      by (intro bit_word_eqI) (auto simp: bit_and_iff bit_ADDR_MASK)
    then show ?thesis by (simp add: representable_def aarch64_pa)
  qed
qed (simp_all add: Aarch64_def)

interpretation sv39: page_format_laws Sv39
proof unfold_locales
  fix pa fl
  show "is_present Sv39 (table_entry Sv39 pa)" "is_present Sv39 (leaf_entry Sv39 pa fl)"
    "\<not> is_present Sv39 0"
    by (simp_all add: Sv39_def and_constants_zero bit_or_iff bit_pte_constants)
  show "entry_pa Sv39 (leaf_entry Sv39 pa fl) = pa" if "representable Sv39 pa"
    using that by (simp add: representable_def sv39_pa)
  show "leaf_flags Sv39 (leaf_entry Sv39 pa fl) = fl" if "flags_ok fl"
    using that by (rule sv39_flags_roundtrip)
  show "representable Sv39 pa" if "in_half Sv39 Low pa" "va_page pa = pa"
  proof -
    have b: "12 \<le> n \<and> n < 38" if "bit pa n" for n
      using that \<open>in_half Sv39 Low pa\<close> \<open>va_page pa = pa\<close> bit_va_page [of pa n] bit_imp_le_length [OF that]
      by (auto simp: in_half_bits Sv39_def intro: ccontr)
    have "bit (push_bit 12 (drop_bit 12 pa AND PPN_MASK)) n = bit pa n" for n
      using b [of n] bit_imp_le_length [of pa n]
      by (cases "12 \<le> n") (auto simp: bit_and_iff bit_PPN_MASK bit_push_bit_iff bit_drop_bit_eq)
    then have "push_bit 12 (drop_bit 12 pa AND PPN_MASK) = pa" unfolding word_eq_bits by blast
    then show ?thesis by (simp add: representable_def sv39_pa)
  qed
qed (simp_all add: Sv39_def)

lemma hardware_formats: "F = Aarch64 \<or> F = Sv39 \<Longrightarrow> page_format_laws F"
  using aarch64.page_format_laws_axioms sv39.page_format_laws_axioms by blast

section \<open>The mapper\<close>

datatype map_error = OutOfFrames | Misaligned | AlreadyMapped | WrongHalf | NotMapped | BadRegion

text \<open>The obligation that \<open>unmap\<close> hands back; \<open>Drop\<close> panics when it was not discharged.\<close>

datatype tlb_flush = TlbFlush (address: u64)

record mapper =
  root :: u64
  half_of :: half
  answers :: "u64 option list"
  tables :: "u64 \<Rightarrow> page_table"

definition mapper_new :: "u64 \<Rightarrow> half \<Rightarrow> u64 option list \<Rightarrow> (u64 \<Rightarrow> page_table) \<Rightarrow> mapper" where
  "mapper_new r h as mem = \<lparr>root = r, half_of = h, answers = as, tables = mem\<rparr>"

fun alloc_frame :: "mapper \<Rightarrow> u64 option \<times> mapper" where
  "alloc_frame mp = (case answers mp of
      [] \<Rightarrow> (None, mp)
    | a # as \<Rightarrow> (a, mp\<lparr>answers := as\<rparr>))"

definition read_entry :: "(u64 \<Rightarrow> page_table) \<Rightarrow> u64 \<Rightarrow> nat \<Rightarrow> u64" where
  "read_entry mem t i = entries (mem t) ! i"

definition write_entry :: "(u64 \<Rightarrow> page_table) \<Rightarrow> u64 \<Rightarrow> nat \<Rightarrow> u64 \<Rightarrow> (u64 \<Rightarrow> page_table)" where
  "write_entry mem t i e = mem(t := (mem t)\<lparr>entries := (entries (mem t))[i := e]\<rparr>)"

text \<open>The descent of \<open>map\<close> through the levels, creating the missing tables.\<close>

primrec map_descend :: "page_format \<Rightarrow> u64 \<Rightarrow> nat list \<Rightarrow> u64 \<Rightarrow> mapper \<Rightarrow> (map_error + u64) \<times> mapper" where
  "map_descend F va [] table_pa mp = (Ok table_pa, mp)"
| "map_descend F va (level # levels) table_pa mp =
     (let i = index F va level;
          entry = read_entry (tables mp) table_pa i
      in if \<not> is_present F entry then
           (case alloc_frame mp of
              (None, mp1) \<Rightarrow> (Err OutOfFrames, mp1)
            | (Some new, mp1) \<Rightarrow>
                let zeroed = (tables mp1)(new := page_table_new);
                    linked = write_entry zeroed table_pa i (table_entry F new)
                in map_descend F va levels (entry_pa F (read_entry linked table_pa i))
                     (mp1\<lparr>tables := linked\<rparr>))
         else map_descend F va levels (entry_pa F entry) mp)"

definition map_page :: "page_format \<Rightarrow> u64 \<Rightarrow> u64 \<Rightarrow> flags \<Rightarrow> mapper \<Rightarrow> (map_error + unit) \<times> mapper" where
  "map_page F va pa fl mp =
     (if \<not> in_half F (half_of mp) va then (Err WrongHalf, mp)
      else if \<not> is_multiple_of va PAGE_SIZE \<or> \<not> is_multiple_of pa PAGE_SIZE then (Err Misaligned, mp)
      else (case map_descend F va [0..<LEVELS F - 1] (root mp) mp of
          (Err e, mp1) \<Rightarrow> (Err e, mp1)
        | (Ok table_pa, mp1) \<Rightarrow>
            let i = index F va (LEVELS F - 1);
                entry = read_entry (tables mp1) table_pa i
            in if is_present F entry then (Err AlreadyMapped, mp1)
               else (Ok (), mp1\<lparr>tables := write_entry (tables mp1) table_pa i (leaf_entry F pa fl)\<rparr>)))"

text \<open>\<open>map_range\<close> with the wrapping arithmetic of a release build.\<close>

primrec map_range_from :: "page_format \<Rightarrow> u64 \<Rightarrow> u64 \<Rightarrow> flags \<Rightarrow> nat list \<Rightarrow> mapper \<Rightarrow> (map_error + unit) \<times> mapper" where
  "map_range_from F va pa fl [] mp = (Ok (), mp)"
| "map_range_from F va pa fl (i # is) mp =
     (case map_page F (va + of_nat i * PAGE_SIZE) (pa + of_nat i * PAGE_SIZE) fl mp of
        (Err e, mp1) \<Rightarrow> (Err e, mp1)
      | (Ok _, mp1) \<Rightarrow> map_range_from F va pa fl is mp1)"

definition map_range :: "page_format \<Rightarrow> u64 \<Rightarrow> u64 \<Rightarrow> u64 \<Rightarrow> flags \<Rightarrow> mapper \<Rightarrow> (map_error + unit) \<times> mapper" where
  "map_range F va pa count fl mp = map_range_from F va pa fl [0..<unat count] mp"

text \<open>The walk shared by \<open>unmap\<close> and \<open>translate\<close>: every level but the last.\<close>

primrec walk :: "page_format \<Rightarrow> (u64 \<Rightarrow> page_table) \<Rightarrow> u64 \<Rightarrow> nat list \<Rightarrow> u64 \<Rightarrow> u64 option" where
  "walk F mem va [] table_pa = Some table_pa"
| "walk F mem va (level # levels) table_pa =
     (let entry = read_entry mem table_pa (index F va level)
      in if \<not> is_present F entry then None else walk F mem va levels (entry_pa F entry))"

definition unmap_page :: "page_format \<Rightarrow> u64 \<Rightarrow> mapper \<Rightarrow> (map_error + u64 \<times> tlb_flush) \<times> mapper" where
  "unmap_page F va mp =
     (if \<not> in_half F (half_of mp) va then (Err WrongHalf, mp)
      else if \<not> is_multiple_of va PAGE_SIZE then (Err Misaligned, mp)
      else (case walk F (tables mp) va [0..<LEVELS F - 1] (root mp) of
          None \<Rightarrow> (Err NotMapped, mp)
        | Some table_pa \<Rightarrow>
            let i = index F va (LEVELS F - 1);
                entry = read_entry (tables mp) table_pa i
            in if \<not> is_present F entry then (Err NotMapped, mp)
               else (Ok (entry_pa F entry, TlbFlush va),
                     mp\<lparr>tables := write_entry (tables mp) table_pa i 0\<rparr>)))"

definition translate :: "page_format \<Rightarrow> mapper \<Rightarrow> u64 \<Rightarrow> (u64 \<times> flags) option" where
  "translate F mp va =
     (if \<not> in_half F (half_of mp) va then None
      else (case walk F (tables mp) va [0..<LEVELS F - 1] (root mp) of
          None \<Rightarrow> None
        | Some table_pa \<Rightarrow>
            let entry = read_entry (tables mp) table_pa (index F va (LEVELS F - 1))
            in if \<not> is_present F entry then None
               else Some (entry_pa F entry + va mod PAGE_SIZE, leaf_flags F entry)))"

text \<open>Discharging the obligation: the addresses invalidated, or the panic of \<open>Drop\<close>.\<close>

definition flush_tlb :: "tlb_flush \<Rightarrow> (u64 \<Rightarrow> 'r) \<Rightarrow> 'r" where
  "flush_tlb t invalidate = invalidate (address t)"

definition drop_tlb :: "tlb_flush \<Rightarrow> unit checked" where
  "drop_tlb t = Err (Panic ''page table changed but the TLB was never invalidated'')"

section \<open>The tables as a tree\<close>

text \<open>
  \<open>reach\<close> follows a path of indices from a table; \<open>lookup\<close> reads the leaf at the end of a full path.
  The invariant says that the tables form a tree (two paths never meet in one table) and that the
  frames still to be handed out are representable, distinct and not yet tables.
\<close>

primrec reach :: "page_format \<Rightarrow> (u64 \<Rightarrow> page_table) \<Rightarrow> u64 \<Rightarrow> nat list \<Rightarrow> u64 option" where
  "reach F mem t [] = Some t"
| "reach F mem t (i # is) =
     (if is_present F (read_entry mem t i) then reach F mem (entry_pa F (read_entry mem t i)) is else None)"

definition step_down :: "page_format \<Rightarrow> (u64 \<Rightarrow> page_table) \<Rightarrow> nat \<Rightarrow> u64 \<Rightarrow> u64 option" where
  "step_down F mem i t = (if is_present F (read_entry mem t i) then Some (entry_pa F (read_entry mem t i)) else None)"

definition leaf_at :: "page_format \<Rightarrow> (u64 \<Rightarrow> page_table) \<Rightarrow> u64 \<Rightarrow> nat list \<Rightarrow> nat \<Rightarrow> u64 option" where
  "leaf_at F mem t p i = Option.bind (reach F mem t p)
     (\<lambda>t'. if is_present F (read_entry mem t' i) then Some (read_entry mem t' i) else None)"

definition table_path :: "page_format \<Rightarrow> nat list \<Rightarrow> bool" where
  "table_path F p \<longleftrightarrow> length p < LEVELS F \<and> list_all (\<lambda>i. i < ENTRIES) p"

definition fresh_frames :: "mapper \<Rightarrow> u64 list" where
  "fresh_frames mp = List.map_filter id (answers mp)"

definition mapper_inv :: "page_format \<Rightarrow> mapper \<Rightarrow> bool" where
  "mapper_inv F mp \<longleftrightarrow>
     (\<forall>t. length (entries (tables mp t)) = ENTRIES) \<and>
     (\<forall>p q t. table_path F p \<longrightarrow> table_path F q \<longrightarrow>
        reach F (tables mp) (root mp) p = Some t \<longrightarrow> reach F (tables mp) (root mp) q = Some t \<longrightarrow> p = q) \<and>
     (\<forall>f \<in> set (fresh_frames mp). representable F f \<and>
        (\<forall>p. table_path F p \<longrightarrow> reach F (tables mp) (root mp) p \<noteq> Some f)) \<and>
     distinct (fresh_frames mp)"

lemma reach_snoc: "reach F mem t (p @ [i]) = Option.bind (reach F mem t p) (step_down F mem i)"
  by (induction p arbitrary: t) (auto simp: step_down_def)

lemma walk_reach: "walk F mem va ls t = reach F mem t (map (index F va) ls)"
  by (induction ls arbitrary: t) (auto simp: Let_def)

lemma read_write_entry:
  assumes "length (entries (mem t)) = ENTRIES" "i < ENTRIES"
  shows "read_entry (write_entry mem t i e) t' j = (if t' = t \<and> j = i then e else read_entry mem t' j)"
  using assms by (auto simp: read_entry_def write_entry_def nth_list_update)

lemma read_new_table:
  "j < ENTRIES \<Longrightarrow> read_entry (mem(f := page_table_new)) t j = (if t = f then 0 else read_entry mem t j)"
  by (simp add: read_entry_def page_table_new_def)

lemma map_descend_existing:
  assumes "reach F (tables mp) t (map (index F va) ls) = Some t'"
  shows "map_descend F va ls t mp = (Ok t', mp)"
  using assms by (induction ls arbitrary: t) (auto simp: Let_def split: if_splits)

lemma table_path_snoc: "table_path F (p @ [i]) \<Longrightarrow> table_path F p \<and> i < ENTRIES"
  by (auto simp: table_path_def)

lemma inv_tree:
  assumes "mapper_inv F mp" "table_path F p" "table_path F q"
    and "reach F (tables mp) (root mp) p = Some t" "reach F (tables mp) (root mp) q = Some t"
  shows "p = q"
  using assms unfolding mapper_inv_def by blast

lemma inv_length: "mapper_inv F mp \<Longrightarrow> length (entries (tables mp t)) = ENTRIES"
  by (simp add: mapper_inv_def)

lemma inv_fresh:
  assumes "mapper_inv F mp" "answers mp = Some f # as"
  shows "representable F f" "table_path F p \<Longrightarrow> reach F (tables mp) (root mp) p \<noteq> Some f"
    and "f \<notin> set (List.map_filter id as)"
  using assms by (auto simp: mapper_inv_def fresh_frames_def)

text \<open>Linking a fresh table below \<open>t\<close>, the table that path \<open>p\<close> reaches.\<close>

definition link_table :: "page_format \<Rightarrow> u64 \<Rightarrow> nat \<Rightarrow> u64 \<Rightarrow> u64 option list \<Rightarrow> mapper \<Rightarrow> mapper" where
  "link_table F t i f as mp =
     mp\<lparr>answers := as, tables := write_entry ((tables mp)(f := page_table_new)) t i (table_entry F f)\<rparr>"

context page_format_laws
begin

lemma link_reach:
  assumes inv: "mapper_inv F mp" and ans: "answers mp = Some f # as"
    and p: "table_path F (p @ [i])" and t: "reach F (tables mp) (root mp) p = Some t"
    and absent: "\<not> is_present F (read_entry (tables mp) t i)"
    and q: "table_path F q"
  shows "reach F (tables (link_table F t i f as mp)) (root mp) q =
    (if q = p @ [i] then Some f else reach F (tables mp) (root mp) q)"
  using q
proof (induction q rule: rev_induct)
  case Nil
  then show ?case by simp
next
  case (snoc j q)
  note q = table_path_snoc [OF snoc.prems] and pp = table_path_snoc [OF p]
  let ?m = "tables mp" and ?m' = "tables (link_table F t i f as mp)"
  have ft: "t \<noteq> f" using inv_fresh(2) [OF inv ans] pp t by blast
  have rd: "read_entry ?m' a j = (if a = t \<and> j = i then table_entry F f
      else if a = f then 0 else read_entry ?m a j)" for a
    using inv_length [OF inv] pp q ft
    by (simp add: link_table_def read_write_entry read_new_table)
  have IH: "reach F ?m' (root mp) q = (if q = p @ [i] then Some f else reach F ?m (root mp) q)"
    using snoc.IH q by blast
  have pn: "reach F ?m (root mp) (p @ [i]) = None" using t absent by (simp add: reach_snoc step_down_def)
  show ?case
  proof (cases "q = p @ [i]")
    case True
    then have "reach F ?m' (root mp) q = Some f" "reach F ?m (root mp) q = None" using IH pn by simp_all
    then show ?thesis
      unfolding reach_snoc [of _ _ _ q j] using True ft rd [of f] absent_zero by (simp add: step_down_def)
  next
    case False
    show ?thesis
    proof (cases "reach F ?m (root mp) q")
      case None
      then show ?thesis using IH False t by (auto simp: reach_snoc [of _ _ _ _ j])
    next
      case (Some a)
      then have "a \<noteq> f" using inv_fresh(2) [OF inv ans] q by blast
      moreover have "a = t \<Longrightarrow> q = p" using inv_tree [OF inv] q pp Some t by blast
      ultimately show ?thesis
        using IH False Some rd [of a] t inv_fresh(1) [OF inv ans] present_table
        by (auto simp: reach_snoc [of _ _ _ _ j] step_down_def representable_def)
    qed
  qed
qed

lemma link_leaf:
  assumes inv: "mapper_inv F mp" and ans: "answers mp = Some f # as"
    and p: "table_path F (p @ [i])" and t: "reach F (tables mp) (root mp) p = Some t"
    and absent: "\<not> is_present F (read_entry (tables mp) t i)"
    and q: "table_path F q" "Suc (length q) = LEVELS F" and j: "j < ENTRIES"
  shows "leaf_at F (tables (link_table F t i f as mp)) (root mp) q j = leaf_at F (tables mp) (root mp) q j"
proof -
  note pp = table_path_snoc [OF p] and lr = link_reach [OF inv ans p t absent q(1)]
  have ft: "t \<noteq> f" using inv_fresh(2) [OF inv ans] pp t by blast
  have rd: "read_entry (tables (link_table F t i f as mp)) a j = (if a = t \<and> j = i then table_entry F f
      else if a = f then 0 else read_entry (tables mp) a j)" for a
    using inv_length [OF inv] pp j ft
    by (simp add: link_table_def read_write_entry read_new_table)
  have pn: "reach F (tables mp) (root mp) (p @ [i]) = None"
    using t absent by (simp add: reach_snoc step_down_def)
  show ?thesis
  proof (cases "reach F (tables mp) (root mp) q")
    case None
    then show ?thesis using lr rd ft absent_zero by (auto simp: leaf_at_def)
  next
    case (Some a)
    then have "a \<noteq> f" using inv_fresh(2) [OF inv ans] q by blast
    moreover have "a \<noteq> t"
    proof
      assume "a = t"
      then have "q = p" using inv_tree [OF inv q(1)] pp Some t by blast
      then show False using p q(2) by (simp add: table_path_def)
    qed
    ultimately show ?thesis using lr rd pn Some by (auto simp: leaf_at_def)
  qed
qed

lemma link_inv:
  assumes inv: "mapper_inv F mp" and ans: "answers mp = Some f # as"
    and p: "table_path F (p @ [i])" and t: "reach F (tables mp) (root mp) p = Some t"
    and absent: "\<not> is_present F (read_entry (tables mp) t i)"
  shows "mapper_inv F (link_table F t i f as mp)"
proof -
  let ?mp = "link_table F t i f as mp"
  note lr = link_reach [OF inv ans p t absent]
  have [simp]: "root ?mp = root mp" by (simp add: link_table_def)
  have "length (entries (tables ?mp a)) = ENTRIES" for a
    using inv_length [OF inv] by (simp add: link_table_def write_entry_def page_table_new_def)
  moreover have "p1 = q1"
    if "table_path F p1" "table_path F q1" "reach F (tables ?mp) (root mp) p1 = Some a"
      "reach F (tables ?mp) (root mp) q1 = Some a" for p1 q1 a
    using that lr inv_fresh(2) [OF inv ans] inv_tree [OF inv, of p1 q1 a] by (auto split: if_splits)
  moreover have "representable F g \<and> (\<forall>q. table_path F q \<longrightarrow> reach F (tables ?mp) (root mp) q \<noteq> Some g)"
    if "g \<in> set (List.map_filter id as)" for g
    using that inv ans inv_fresh(3) [OF inv ans] lr
    by (auto simp: mapper_inv_def fresh_frames_def split: if_splits)
  moreover have "distinct (List.map_filter id as)"
    using inv ans by (simp add: mapper_inv_def fresh_frames_def)
  ultimately show ?thesis
    unfolding mapper_inv_def fresh_frames_def by (simp add: link_table_def)
qed

text \<open>Writing a leaf entry into the table that a path of full length reaches.\<close>

lemma leaf_write_reach:
  assumes inv: "mapper_inv F mp"
    and p: "table_path F p" "Suc (length p) = LEVELS F" and t: "reach F (tables mp) (root mp) p = Some t"
    and i: "i < ENTRIES" and q: "table_path F q"
  shows "reach F (write_entry (tables mp) t i e) (root mp) q = reach F (tables mp) (root mp) q"
  using q
proof (induction q rule: rev_induct)
  case Nil
  then show ?case by simp
next
  case (snoc j q)
  note q = table_path_snoc [OF snoc.prems]
  have "a \<noteq> t" if "reach F (tables mp) (root mp) q = Some a" for a
  proof
    assume "a = t"
    then have "q = p" using inv_tree [OF inv _ p(1)] q that t by blast
    then show False using snoc.prems p(2) by (simp add: table_path_def)
  qed
  then show ?case
    using snoc.IH q inv_length [OF inv] i
    by (cases "reach F (tables mp) (root mp) q") (auto simp: reach_snoc step_down_def read_write_entry)
qed

lemma leaf_write_leaf:
  assumes inv: "mapper_inv F mp"
    and p: "table_path F p" "Suc (length p) = LEVELS F" and t: "reach F (tables mp) (root mp) p = Some t"
    and i: "i < ENTRIES" and q: "table_path F q" and j: "j < ENTRIES"
  shows "leaf_at F (write_entry (tables mp) t i e) (root mp) q j =
    (if q = p \<and> j = i then (if is_present F e then Some e else None)
     else leaf_at F (tables mp) (root mp) q j)"
proof (cases "reach F (tables mp) (root mp) q")
  case None
  then show ?thesis
    using leaf_write_reach [OF inv p t i q] t by (auto simp: leaf_at_def)
next
  case (Some a)
  have "a = t \<longleftrightarrow> q = p" using inv_tree [OF inv q p(1)] Some t by auto
  then show ?thesis
    using leaf_write_reach [OF inv p t i q] Some inv_length [OF inv] i j
    by (auto simp: leaf_at_def read_write_entry)
qed

lemma leaf_write_inv:
  assumes inv: "mapper_inv F mp"
    and p: "table_path F p" "Suc (length p) = LEVELS F" and t: "reach F (tables mp) (root mp) p = Some t"
    and i: "i < ENTRIES"
  shows "mapper_inv F (mp\<lparr>tables := write_entry (tables mp) t i e\<rparr>)"
  using inv leaf_write_reach [OF inv p t i] inv_length [OF inv]
  unfolding mapper_inv_def fresh_frames_def
  by (simp add: write_entry_def)

end

definition same_leaves :: "page_format \<Rightarrow> mapper \<Rightarrow> mapper \<Rightarrow> bool" where
  "same_leaves F mp mp' \<longleftrightarrow> root mp' = root mp \<and> half_of mp' = half_of mp \<and>
     (\<forall>q j. table_path F q \<longrightarrow> Suc (length q) = LEVELS F \<longrightarrow> j < ENTRIES \<longrightarrow>
        leaf_at F (tables mp') (root mp) q j = leaf_at F (tables mp) (root mp) q j)"

definition va_path :: "page_format \<Rightarrow> u64 \<Rightarrow> nat list" where
  "va_path F va = map (index F va) [0..<LEVELS F - 1]"

definition frames_in_hand :: "mapper \<Rightarrow> nat \<Rightarrow> bool" where
  "frames_in_hand mp n \<longleftrightarrow> n \<le> length (takeWhile (\<lambda>a. a \<noteq> None) (answers mp))"

definition leaf_of :: "page_format \<Rightarrow> mapper \<Rightarrow> u64 \<Rightarrow> u64 option" where
  "leaf_of F mp va = leaf_at F (tables mp) (root mp) (va_path F va) (index F va (LEVELS F - 1))"

lemma same_leaves_refl: "same_leaves F mp mp"
  by (simp add: same_leaves_def)

lemma same_leaves_trans: "same_leaves F a b \<Longrightarrow> same_leaves F b c \<Longrightarrow> same_leaves F a c"
  by (simp add: same_leaves_def)

lemma same_leaves_answers: "same_leaves F mp (mp\<lparr>answers := as\<rparr>)"
  by (simp add: same_leaves_def)

lemma inv_answers:
  assumes "mapper_inv F mp" "answers mp = a # as"
  shows "mapper_inv F (mp\<lparr>answers := as\<rparr>)"
  using assms by (cases a) (auto simp: mapper_inv_def fresh_frames_def)

context page_format_laws
begin

lemma va_path_ok: "table_path F (va_path F va)" "Suc (length (va_path F va)) = LEVELS F"
  using levels_pos by (auto simp: table_path_def va_path_def list_all_iff)

lemma va_prefix_ok: "k < LEVELS F \<Longrightarrow> table_path F (map (index F va) [0..<k])"
  by (auto simp: table_path_def list_all_iff)

lemma map_descend_spec:
  assumes "mapper_inv F mp" "k < LEVELS F"
    and "reach F (tables mp) (root mp) (map (index F va) [0..<k]) = Some t"
    and "map_descend F va [k..<LEVELS F - 1] t mp = (r, mp')"
  shows "mapper_inv F mp' \<and> same_leaves F mp mp' \<and>
    (case r of Err e \<Rightarrow> e = OutOfFrames \<and> \<not> frames_in_hand mp (LEVELS F - 1 - k)
     | Ok t' \<Rightarrow> reach F (tables mp') (root mp) (va_path F va) = Some t')"
  using assms
proof (induction "LEVELS F - 1 - k" arbitrary: k t mp)
  case 0
  then have "k = LEVELS F - 1" by simp
  with 0 show ?case by (auto simp: same_leaves_refl va_path_def)
next
  case (Suc n)
  let ?p = "map (index F va) [0..<k]" and ?i = "index F va k"
  let ?e = "read_entry (tables mp) t ?i"
  have k: "Suc k < LEVELS F" "n = LEVELS F - 1 - Suc k" "LEVELS F - 1 - k = Suc n" using Suc.hyps(2) by linarith+
  have cons: "[k..<LEVELS F - 1] = k # [Suc k..<LEVELS F - 1]" using k by (simp add: upt_conv_Cons)
  have path: "map (index F va) [0..<Suc k] = ?p @ [?i]" by simp
  have pi: "table_path F (?p @ [?i])" using va_prefix_ok [OF k(1)] path by simp
  have run: "map_descend F va (k # [Suc k..<LEVELS F - 1]) t mp = (r, mp')" using Suc.prems(4) cons by simp
  show ?case
  proof (cases "is_present F ?e")
    case True
    have "reach F (tables mp) (root mp) (map (index F va) [0..<Suc k]) = Some (entry_pa F ?e)"
      unfolding path reach_snoc using True Suc.prems(3) by (simp add: step_down_def)
    from Suc.hyps(1) [OF k(2) Suc.prems(1) k(1) this] run True k(3) show ?thesis
      by (auto simp: Let_def frames_in_hand_def split: sum.splits)
  next
    case absent: False
    show ?thesis
    proof (cases "answers mp")
      case Nil
      with run absent Suc.prems(1) k(3) show ?thesis
        by (auto simp: Let_def same_leaves_refl frames_in_hand_def)
    next
      case (Cons a as)
      show ?thesis
      proof (cases a)
        case None
        with run absent Cons inv_answers [OF Suc.prems(1) Cons] k(3) show ?thesis
          by (auto simp: Let_def same_leaves_answers frames_in_hand_def)
      next
        case (Some f)
        note ans = Cons [unfolded Some]
        note l = Suc.prems(1) ans pi Suc.prems(3) absent
        let ?mp = "link_table F t ?i f as mp"
        have root: "root ?mp = root mp" "half_of ?mp = half_of mp" "answers ?mp = as"
          by (simp_all add: link_table_def)
        have "t \<noteq> f" using inv_fresh(2) [OF Suc.prems(1) ans] Suc.prems(2,3) va_prefix_ok by blast
        then have rd: "entry_pa F (read_entry (tables ?mp) t ?i) = f"
          using inv_fresh(1) [OF Suc.prems(1) ans] inv_length [OF Suc.prems(1)]
          by (simp add: link_table_def read_write_entry representable_def)
        have "map_descend F va [Suc k..<LEVELS F - 1] f ?mp = (r, mp')"
          using run absent ans rd by (simp add: Let_def link_table_def)
        moreover have "reach F (tables ?mp) (root ?mp) (map (index F va) [0..<Suc k]) = Some f"
          using link_reach [OF l pi] root path by simp
        moreover have "same_leaves F mp ?mp"
          using link_leaf [OF l] root by (simp add: same_leaves_def)
        ultimately show ?thesis
          using Suc.hyps(1) [OF k(2) link_inv [OF l] k(1)] same_leaves_trans root k(2,3) ans
          by (auto simp: frames_in_hand_def split: sum.splits)
      qed
    qed
  qed
qed

end

context page_format_laws
begin

lemma same_leaves_leaf_of: "same_leaves F mp mp' \<Longrightarrow> leaf_of F mp' va = leaf_of F mp va"
  using va_path_ok by (simp add: same_leaves_def leaf_of_def)

lemma translate_leaf:
  "translate F mp va = (if in_half F (half_of mp) va
     then map_option (\<lambda>e. (entry_pa F e + va mod PAGE_SIZE, leaf_flags F e)) (leaf_of F mp va) else None)"
  unfolding translate_def leaf_of_def leaf_at_def walk_reach va_path_def [symmetric]
  by (auto simp: Let_def split: option.splits)

lemma same_slot:
  assumes "in_half F h va" "in_half F h va'"
  shows "va_path F va = va_path F va' \<and> index F va (LEVELS F - 1) = index F va' (LEVELS F - 1)
    \<longleftrightarrow> va_page va = va_page va'"
proof
  assume eq: "va_path F va = va_path F va' \<and> index F va (LEVELS F - 1) = index F va' (LEVELS F - 1)"
  have "index F va l = index F va' l" if "l < LEVELS F" for l
  proof (cases "l = LEVELS F - 1")
    case False
    then have "l \<in> set [0..<LEVELS F - 1]" using that by simp
    then show ?thesis using eq unfolding va_path_def map_eq_conv by blast
  qed (use eq in simp)
  with assms show "va_page va = va_page va'" by (rule va_page_by_indices)
next
  assume "va_page va = va_page va'"
  then have "index F va l = index F va' l" for l by (metis index_va_page)
  then show "va_path F va = va_path F va' \<and> index F va (LEVELS F - 1) = index F va' (LEVELS F - 1)"
    by (simp add: va_path_def)
qed

lemma translate_va_page: "translate F mp (va_page va) = None \<longleftrightarrow> translate F mp va = None"
proof -
  have "index F (va_page va) = index F va" by (simp add: fun_eq_iff)
  then show ?thesis by (simp add: translate_leaf leaf_of_def va_path_def)
qed

text \<open>Writing the leaf of \<open>va\<close> changes the leaves of the addresses of its page alone.\<close>

lemma write_leaf_of:
  assumes inv: "mapper_inv F mp" and t: "reach F (tables mp) (root mp) (va_path F va) = Some t"
    and half: "in_half F h va" "in_half F h va'"
  shows "leaf_of F (mp\<lparr>tables := write_entry (tables mp) t (index F va (LEVELS F - 1)) e\<rparr>) va' =
    (if va_page va' = va_page va then (if is_present F e then Some e else None) else leaf_of F mp va')"
  using leaf_write_leaf [OF inv va_path_ok t index_lt va_path_ok(1) index_lt] same_slot [OF half(2,1)]
  by (simp add: leaf_of_def)

lemma map_page_spec:
  assumes inv: "mapper_inv F mp" and fl: "flags_ok fl" and pa: "representable F pa"
    and run: "map_page F va pa fl mp = (r, mp')"
  shows "mapper_inv F mp' \<and> root mp' = root mp \<and> half_of mp' = half_of mp \<and>
    (case r of
       Ok _ \<Rightarrow> in_half F (half_of mp) va \<and> va_page va = va \<and> va_page pa = pa \<and> translate F mp va = None \<and>
         (\<forall>va'. translate F mp' va' =
            (if va_page va' = va then Some (pa + va' mod PAGE_SIZE, fl) else translate F mp va'))
     | Err e \<Rightarrow> (\<forall>va'. translate F mp' va' = translate F mp va') \<and>
         (e = WrongHalf \<and> \<not> in_half F (half_of mp) va \<or>
          in_half F (half_of mp) va \<and>
            (e = Misaligned \<and> (va_page va \<noteq> va \<or> va_page pa \<noteq> pa) \<or>
             va_page va = va \<and> va_page pa = pa \<and>
               (e = OutOfFrames \<and> \<not> frames_in_hand mp (LEVELS F - 1) \<and> translate F mp va = None \<or>
                e = AlreadyMapped \<and> translate F mp va \<noteq> None))))"
proof (cases "in_half F (half_of mp) va \<and> va_page va = va \<and> va_page pa = pa")
  case False
  then show ?thesis using run inv by (auto simp: map_page_def aligned_iff split: if_splits)
next
  case ok: True
  obtain d mp1 where d: "map_descend F va [0..<LEVELS F - 1] (root mp) mp = (d, mp1)" by force
  have "reach F (tables mp) (root mp) (map (index F va) [0..<0]) = Some (root mp)" by simp
  note spec = map_descend_spec [OF inv levels_pos this d]
  have same: "root mp1 = root mp" "half_of mp1 = half_of mp" "\<And>v. leaf_of F mp1 v = leaf_of F mp v"
    and inv1: "mapper_inv F mp1"
    using spec same_leaves_leaf_of by (auto simp: same_leaves_def)
  have tr: "translate F mp1 v = translate F mp v" for v using same by (simp add: translate_leaf)
  show ?thesis
  proof (cases d)
    case (Inl e)
    then have "reach F (tables mp) (root mp) (va_path F va) = None"
      using d map_descend_existing [of F mp "root mp" va "[0..<LEVELS F - 1]"]
      by (cases "reach F (tables mp) (root mp) (va_path F va)") (simp_all add: va_path_def)
    then have "translate F mp va = None" by (simp add: translate_leaf leaf_of_def leaf_at_def)
    then show ?thesis using Inl run ok d spec tr same by (auto simp: map_page_def aligned_iff)
  next
    case (Inr t)
    let ?i = "index F va (LEVELS F - 1)"
    have t: "reach F (tables mp1) (root mp1) (va_path F va) = Some t" using spec Inr same by simp
    have half: "in_half F (half_of mp1) va" using ok same by simp
    show ?thesis
    proof (cases "is_present F (read_entry (tables mp1) t ?i)")
      case True
      then have "leaf_of F mp1 va \<noteq> None" using t by (simp add: leaf_of_def leaf_at_def)
      then have "leaf_of F mp va \<noteq> None" using same(3) by simp
      then show ?thesis using True run ok d Inr tr same inv1 by (auto simp: map_page_def aligned_iff translate_leaf Let_def)
    next
      case False
      let ?mp = "mp1\<lparr>tables := write_entry (tables mp1) t ?i (leaf_entry F pa fl)\<rparr>"
      have res: "r = Ok ()" "mp' = ?mp" using False run ok d Inr by (auto simp: map_page_def aligned_iff Let_def)
      have "leaf_of F mp va = None" using False t same(3) [of va] by (simp add: leaf_of_def leaf_at_def)
      then have free: "translate F mp va = None" by (simp add: translate_leaf)
      have "translate F ?mp v = (if va_page v = va then Some (pa + v mod PAGE_SIZE, fl) else translate F mp v)" for v
      proof (cases "in_half F (half_of mp) v")
        case True
        then have "in_half F (half_of mp1) v" using same by simp
        from write_leaf_of [OF inv1 t half this] True ok same leaf_pa [OF pa] leaf_fl [OF fl] present_leaf
        show ?thesis by (simp add: translate_leaf)
      next
        case False
        then have "va_page v \<noteq> va" using ok in_half_va_page by metis
        then show ?thesis using False same by (simp add: translate_leaf)
      qed
      then show ?thesis
        using res free ok same leaf_write_inv [OF inv1 va_path_ok t index_lt] by simp
    qed
  qed
qed

lemma unmap_page_spec:
  assumes inv: "mapper_inv F mp" and run: "unmap_page F va mp = (r, mp')"
  shows "mapper_inv F mp' \<and> root mp' = root mp \<and> half_of mp' = half_of mp \<and>
    (case r of
       Ok (pa, t) \<Rightarrow> t = TlbFlush va \<and> (\<exists>fl. translate F mp va = Some (pa, fl)) \<and> va_page va = va \<and>
         (\<forall>va'. translate F mp' va' = (if va_page va' = va then None else translate F mp va'))
     | Err e \<Rightarrow> mp' = mp \<and>
         (e = WrongHalf \<and> \<not> in_half F (half_of mp) va \<or>
          in_half F (half_of mp) va \<and>
            (e = Misaligned \<and> va_page va \<noteq> va \<or>
             va_page va = va \<and> e = NotMapped \<and> translate F mp va = None)))"
proof (cases "in_half F (half_of mp) va \<and> va_page va = va")
  case False
  then show ?thesis using run inv by (auto simp: unmap_page_def aligned_iff split: if_splits)
next
  case ok: True
  let ?i = "index F va (LEVELS F - 1)"
  have off: "va mod PAGE_SIZE = 0" using ok by (simp add: va_page_def)
  note run = run [unfolded unmap_page_def walk_reach va_path_def [symmetric]]
  show ?thesis
  proof (cases "leaf_of F mp va")
    case None
    then have "r = Err NotMapped \<and> mp' = mp"
      using run ok by (auto simp: aligned_iff leaf_of_def leaf_at_def Let_def
        split: option.splits if_splits)
    then show ?thesis using None ok inv by (simp add: translate_leaf)
  next
    case (Some e)
    then obtain t where t: "reach F (tables mp) (root mp) (va_path F va) = Some t"
      and e: "read_entry (tables mp) t ?i = e" "is_present F e"
      by (auto simp: leaf_of_def leaf_at_def split: bind_splits if_splits)
    let ?mp = "mp\<lparr>tables := write_entry (tables mp) t ?i 0\<rparr>"
    have res: "r = Ok (entry_pa F e, TlbFlush va)" "mp' = ?mp"
      using run ok t e by (auto simp: aligned_iff Let_def)
    have "translate F ?mp v = (if va_page v = va then None else translate F mp v)" for v
    proof (cases "in_half F (half_of mp) v")
      case True
      from write_leaf_of [OF inv t _ this, of 0] ok absent_zero show ?thesis by (simp add: translate_leaf)
    next
      case False
      then show ?thesis by (simp add: translate_leaf)
    qed
    moreover have "translate F mp va = Some (entry_pa F e, leaf_flags F e)"
      using Some ok off by (simp add: translate_leaf)
    ultimately show ?thesis
      using res ok leaf_write_inv [OF inv va_path_ok t index_lt] by simp
  qed
qed

end

section \<open>The identity domain of a device\<close>

record dma_region =
  dma_base :: u64
  dma_size :: u64

definition grant_pages :: "dma_region \<Rightarrow> map_error + u64" where
  "grant_pages r =
     (if \<not> is_multiple_of (dma_base r) PAGE_SIZE then Err Misaligned
      else if checked_add (dma_base r) (dma_size r) = None then Err BadRegion
      else Ok (dma_size r div PAGE_SIZE))"

definition grant_page :: "dma_region \<Rightarrow> u64 \<Rightarrow> u64 option" where
  "grant_page r i =
     (case checked_mul i PAGE_SIZE of None \<Rightarrow> None
      | Some off \<Rightarrow>
          (case checked_add off PAGE_SIZE of None \<Rightarrow> None
           | Some end \<Rightarrow> if dma_size r < end then None else checked_add (dma_base r) off))"

primrec map_grant :: "page_format \<Rightarrow> dma_region \<Rightarrow> nat list \<Rightarrow> mapper \<Rightarrow> (map_error + unit) \<times> mapper" where
  "map_grant F r [] mp = (Ok (), mp)"
| "map_grant F r (i # is) mp =
     (case grant_page r (of_nat i) of None \<Rightarrow> (Err BadRegion, mp)
      | Some page \<Rightarrow>
          (case map_page F page page user_data mp of
             (Err e, mp1) \<Rightarrow> (Err e, mp1)
           | (Ok _, mp1) \<Rightarrow> map_grant F r is mp1))"

primrec map_grants :: "page_format \<Rightarrow> dma_region list \<Rightarrow> mapper \<Rightarrow> (map_error + unit) \<times> mapper" where
  "map_grants F [] mp = (Ok (), mp)"
| "map_grants F (r # rs) mp =
     (case grant_pages r of Err e \<Rightarrow> (Err e, mp)
      | Ok pages \<Rightarrow>
          (case map_grant F r [0..<unat pages] mp of
             (Err e, mp1) \<Rightarrow> (Err e, mp1)
           | (Ok _, mp1) \<Rightarrow> map_grants F rs mp1))"

definition build_identity_domain ::
  "page_format \<Rightarrow> u64 \<Rightarrow> u64 option list \<Rightarrow> (u64 \<Rightarrow> page_table) \<Rightarrow> dma_region list \<Rightarrow> (map_error + unit) \<times> mapper" where
  "build_identity_domain F r as mem regions = map_grants F regions (mapper_new r Low as mem)"

text \<open>The contract of a fresh mapper: a zeroed root, and distinct representable frames beside it.\<close>

definition fresh_mapper :: "page_format \<Rightarrow> mapper \<Rightarrow> bool" where
  "fresh_mapper F mp \<longleftrightarrow> (\<forall>t. length (entries (tables mp t)) = ENTRIES) \<and>
     tables mp (root mp) = page_table_new \<and> distinct (root mp # fresh_frames mp) \<and>
     (\<forall>f \<in> set (fresh_frames mp). representable F f)"

text \<open>The bytes of the whole pages of a grant.\<close>

definition in_grant :: "dma_region \<Rightarrow> u64 \<Rightarrow> bool" where
  "in_grant r va \<longleftrightarrow> unat (dma_base r) \<le> unat va \<and> unat va < unat (dma_base r) + unat (dma_size r) div 4096 * 4096"

lemma user_data_ok: "flags_ok user_data"
  by code_simp

lemma unat_PAGE_SIZE [simp]: "unat PAGE_SIZE = 4096"
  by (simp add: PAGE_SIZE_def)

lemma unat_va_page: "unat (va_page va) = unat va - unat va mod 4096"
proof -
  have "va mod PAGE_SIZE \<le> va" by (simp add: word_le_nat_alt unat_mod)
  then show ?thesis unfolding va_page_def by (simp add: unat_sub unat_mod)
qed

lemma grant_pages_Ok:
  assumes "grant_pages r = Ok n"
  shows "va_page (dma_base r) = dma_base r" "unat (dma_base r) + unat (dma_size r) < 2 ^ 64" "unat n = unat (dma_size r) div 4096"
  using assms by (auto simp: grant_pages_def aligned_iff checked_add_None_iff unat_div split: if_splits)

lemma grant_page_below:
  assumes n: "grant_pages r = Ok n" and i: "i < unat n"
  shows "\<exists>page. grant_page r (of_nat i) = Some page \<and> unat page = unat (dma_base r) + 4096 * i"
proof -
  note b = grant_pages_Ok [OF n]
  have le: "4096 * i + 4096 \<le> unat (dma_size r)" using i b(3) by linarith
  have ui: "unat (of_nat i :: u64) = i"
    using le unsigned_less [of "dma_size r", where ?'a = nat] by (simp add: unsigned_of_nat take_bit_nat_eq_self)
  let ?off = "of_nat i * PAGE_SIZE :: u64"
  have lt: "unat (dma_size r) < 2 ^ 64" using unsigned_less [of "dma_size r", where ?'a = nat] by simp
  have off: "unat ?off = 4096 * i" using ui le lt by (subst unat_mult_small) simp_all
  have "checked_mul (of_nat i) PAGE_SIZE = Some ?off" using ui off by (simp add: checked_mul_Some_iff)
  moreover have en: "unat (?off + PAGE_SIZE) = 4096 * i + 4096" using off le lt by (subst unat_add_small) simp_all
  then have "checked_add ?off PAGE_SIZE = Some (?off + PAGE_SIZE)" using off by (simp add: checked_add_Some_iff)
  moreover have "\<not> dma_size r < ?off + PAGE_SIZE" using en le by (simp add: word_less_nat_alt)
  moreover have ba: "unat (dma_base r + ?off) = unat (dma_base r) + 4096 * i" using off le b(2) by (subst unat_add_small) simp_all
  then have "checked_add (dma_base r) ?off = Some (dma_base r + ?off)" using off by (simp add: checked_add_Some_iff)
  ultimately show ?thesis using ba by (simp add: grant_page_def)
qed

lemma in_grant_iff_page:
  assumes n: "grant_pages r = Ok n"
  shows "in_grant r va \<longleftrightarrow> (\<exists>i < unat n. unat (va_page va) = unat (dma_base r) + 4096 * i)"
proof -
  note b = grant_pages_Ok [OF n]
  have "4096 dvd unat (dma_base r)" using b(1) unat_va_page [of "dma_base r"] by (metis dvd_minus_mod)
  then obtain k where k: "unat (dma_base r) = 4096 * k" by blast
  show ?thesis
  proof
    assume "in_grant r va"
    then have g: "4096 * k \<le> unat va" "unat va < 4096 * k + unat n * 4096"
      by (simp_all add: in_grant_def k b(3))
    let ?q = "unat va div 4096"
    have v: "unat va = 4096 * ?q + unat va mod 4096" by simp
    have "unat va mod 4096 < 4096" by simp
    then have q: "k \<le> ?q" "?q < k + unat n" using g v by linarith+
    have "unat (va_page va) = 4096 * ?q" using v unat_va_page [of va] by linarith
    then have "unat (va_page va) = unat (dma_base r) + 4096 * (?q - k)" using k q by (simp add: algebra_simps)
    moreover have "?q - k < unat n" using q by linarith
    ultimately show "\<exists>i < unat n. unat (va_page va) = unat (dma_base r) + 4096 * i" by blast
  next
    assume "\<exists>i < unat n. unat (va_page va) = unat (dma_base r) + 4096 * i"
    then obtain i where i: "i < unat n" "unat (va_page va) = unat (dma_base r) + 4096 * i" by blast
    have "unat va mod 4096 < 4096" "unat va mod 4096 \<le> unat va" by simp_all
    with i unat_va_page [of va] show "in_grant r va"
      unfolding in_grant_def b(3) [symmetric] by linarith
  qed
qed

lemma fresh_mapper_inv:
  assumes "fresh_mapper F mp" "page_format_laws F"
  shows "mapper_inv F mp" "translate F mp va = None"
proof -
  have zero: "\<not> is_present F 0" using assms(2) by (simp add: page_format_laws_def)
  have r: "reach F (tables mp) (root mp) p = (if p = [] then Some (root mp) else None)"
    if "table_path F p" for p
    using that assms(1) zero
    by (cases p) (auto simp: fresh_mapper_def read_entry_def page_table_new_def table_path_def)
  then show "mapper_inv F mp"
    using assms(1) by (auto simp: mapper_inv_def fresh_mapper_def split: if_splits)
  have "leaf_of F mp va = None"
    using r [of "va_path F va"] page_format_laws.va_path_ok [OF assms(2)] assms(1) zero
    by (auto simp: leaf_of_def leaf_at_def fresh_mapper_def read_entry_def page_table_new_def)
  then show "translate F mp va = None"
    by (simp add: page_format_laws.translate_leaf [OF assms(2)])
qed

text \<open>What a partly built domain translates: the identity on the addresses of \<open>S\<close>, nothing else.\<close>

definition identity_on :: "page_format \<Rightarrow> (u64 \<Rightarrow> bool) \<Rightarrow> mapper \<Rightarrow> bool" where
  "identity_on F S mp \<longleftrightarrow> mapper_inv F mp \<and> half_of mp = Low \<and>
     (\<forall>va. translate F mp va = (if S va then Some (va, user_data) else None))"

context page_format_laws
begin

lemma identity_map_page:
  assumes "identity_on F S mp" "map_page F page page user_data mp = (Ok u, mp')"
  shows "identity_on F (\<lambda>va. S va \<or> va_page va = page) mp'"
proof -
  have inv: "mapper_inv F mp" and h: "half_of mp = Low" using assms(1) by (simp_all add: identity_on_def)
  have "in_half F Low page \<and> va_page page = page"
    using assms(2) h by (auto simp: map_page_def aligned_iff split: if_splits)
  then have "representable F page" using low_representable by blast
  from map_page_spec [OF inv user_data_ok this assms(2)] have
    "mapper_inv F mp'" "half_of mp' = Low"
    "\<And>va. translate F mp' va =
       (if va_page va = page then Some (page + va mod PAGE_SIZE, user_data) else translate F mp va)"
    using h by simp_all
  then show ?thesis using assms(1) va_page_offset by (auto simp: identity_on_def)
qed

lemma identity_map_grant:
  assumes "identity_on F S mp" "grant_pages r = Ok n" "\<forall>i \<in> set is. i < unat n"
    and "map_grant F r is mp = (Ok u, mp')"
  shows "identity_on F (\<lambda>va. S va \<or> (\<exists>i \<in> set is. unat (va_page va) = unat (dma_base r) + 4096 * i)) mp'"
  using assms(1,3,4)
proof (induction "is" arbitrary: S mp)
  case Nil
  then show ?case by simp
next
  case (Cons i js)
  obtain page where page: "grant_page r (of_nat i) = Some page" "unat page = unat (dma_base r) + 4096 * i"
    using grant_page_below [OF assms(2)] Cons.prems(2) by auto
  then obtain v mp1 where m: "map_page F page page user_data mp = (Ok v, mp1)"
    and rest: "map_grant F r js mp1 = (Ok u, mp')"
    using Cons.prems(3) by (auto split: prod.splits sum.splits)
  have eq: "va_page va = page \<longleftrightarrow> unat (va_page va) = unat (dma_base r) + 4096 * i" for va
    using page(2) unat_inject_iff [of "va_page va" page] by simp
  from Cons.IH [OF identity_map_page [OF Cons.prems(1) m] _ rest] Cons.prems(2)
  show ?case by (simp add: eq)
qed

lemma identity_map_grants:
  assumes "identity_on F S mp" "map_grants F rs mp = (Ok u, mp')"
  shows "identity_on F (\<lambda>va. S va \<or> (\<exists>r \<in> set rs. in_grant r va)) mp'"
  using assms
proof (induction rs arbitrary: S mp)
  case Nil
  then show ?case by simp
next
  case (Cons r rs)
  then obtain n v mp1 where n: "grant_pages r = Ok n" and m: "map_grant F r [0..<unat n] mp = (Ok v, mp1)"
    and rest: "map_grants F rs mp1 = (Ok u, mp')"
    by (auto split: prod.splits sum.splits)
  have "(\<exists>i \<in> set [0..<unat n]. unat (va_page va) = unat (dma_base r) + 4096 * i) \<longleftrightarrow> in_grant r va" for va
    using in_grant_iff_page [OF n, of va] by auto
  with identity_map_grant [OF Cons.prems(1) n _ m]
  have "identity_on F (\<lambda>va. S va \<or> in_grant r va) mp1" by simp
  from Cons.IH [OF this rest] show ?case by simp
qed

end

section \<open>Claims\<close>

text \<open>C10.
  On both hardware formats, \<open>map\<close> either succeeds, and then the page was free, and exactly the
  addresses of that page now translate to the frame with the requested rights while every other
  translation is untouched; or it fails with the error its condition names, and no translation
  changes, even when it has already linked intermediate tables. The tables stay a tree either way.
\<close>

theorem map_page_exact:
  assumes "F = Aarch64 \<or> F = Sv39" "mapper_inv F mp" "flags_ok fl" "representable F pa"
  shows "mapper_inv F (snd (map_page F va pa fl mp)) \<and>
    (case fst (map_page F va pa fl mp) of
       Ok _ \<Rightarrow> in_half F (half_of mp) va \<and> va_page va = va \<and> translate F mp va = None \<and>
         (\<forall>va'. translate F (snd (map_page F va pa fl mp)) va' =
            (if va_page va' = va then Some (pa + va' mod PAGE_SIZE, fl) else translate F mp va'))
     | Err e \<Rightarrow> (\<forall>va'. translate F (snd (map_page F va pa fl mp)) va' = translate F mp va') \<and>
         (e = WrongHalf \<and> \<not> in_half F (half_of mp) va \<or>
          in_half F (half_of mp) va \<and>
            (e = Misaligned \<and> (va_page va \<noteq> va \<or> va_page pa \<noteq> pa) \<or>
             va_page va = va \<and> va_page pa = pa \<and>
               (e = OutOfFrames \<and> \<not> frames_in_hand mp (LEVELS F - 1) \<and> translate F mp va = None \<or>
                e = AlreadyMapped \<and> translate F mp va \<noteq> None))))"
  using page_format_laws.map_page_spec [OF hardware_formats [OF assms(1)] assms(2-4) surjective_pairing, of va]
  by (auto split: sum.splits)

text \<open>C29.
  A free page of the mapper's half, with a frame at hand for each level below the root, can always
  be mapped; mapping it a second time is refused (break before make); unmapping it then returns the
  frame with the obligation to flush that address, restores every translation, and a second unmap
  finds nothing.
\<close>

theorem map_unmap_roundtrip:
  assumes "F = Aarch64 \<or> F = Sv39" "mapper_inv F mp" "flags_ok fl" "representable F pa"
    and "in_half F (half_of mp) va" "va_page va = va" "va_page pa = pa"
    and "translate F mp va = None" "frames_in_hand mp (LEVELS F - 1)"
  shows "\<exists>mp1 mp2. map_page F va pa fl mp = (Ok (), mp1) \<and>
    translate F mp1 va = Some (pa, fl) \<and>
    fst (map_page F va pa fl mp1) = Err AlreadyMapped \<and>
    unmap_page F va mp1 = (Ok (pa, TlbFlush va), mp2) \<and>
    translate F mp2 = translate F mp \<and>
    unmap_page F va mp2 = (Err NotMapped, mp2)"
proof -
  note laws = hardware_formats [OF assms(1)]
  have off: "va mod PAGE_SIZE = 0" using assms(6) by (simp add: va_page_def)
  obtain r mp1 where m: "map_page F va pa fl mp = (r, mp1)" by force
  note s = page_format_laws.map_page_spec [OF laws assms(2-4) m]
  have r: "r = Ok ()" using s assms(5-9) by (cases r) auto
  have inv1: "mapper_inv F mp1" and half1: "half_of mp1 = half_of mp"
    and t1: "\<And>v. translate F mp1 v = (if va_page v = va then Some (pa + v mod PAGE_SIZE, fl) else translate F mp v)"
    using s r by auto
  have tva: "translate F mp1 va = Some (pa, fl)" using t1 [of va] assms(6) off by simp
  obtain r2 mp2 where u: "unmap_page F va mp1 = (r2, mp2)" by force
  note s2 = page_format_laws.unmap_page_spec [OF laws inv1 u]
  have r2: "r2 = Ok (pa, TlbFlush va)" using s2 tva assms(5,6) half1 by (cases r2) auto
  have t2: "translate F mp2 = translate F mp"
    using s2 r2 t1 assms(8) page_format_laws.translate_va_page [OF laws, of mp] by (auto simp: fun_eq_iff)
  obtain r3 mp3 where m3: "map_page F va pa fl mp1 = (r3, mp3)" by force
  have r3: "r3 = Err AlreadyMapped"
    using page_format_laws.map_page_spec [OF laws inv1 assms(3,4) m3] tva assms(5-7) half1 by (cases r3) auto
  have inv2: "mapper_inv F mp2" "half_of mp2 = half_of mp" using s2 half1 by auto
  obtain r4 mp4 where u4: "unmap_page F va mp2 = (r4, mp4)" by force
  have "r4 = Err NotMapped \<and> mp4 = mp2"
    using page_format_laws.unmap_page_spec [OF laws inv2(1) u4] t2 assms(5,6,8) inv2(2) by (cases r4) auto
  with m r tva m3 r3 u r2 t2 u4 show ?thesis by simp
qed

text \<open>C11.
  A domain that \<open>build_identity_domain\<close> returns maps exactly the grant: an address of a whole page
  of a granted region translates to itself, readable and writable and never executable, and no
  other address translates at all, whatever the regions are.
\<close>

theorem identity_domain_exact:
  assumes "F = Aarch64 \<or> F = Sv39" "fresh_mapper F (mapper_new r Low as mem)"
    and "build_identity_domain F r as mem regions = (Ok (), mp)"
  shows "translate F mp va = (if list_ex (\<lambda>g. in_grant g va) regions then Some (va, user_data) else None)"
proof -
  note laws = hardware_formats [OF assms(1)]
  have "identity_on F (\<lambda>_. False) (mapper_new r Low as mem)"
    using fresh_mapper_inv [OF assms(2) laws] by (simp add: identity_on_def mapper_new_def)
  from page_format_laws.identity_map_grants [OF laws this assms(3) [unfolded build_identity_domain_def]]
  show ?thesis by (simp add: identity_on_def list_ex_iff)
qed

section \<open>A concrete mapper\<close>

definition example_mapper :: mapper where
  "example_mapper = mapper_new 0x1000 Low [Some 0x2000, Some 0x3000, Some 0x4000, Some 0x5000] (\<lambda>_. page_table_new)"

lemma example_fresh: "fresh_mapper Aarch64 example_mapper" "fresh_mapper Sv39 example_mapper"
proof -
  have "list_all (representable Aarch64) [0x2000, 0x3000, 0x4000, 0x5000]"
    "list_all (representable Sv39) [0x2000, 0x3000, 0x4000, 0x5000]" by code_simp+
  then show "fresh_mapper Aarch64 example_mapper" "fresh_mapper Sv39 example_mapper"
    by (simp_all add: fresh_mapper_def example_mapper_def mapper_new_def page_table_new_def fresh_frames_def)
qed

lemmas example_inv = fresh_mapper_inv(1) [OF example_fresh(1) hardware_formats, simplified]
  fresh_mapper_inv(1) [OF example_fresh(2) hardware_formats, simplified]

lemmas example_free = fresh_mapper_inv(2) [OF example_fresh(1) hardware_formats, simplified]
  fresh_mapper_inv(2) [OF example_fresh(2) hardware_formats, simplified]

lemma example_frames: "n \<le> 4 \<Longrightarrow> frames_in_hand example_mapper n"
  by (simp add: frames_in_hand_def example_mapper_def mapper_new_def)

lemma example_format: "LEVELS Aarch64 = 4" "LEVELS Sv39 = 3" "half_of example_mapper = Low"
  by (simp_all add: Aarch64_def Sv39_def example_mapper_def mapper_new_def)

theorem map_page_exact_witness:
  "mapper_inv Aarch64 (snd (map_page Aarch64 0x80000000 0x9000 user_code example_mapper)) \<and>
   fst (map_page Aarch64 0x80000000 0x9000 user_code example_mapper) = Ok () \<and>
   translate Aarch64 (snd (map_page Aarch64 0x80000000 0x9000 user_code example_mapper)) 0x80000123 =
     Some (0x9123, user_code) \<and>
   translate Aarch64 (snd (map_page Aarch64 0x80000000 0x9000 user_code example_mapper)) 0x80001000 = None"
proof -
  have "flags_ok user_code" "representable Aarch64 0x9000" by code_simp+
  note t = map_page_exact [OF disjI1 [OF refl] example_inv(1) this, of "0x80000000"]
  have h: "in_half Aarch64 Low 0x80000000" "va_page 0x80000000 = 0x80000000" "va_page 0x9000 = 0x9000"
    "va_page 0x80000123 = 0x80000000" "va_page 0x80001000 = 0x80001000"
    "0x9000 + (0x80000123 :: u64) mod PAGE_SIZE = 0x9123"
    by code_simp+
  have ok: "fst (map_page Aarch64 0x80000000 0x9000 user_code example_mapper) = Ok ()"
    using t h example_frames [of 3] example_format example_free(1)
    by (auto split: sum.splits)
  then show ?thesis using t h example_free(1) by simp
qed

theorem map_unmap_roundtrip_witness:
  "\<exists>mp1 mp2. map_page Sv39 0x80000000 0x9000 user_rodata example_mapper = (Ok (), mp1) \<and>
    translate Sv39 mp1 0x80000000 = Some (0x9000, user_rodata) \<and>
    fst (map_page Sv39 0x80000000 0x9000 user_rodata mp1) = Err AlreadyMapped \<and>
    unmap_page Sv39 0x80000000 mp1 = (Ok (0x9000, TlbFlush 0x80000000), mp2) \<and>
    translate Sv39 mp2 = translate Sv39 example_mapper \<and>
    unmap_page Sv39 0x80000000 mp2 = (Err NotMapped, mp2)"
proof -
  have e: "flags_ok user_rodata" "representable Sv39 0x9000"
    "in_half Sv39 (half_of example_mapper) 0x80000000"
    "va_page 0x80000000 = 0x80000000" "va_page 0x9000 = 0x9000" by code_simp+
  have "frames_in_hand example_mapper (LEVELS Sv39 - 1)"
    by (simp add: example_frames example_format)
  from map_unmap_roundtrip [OF disjI2 [OF refl] example_inv(2) e example_free(2) this]
  show ?thesis .
qed

theorem identity_domain_exact_witness:
  "\<exists>mp. build_identity_domain Sv39 0x1000 [Some 0x2000, Some 0x3000, Some 0x4000, Some 0x5000]
     (\<lambda>_. page_table_new) [\<lparr>dma_base = 0x80000000, dma_size = 0x1800\<rparr>] = (Ok (), mp) \<and>
   translate Sv39 mp 0x80000123 = Some (0x80000123, user_data) \<and>
   translate Sv39 mp 0x80001000 = None"
proof -
  let ?g = "\<lparr>dma_base = 0x80000000, dma_size = 0x1800\<rparr> :: dma_region"
  have e: "grant_pages ?g = Ok 1" "grant_page ?g 0 = Some 0x80000000" "[0..<unat (1 :: u64)] = [0]"
    "in_grant ?g 0x80000123" "\<not> in_grant ?g 0x80001000"
    by (simp_all add: grant_pages_def grant_page_def is_multiple_of_def PAGE_SIZE_def checked_add_def
      checked_mul_def in_grant_def)
  have h: "in_half Sv39 (half_of example_mapper) 0x80000000" "va_page 0x80000000 = 0x80000000" by code_simp+
  have rep: "representable Sv39 0x80000000" by code_simp
  obtain r mp where m: "map_page Sv39 0x80000000 0x80000000 user_data example_mapper = (r, mp)" by force
  from page_format_laws.map_page_spec [OF hardware_formats [OF disjI2 [OF refl]] example_inv(2) user_data_ok rep m]
  have r: "r = Ok ()"
    using h example_frames [of 2] example_free(2) example_format by (cases r) auto
  have "build_identity_domain Sv39 0x1000 [Some 0x2000, Some 0x3000, Some 0x4000, Some 0x5000]
     (\<lambda>_. page_table_new) [?g] = (Ok (), mp)"
    using m r e unfolding build_identity_domain_def example_mapper_def by simp
  from identity_domain_exact [OF disjI2 [OF refl] example_fresh(2) [unfolded example_mapper_def] this] this
  show ?thesis using e by auto
qed

end
