(* ===== verification/Capability.thy ===== *)
theory Capability
  imports Prelude
begin

text \<open>
  The capability model of \<open>src/crates/capability/src/lib.rs\<close>: rights as a bit set, capabilities,
  the flat capability table \<open>CSpace\<close> with its operations, and the two supervision decisions
  \<open>reap_decision\<close> and \<open>survey_includes\<close>. A table of const-generic size \<open>N\<close> is a list of
  length \<open>N\<close>; an operation that mutates the table returns its result together with the new
  table, and on an error path the table it returns is the one the code leaves behind.
\<close>

section \<open>Rights\<close>

datatype rights = Rights (bits: u32)

definition RIGHTS_NONE :: rights where
  "RIGHTS_NONE = Rights 0"

definition RIGHTS_READ :: rights where
  "RIGHTS_READ = Rights (push_bit 0 1)"

definition RIGHTS_WRITE :: rights where
  "RIGHTS_WRITE = Rights (push_bit 1 1)"

definition RIGHTS_GRANT :: rights where
  "RIGHTS_GRANT = Rights (push_bit 2 1)"

definition RIGHTS_ENUMERATE :: rights where
  "RIGHTS_ENUMERATE = Rights (push_bit 3 1)"

definition RIGHTS_ALL :: rights where
  "RIGHTS_ALL = Rights 0b1111"

definition from_bits :: "u32 \<Rightarrow> rights" where
  "from_bits b = Rights (b AND bits RIGHTS_ALL)"

definition rights_union :: "rights \<Rightarrow> rights \<Rightarrow> rights" where
  "rights_union a b = Rights (bits a OR bits b)"

definition rights_intersect :: "rights \<Rightarrow> rights \<Rightarrow> rights" where
  "rights_intersect a b = Rights (bits a AND bits b)"

definition allows :: "rights \<Rightarrow> rights \<Rightarrow> bool" where
  "allows a needed \<longleftrightarrow> bits a AND bits needed = bits needed"

definition is_subset_of :: "rights \<Rightarrow> rights \<Rightarrow> bool" where
  "is_subset_of a b \<longleftrightarrow> bits a AND NOT (bits b) = 0"

lemmas rights_consts =
  RIGHTS_NONE_def RIGHTS_READ_def RIGHTS_WRITE_def RIGHTS_GRANT_def RIGHTS_ENUMERATE_def
  RIGHTS_ALL_def

lemma rights_eqI: "(\<And>i. bit (bits a) i = bit (bits b) i) \<Longrightarrow> a = b"
  by (metis bit_eq_iff rights.expand)

lemma bit_u32_less: "bit (w :: u32) i \<Longrightarrow> i < 32"
  using bit_imp_le_length [of w i] by simp

lemma is_subset_of_bits [word_bits]:
  "is_subset_of a b \<longleftrightarrow> (\<forall>i. bit (bits a) i \<longrightarrow> bit (bits b) i)"
  by (auto simp: is_subset_of_def bit_eq_iff bit_and_iff bit_not_iff dest: bit_u32_less)

lemma allows_bits [word_bits]:
  "allows a needed \<longleftrightarrow> (\<forall>i. bit (bits needed) i \<longrightarrow> bit (bits a) i)"
  by (auto simp: allows_def bit_eq_iff bit_and_iff dest: bit_u32_less)

lemma allows_iff_subset: "allows a needed \<longleftrightarrow> is_subset_of needed a"
  by (simp add: allows_bits is_subset_of_bits)

text \<open>
  Rights are a lattice under \<open>is_subset_of\<close>: the order of the type class is the code's subset
  test, meet and join are its \<open>intersect\<close> and \<open>union\<close>, so the order library applies.
\<close>

instantiation rights :: lattice
begin

definition less_eq_rights :: "rights \<Rightarrow> rights \<Rightarrow> bool" where
  "less_eq_rights a b = is_subset_of a b"

definition less_rights :: "rights \<Rightarrow> rights \<Rightarrow> bool" where
  "less_rights a b = (is_subset_of a b \<and> \<not> is_subset_of b a)"

definition inf_rights :: "rights \<Rightarrow> rights \<Rightarrow> rights" where
  "inf_rights a b = rights_intersect a b"

definition sup_rights :: "rights \<Rightarrow> rights \<Rightarrow> rights" where
  "sup_rights a b = rights_union a b"

instance
proof
  fix a b c :: rights
  show "a < b \<longleftrightarrow> a \<le> b \<and> \<not> b \<le> a"
    by (simp add: less_rights_def less_eq_rights_def)
  show "a \<le> a"
    by (simp add: less_eq_rights_def is_subset_of_bits)
  show "a \<le> c" if "a \<le> b" and "b \<le> c"
    using that by (simp add: less_eq_rights_def is_subset_of_bits)
  show "a = b" if "a \<le> b" and "b \<le> a"
    using that by (auto simp: less_eq_rights_def is_subset_of_bits intro: rights_eqI)
  show "inf a b \<le> a" and "inf a b \<le> b"
    by (simp_all add: less_eq_rights_def inf_rights_def rights_intersect_def is_subset_of_bits
        bit_simps)
  show "a \<le> inf b c" if "a \<le> b" and "a \<le> c"
    using that by (simp add: less_eq_rights_def inf_rights_def rights_intersect_def
        is_subset_of_bits bit_simps)
  show "a \<le> sup a b" and "b \<le> sup a b"
    by (simp_all add: less_eq_rights_def sup_rights_def rights_union_def is_subset_of_bits
        bit_simps)
  show "sup b c \<le> a" if "b \<le> a" and "c \<le> a"
    using that by (auto simp: less_eq_rights_def sup_rights_def rights_union_def
        is_subset_of_bits bit_simps)
qed

end

lemma le_rights_bits [word_bits]:
  "a \<le> b \<longleftrightarrow> (\<forall>i. bit (bits a) i \<longrightarrow> bit (bits b) i)"
  by (simp add: less_eq_rights_def is_subset_of_bits)

lemma is_subset_of_le [simp]: "is_subset_of a b \<longleftrightarrow> a \<le> b"
  by (simp add: less_eq_rights_def)

lemma allows_le [simp]: "allows a b \<longleftrightarrow> b \<le> a"
  by (simp add: allows_iff_subset)

lemma from_bits_le_all: "from_bits b \<le> RIGHTS_ALL"
  by (simp add: le_rights_bits from_bits_def bit_and_iff)

lemma from_bits_bits:
  assumes "a \<le> RIGHTS_ALL"
  shows "from_bits (bits a) = a"
proof (rule rights_eqI)
  fix i
  from assms have "bit (bits a) i \<Longrightarrow> bit (bits RIGHTS_ALL) i"
    by (simp add: le_rights_bits)
  then show "bit (bits (from_bits (bits a))) i = bit (bits a) i"
    by (auto simp: from_bits_def bit_and_iff)
qed

section \<open>Capabilities and the supervision decisions\<close>

record 'o cap =
  object :: 'o
  rights :: rights

definition mint_child :: "'o cap \<Rightarrow> 'o \<Rightarrow> 'o cap" where
  "mint_child c obj = \<lparr>object = obj, rights = rights c\<rparr>"

datatype reap = Permitted | StillAlive | NotSupervised

definition reap_decision :: "u64 option \<Rightarrow> u64 \<Rightarrow> bool \<Rightarrow> reap" where
  "reap_decision fault_ep invoked_ep dead =
     (case fault_ep of
        Some ep \<Rightarrow>
          if ep = invoked_ep then (if dead then Permitted else StillAlive) else NotSupervised
      | None \<Rightarrow> NotSupervised)"

definition survey_includes :: "u64 option \<Rightarrow> u64 \<Rightarrow> bool" where
  "survey_includes fault_ep invoked_ep =
     (case fault_ep of Some ep \<Rightarrow> ep = invoked_ep | None \<Rightarrow> False)"

section \<open>The capability table\<close>

datatype cap_error = NoSuchSlot | CannotWiden | NoFreeSlot

record 'o cspace =
  cs_slots :: "'o cap option list"

definition cspace_new :: "nat \<Rightarrow> 'o cspace" where
  "cspace_new n = \<lparr>cs_slots = replicate n None\<rparr>"

definition cspace_len :: "'o cspace \<Rightarrow> nat" where
  "cspace_len cs = length (cs_slots cs)"

definition cspace_is_empty :: "'o cspace \<Rightarrow> bool" where
  "cspace_is_empty cs = list_all (\<lambda>s. s = None) (cs_slots cs)"

definition cspace_get :: "'o cspace \<Rightarrow> u64 \<Rightarrow> cap_error + 'o cap" where
  "cspace_get cs slot =
     (case slice_get (cs_slots cs) (unat slot) of
        Some (Some c) \<Rightarrow> Ok c
      | _ \<Rightarrow> Err NoSuchSlot)"

definition cspace_get_with :: "'o cspace \<Rightarrow> u64 \<Rightarrow> rights \<Rightarrow> cap_error + 'o cap" where
  "cspace_get_with cs slot needed =
     (case cspace_get cs slot of
        Inl e \<Rightarrow> Err e
      | Inr c \<Rightarrow> if \<not> allows (rights c) needed then Err CannotWiden else Ok c)"

definition cspace_insert :: "'o cspace \<Rightarrow> 'o cap \<Rightarrow> (cap_error + u64) \<times> 'o cspace" where
  "cspace_insert cs c =
     (case position (\<lambda>s. s = None) (cs_slots cs) of
        None \<Rightarrow> (Err NoFreeSlot, cs)
      | Some slot \<Rightarrow> (Ok (of_nat slot), cs\<lparr>cs_slots := (cs_slots cs)[slot := Some c]\<rparr>))"

definition cspace_insert_at ::
  "'o cspace \<Rightarrow> u64 \<Rightarrow> 'o cap \<Rightarrow> (cap_error + u64) \<times> 'o cspace" where
  "cspace_insert_at cs slot c =
     (case slice_get (cs_slots cs) (unat slot) of
        None \<Rightarrow> (Err NoSuchSlot, cs)
      | Some (Some _) \<Rightarrow> (Err NoFreeSlot, cs)
      | Some None \<Rightarrow> (Ok slot, cs\<lparr>cs_slots := (cs_slots cs)[unat slot := Some c]\<rparr>))"

definition cspace_put :: "'o cspace \<Rightarrow> u64 \<Rightarrow> 'o cap \<Rightarrow> (cap_error + unit) \<times> 'o cspace" where
  "cspace_put cs slot c =
     (case slice_get (cs_slots cs) (unat slot) of
        None \<Rightarrow> (Err NoSuchSlot, cs)
      | Some _ \<Rightarrow> (Ok (), cs\<lparr>cs_slots := (cs_slots cs)[unat slot := Some c]\<rparr>))"

definition cspace_derive ::
  "'o cspace \<Rightarrow> u64 \<Rightarrow> u64 \<Rightarrow> rights \<Rightarrow> (cap_error + unit) \<times> 'o cspace" where
  "cspace_derive cs from to r =
     (case cspace_get cs from of
        Inl e \<Rightarrow> (Err e, cs)
      | Inr src \<Rightarrow>
          if \<not> is_subset_of r (rights src) then (Err CannotWiden, cs)
          else cspace_put cs to \<lparr>object = object src, rights = r\<rparr>)"

definition cspace_delete :: "'o cspace \<Rightarrow> u64 \<Rightarrow> (cap_error + unit) \<times> 'o cspace" where
  "cspace_delete cs slot =
     (case slice_get (cs_slots cs) (unat slot) of
        None \<Rightarrow> (Err NoSuchSlot, cs)
      | Some None \<Rightarrow> (Err NoSuchSlot, cs)
      | Some (Some _) \<Rightarrow> (Ok (), cs\<lparr>cs_slots := (cs_slots cs)[unat slot := None]\<rparr>))"

section \<open>Lemmas on the table\<close>

text \<open>
  A table is well formed for \<open>N\<close> slots when its list has that length and \<open>N\<close> fits the
  64-bit slot index that crosses the system call boundary.
\<close>

definition cspace_wf :: "nat \<Rightarrow> 'o cspace \<Rightarrow> bool" where
  "cspace_wf n cs \<longleftrightarrow> length (cs_slots cs) = n \<and> n < 2 ^ 64"

text \<open>The capability a slot holds, as a map: the abstract view of a table.\<close>

definition cap_at :: "'o cspace \<Rightarrow> u64 \<Rightarrow> 'o cap option" where
  "cap_at cs slot = (case cspace_get cs slot of Inl _ \<Rightarrow> None | Inr c \<Rightarrow> Some c)"

lemma cap_at_alt:
  "cap_at cs slot =
     (if unat slot < length (cs_slots cs) then cs_slots cs ! unat slot else None)"
  by (auto simp: cap_at_def cspace_get_def slice_get_def split: option.splits)

lemma cspace_get_cases:
  "cspace_get cs slot = (case cap_at cs slot of Some c \<Rightarrow> Ok c | None \<Rightarrow> Err NoSuchSlot)"
  by (auto simp: cap_at_def cspace_get_def split: option.splits)

lemma cspace_get_Ok_iff: "cspace_get cs slot = Ok c \<longleftrightarrow> cap_at cs slot = Some c"
  by (simp add: cspace_get_cases split: option.splits)

lemma cspace_get_Err_iff:
  "cspace_get cs slot = Err e \<longleftrightarrow> cap_at cs slot = None \<and> e = NoSuchSlot"
  by (auto simp: cspace_get_cases split: option.splits)

lemma cap_at_None_of_range: "length (cs_slots cs) \<le> unat slot \<Longrightarrow> cap_at cs slot = None"
  by (simp add: cap_at_alt)

lemma cap_at_new [simp]: "cap_at (cspace_new n) slot = None"
  by (simp add: cap_at_alt cspace_new_def)

lemma cap_at_update:
  assumes "unat slot < length (cs_slots cs)"
  shows "cap_at (cs\<lparr>cs_slots := (cs_slots cs)[unat slot := v]\<rparr>) = (cap_at cs)(slot := v)"
proof
  fix s
  show "cap_at (cs\<lparr>cs_slots := (cs_slots cs)[unat slot := v]\<rparr>) s = ((cap_at cs)(slot := v)) s"
    using assms by (cases "s = slot") (auto simp: cap_at_alt nth_list_update)
qed

lemma cspace_put_ok:
  assumes "unat slot < length (cs_slots cs)"
  shows "fst (cspace_put cs slot c) = Ok ()"
    and "cap_at (snd (cspace_put cs slot c)) = (cap_at cs)(slot \<mapsto> c)"
  using assms by (auto simp: cspace_put_def cap_at_update slice_get_def)

lemma cspace_put_err:
  "length (cs_slots cs) \<le> unat slot \<Longrightarrow> cspace_put cs slot c = (Err NoSuchSlot, cs)"
  by (simp add: cspace_put_def slice_get_def)

lemma cspace_delete_cases:
  "cspace_delete cs slot =
     (case cap_at cs slot of
        None \<Rightarrow> (Err NoSuchSlot, cs)
      | Some _ \<Rightarrow> (Ok (), cs\<lparr>cs_slots := (cs_slots cs)[unat slot := None]\<rparr>))"
  by (auto simp: cspace_delete_def cap_at_alt slice_get_def split: option.splits)

lemma cap_at_SomeD: "cap_at cs slot = Some c \<Longrightarrow> unat slot < length (cs_slots cs)"
  by (simp add: cap_at_alt split: if_splits)

lemma cap_at_delete: "cap_at (snd (cspace_delete cs slot)) = (cap_at cs)(slot := None)"
  by (auto simp: cspace_delete_cases cap_at_update dest: cap_at_SomeD split: option.splits)

text \<open>The slot that \<open>insert\<close> fills is the first free one, and it is in range.\<close>

lemma cspace_insert_cases:
  assumes wf: "cspace_wf n cs"
  obtains (full) "cspace_insert cs c = (Err NoFreeSlot, cs)" "\<forall>i < n. cs_slots cs ! i \<noteq> None"
  | (placed) slot where "fst (cspace_insert cs c) = Ok slot" "unat slot < n"
      "cap_at cs slot = None" "cap_at (snd (cspace_insert cs c)) = (cap_at cs)(slot \<mapsto> c)"
      "\<forall>i < unat slot. cs_slots cs ! i \<noteq> None"
proof (cases "position (\<lambda>s. s = None) (cs_slots cs)")
  case None
  have "\<forall>i < n. cs_slots cs ! i \<noteq> None"
    using None wf by (auto simp: position_None_iff cspace_wf_def all_set_conv_all_nth)
  moreover have "cspace_insert cs c = (Err NoFreeSlot, cs)"
    using None by (simp add: cspace_insert_def)
  ultimately show thesis using full by blast
next
  case (Some i)
  let ?slot = "of_nat i :: u64"
  have i: "i < n" "i < length (cs_slots cs)" "cs_slots cs ! i = None"
      "\<forall>j < i. cs_slots cs ! j \<noteq> None"
    using Some wf by (auto simp: position_Some_iff cspace_wf_def)
  have u: "unat ?slot = i"
    using i wf by (simp add: cspace_wf_def unat_of_nat)
  show thesis
  proof (rule placed [of ?slot])
    show "fst (cspace_insert cs c) = Ok ?slot"
      using Some by (simp add: cspace_insert_def)
    show "cap_at (snd (cspace_insert cs c)) = (cap_at cs)(?slot \<mapsto> c)"
      using Some u cap_at_update [of ?slot cs "Some c"] i by (simp add: cspace_insert_def)
  qed (use i u in \<open>auto simp: cap_at_alt\<close>)
qed

lemma cspace_ops_wf:
  assumes "cspace_wf n cs"
  shows "cspace_wf n (snd (cspace_insert cs c))" "cspace_wf n (snd (cspace_insert_at cs slot c))"
    and "cspace_wf n (snd (cspace_put cs slot c))" "cspace_wf n (snd (cspace_derive cs f t r))"
    and "cspace_wf n (snd (cspace_delete cs slot))"
  using assms
  by (auto simp: cspace_wf_def cspace_insert_def cspace_insert_at_def cspace_put_def
      cspace_derive_def cspace_delete_def split: option.splits sum.splits)

lemma cspace_wf_new: "n < 2 ^ 64 \<Longrightarrow> cspace_wf n (cspace_new n)"
  by (simp add: cspace_wf_def cspace_new_def)

section \<open>Authority\<close>

text \<open>
  A capability is dominated by another when it names the same object with no more rights. The
  steps below are everything that can happen to a table: a capability from the set \<open>G\<close> is handed
  in from outside (by \<open>insert\<close>, \<open>insert_at\<close> or \<open>put\<close>), or the table is changed by its own
  \<open>derive\<close> and \<open>delete\<close>.
\<close>

definition dominated :: "'o cap \<Rightarrow> 'o cap \<Rightarrow> bool" where
  "dominated c g \<longleftrightarrow> object c = object g \<and> rights c \<le> rights g"

inductive cspace_step :: "'o cap set \<Rightarrow> 'o cspace \<Rightarrow> 'o cspace \<Rightarrow> bool" for G where
  step_insert: "c \<in> G \<Longrightarrow> cspace_step G cs (snd (cspace_insert cs c))"
| step_insert_at: "c \<in> G \<Longrightarrow> cspace_step G cs (snd (cspace_insert_at cs slot c))"
| step_put: "c \<in> G \<Longrightarrow> cspace_step G cs (snd (cspace_put cs slot c))"
| step_derive: "cspace_step G cs (snd (cspace_derive cs from to r))"
| step_delete: "cspace_step G cs (snd (cspace_delete cs slot))"

inductive cspace_reachable :: "'o cap set \<Rightarrow> nat \<Rightarrow> 'o cspace \<Rightarrow> bool" for G n where
  reach_new: "n < 2 ^ 64 \<Longrightarrow> cspace_reachable G n (cspace_new n)"
| reach_step: "cspace_reachable G n cs \<Longrightarrow> cspace_step G cs cs' \<Longrightarrow> cspace_reachable G n cs'"

definition confined :: "'o cap set \<Rightarrow> 'o cspace \<Rightarrow> bool" where
  "confined G cs \<longleftrightarrow> (\<forall>slot c. cap_at cs slot = Some c \<longrightarrow> (\<exists>g \<in> G. dominated c g))"

lemma confined_update:
  assumes "confined G cs" and "cap_at cs' = (cap_at cs)(slot := v)"
    and "\<And>c. v = Some c \<Longrightarrow> \<exists>g \<in> G. dominated c g"
  shows "confined G cs'"
  using assms by (auto simp: confined_def)

lemma dominated_refl [intro]: "dominated c c"
  by (simp add: dominated_def)

lemma dominated_trans: "dominated a b \<Longrightarrow> dominated b c \<Longrightarrow> dominated a c"
  by (auto simp: dominated_def intro: order_trans)

lemma cap_at_put:
  "cap_at (snd (cspace_put cs slot c)) =
     (if unat slot < length (cs_slots cs) then (cap_at cs)(slot \<mapsto> c) else cap_at cs)"
  by (simp add: cspace_put_ok cspace_put_err)

lemma cap_at_insert_at:
  "cap_at (snd (cspace_insert_at cs slot c)) =
     (if unat slot < length (cs_slots cs) \<and> cap_at cs slot = None
      then (cap_at cs)(slot \<mapsto> c) else cap_at cs)"
  by (auto simp: cspace_insert_at_def cap_at_update cap_at_alt slice_get_def
      split: option.splits)

lemma confined_put:
  assumes "confined G cs" and "dominated c g" and "g \<in> G"
  shows "confined G (snd (cspace_put cs slot c))"
  using assms by (auto simp: confined_def cap_at_put)

lemma cspace_step_wf: "cspace_step G cs cs' \<Longrightarrow> cspace_wf n cs \<Longrightarrow> cspace_wf n cs'"
  by (induction rule: cspace_step.induct) (auto intro: cspace_ops_wf)

lemma cspace_step_confined:
  assumes "cspace_step G cs cs'" and "cspace_wf n cs" and "confined G cs"
  shows "confined G cs'"
  using assms
proof (induction rule: cspace_step.induct)
  case (step_insert c cs)
  from step_insert.prems(1) show ?case
  proof (cases rule: cspace_insert_cases [where c = c])
    case full
    with step_insert show ?thesis by simp
  next
    case (placed slot)
    with step_insert show ?thesis by (auto intro: confined_update)
  qed
next
  case (step_insert_at c cs slot)
  then show ?case by (auto simp: confined_def cap_at_insert_at)
next
  case (step_put c cs slot)
  then show ?case by (auto intro: confined_put)
next
  case (step_derive cs f t r)
  show ?case
  proof (cases "cap_at cs f")
    case (Some src)
    with step_derive obtain g where g: "g \<in> G" "dominated src g"
      by (auto simp: confined_def)
    then have "dominated \<lparr>object = object src, rights = r\<rparr> g" if "r \<le> rights src"
      using that by (auto simp: dominated_def)
    with g Some step_derive show ?thesis
      by (auto simp: cspace_derive_def cspace_get_cases intro: confined_put)
  qed (use step_derive in \<open>simp add: cspace_derive_def cspace_get_cases\<close>)
next
  case (step_delete cs slot)
  then show ?case by (auto simp: confined_def cap_at_delete)
qed

lemma cspace_reachable_wf: "cspace_reachable G n cs \<Longrightarrow> cspace_wf n cs"
  by (induction rule: cspace_reachable.induct) (auto intro: cspace_wf_new cspace_step_wf)

lemma cspace_reachable_confined: "cspace_reachable G n cs \<Longrightarrow> confined G cs"
proof (induction rule: cspace_reachable.induct)
  case reach_new
  then show ?case by (simp add: confined_def)
next
  case (reach_step cs cs')
  then show ?case by (blast intro: cspace_step_confined cspace_reachable_wf)
qed

section \<open>Properties\<close>

text \<open>C15. No ambient authority: whatever sequence of grants, derivations and deletions has acted on
  a table that started empty, every capability it holds names an object that a granted capability
  named, with rights no greater than that grant carried.\<close>

theorem cspace_authority_confined:
  assumes "cspace_reachable G n cs" and "cspace_get cs slot = Ok c"
  shows "\<exists>g \<in> G. object c = object g \<and> is_subset_of (rights c) (rights g)"
  using cspace_reachable_confined [OF assms(1)] assms(2)
  by (auto simp: confined_def cspace_get_Ok_iff dominated_def)

lemma cspace_authority_confined_witness:
  "let g = \<lparr>object = 7 :: nat, rights = rights_union RIGHTS_READ RIGHTS_WRITE\<rparr>;
       cs = snd (cspace_derive (snd (cspace_put (cspace_new 4) 0 g)) 0 1 RIGHTS_READ)
   in cspace_get cs 1 = Ok \<lparr>object = 7, rights = RIGHTS_READ\<rparr> \<and>
      (\<exists>g' \<in> {g}. 7 = object g' \<and> is_subset_of RIGHTS_READ (rights g'))"
proof -
  let ?g = "\<lparr>object = 7 :: nat, rights = rights_union RIGHTS_READ RIGHTS_WRITE\<rparr>"
  let ?cs1 = "snd (cspace_put (cspace_new 4) 0 ?g)"
  let ?cs = "snd (cspace_derive ?cs1 0 1 RIGHTS_READ)"
  have "cspace_reachable {?g} 4 ?cs1"
    by (rule reach_step [OF reach_new step_put]) simp_all
  then have r: "cspace_reachable {?g} 4 ?cs"
    by (rule reach_step [OF _ step_derive])
  have ok: "cspace_get ?cs 1 = Ok \<lparr>object = 7, rights = RIGHTS_READ\<rparr>"
    by code_simp
  from cspace_authority_confined [OF r ok] ok show ?thesis by (simp add: Let_def)
qed

text \<open>C35. What \<open>derive\<close> does on every branch: it succeeds exactly when the source slot is occupied,
  the requested rights are a subset of the source's and the target is in range; then the target slot
  alone changes, to the source's object with exactly the requested rights. On an error the table
  is unchanged.\<close>

theorem cspace_derive_effect:
  "(fst (cspace_derive cs src dst r) = Ok () \<longleftrightarrow>
      (\<exists>c. cspace_get cs src = Ok c \<and> is_subset_of r (rights c)) \<and> unat dst < cspace_len cs)
   \<and> (case cspace_derive cs src dst r of
        (Inr _, cs') \<Rightarrow> \<exists>c. cspace_get cs src = Ok c \<and> is_subset_of r (rights c) \<and>
          cspace_get cs' = (cspace_get cs)(dst := Ok \<lparr>object = object c, rights = r\<rparr>)
      | (Inl _, cs') \<Rightarrow> cs' = cs)"
proof (cases "cap_at cs src")
  case None
  then show ?thesis by (simp add: cspace_derive_def cspace_get_cases)
next
  case (Some c)
  show ?thesis
  proof (cases "r \<le> rights c \<and> unat dst < cspace_len cs")
    case True
    then have "fst (cspace_derive cs src dst r) = Ok ()"
      "cap_at (snd (cspace_derive cs src dst r)) =
         (cap_at cs)(dst \<mapsto> \<lparr>object = object c, rights = r\<rparr>)"
      using Some by (auto simp: cspace_derive_def cspace_get_cases cspace_put_ok cspace_len_def)
    with Some True show ?thesis
      by (cases "cspace_derive cs src dst r") (auto simp: cspace_get_cases fun_eq_iff)
  next
    case False
    with Some show ?thesis
      by (auto simp: cspace_derive_def cspace_get_cases cspace_put_err cspace_len_def not_less)
  qed
qed

text \<open>C36. Deletion is final and local: a successful \<open>delete\<close> leaves the slot empty for \<open>get\<close> and for
  a second \<open>delete\<close>, and every other slot answers as before. This is the consume-on-use step behind
  the one-shot reply capability.\<close>

theorem cspace_delete_final:
  assumes "cspace_delete cs slot = (Ok (), cs')"
  shows "cspace_get cs' slot = Err NoSuchSlot
    \<and> cspace_delete cs' slot = (Err NoSuchSlot, cs')
    \<and> (\<forall>other. other \<noteq> slot \<longrightarrow> cspace_get cs' other = cspace_get cs other)"
proof -
  have "cap_at cs' = (cap_at cs)(slot := None)"
    using cap_at_delete [of cs slot] assms by simp
  then show ?thesis
    by (auto simp: cspace_get_cases cspace_delete_cases)
qed

lemma cspace_delete_final_witness:
  "let cs = snd (cspace_insert (cspace_new 2) \<lparr>object = 5 :: nat, rights = RIGHTS_WRITE\<rparr>);
       cs' = snd (cspace_delete cs 0)
   in cspace_delete cs 0 = (Ok (), cs') \<and> cspace_delete cs' 0 = (Err NoSuchSlot, cs')"
proof -
  let ?cs = "snd (cspace_insert (cspace_new 2) \<lparr>object = 5 :: nat, rights = RIGHTS_WRITE\<rparr>)"
  have "cspace_delete ?cs 0 = (Ok (), snd (cspace_delete ?cs 0))"
    by code_simp
  with cspace_delete_final [OF this] show ?thesis by (simp add: Let_def)
qed

text \<open>C38. \<open>insert\<close> never displaces a capability: it takes the lowest free slot and reports its index,
  leaving every other slot as it was, and it fails, changing nothing, exactly when no slot is free.
  The hypothesis says that the table has the size of its type.\<close>

theorem cspace_insert_first_free:
  assumes "cspace_wf n cs"
  shows "case cspace_insert cs c of
      (Inr slot, cs') \<Rightarrow> unat slot < n \<and> cspace_get cs slot = Err NoSuchSlot
        \<and> cspace_get cs' = (cspace_get cs)(slot := Ok c)
        \<and> (\<forall>lower < slot. \<exists>c'. cspace_get cs lower = Ok c')
    | (Inl e, cs') \<Rightarrow> e = NoFreeSlot \<and> cs' = cs
        \<and> (\<forall>slot. unat slot < n \<longrightarrow> (\<exists>c'. cspace_get cs slot = Ok c'))"
  using assms
proof (cases rule: cspace_insert_cases [where c = c])
  case full
  with assms show ?thesis
    by (auto simp: cspace_get_Ok_iff cap_at_alt cspace_wf_def)
next
  case (placed slot)
  have "\<exists>c'. cspace_get cs lower = Ok c'" if "lower < slot" for lower
    using that placed assms
    by (auto simp: cspace_get_Ok_iff cap_at_alt cspace_wf_def word_less_nat_alt)
  moreover have "cspace_get (snd (cspace_insert cs c)) = (cspace_get cs)(slot := Ok c)"
    using placed by (auto simp: cspace_get_cases fun_eq_iff)
  ultimately show ?thesis
    using placed by (cases "cspace_insert cs c") (auto simp: cspace_get_Err_iff)
qed

lemma cspace_insert_first_free_witness:
  "cspace_wf 2 (cspace_new 2 :: nat cspace) \<and>
   fst (cspace_insert (cspace_new 2) \<lparr>object = 5 :: nat, rights = RIGHTS_READ\<rparr>) = Ok 0 \<and>
   cspace_get (snd (cspace_insert (cspace_new 2) \<lparr>object = 5 :: nat, rights = RIGHTS_READ\<rparr>)) 0
     = Ok \<lparr>object = 5, rights = RIGHTS_READ\<rparr>"
proof -
  let ?c = "\<lparr>object = 5 :: nat, rights = RIGHTS_READ\<rparr>"
  have wf: "cspace_wf 2 (cspace_new 2 :: nat cspace)"
    by (rule cspace_wf_new) simp
  have ok: "fst (cspace_insert (cspace_new 2) ?c) = Ok 0"
    by code_simp
  from cspace_insert_first_free [OF wf, of ?c] ok wf show ?thesis
    by (cases "cspace_insert (cspace_new 2) ?c") auto
qed

end
