(* ===== verification/Intrusive.thy ===== *)
theory Intrusive
  imports Prelude
begin

text \<open>
  The intrusive FIFO of \<open>src/crates/intrusive/src/lib.rs\<close>. The queue is two pointers and a
  count; the links live in the nodes, so they are an explicit heap \<open>'p \<Rightarrow> 'p option\<close> that every
  operation reads and writes and that several queues share. The caller's contract of the crate (a
  node is on at most one queue) is the hypothesis \<open>n \<notin> set xs\<close> of the laws, where \<open>xs\<close> is the list
  of nodes the queue holds. The locale \<open>linked_queue\<close> is the interface that the endpoints and the
  scheduler rely on; it is interpreted here on the code's operations.
\<close>

type_synonym 'p links = "'p \<Rightarrow> 'p option"

record 'p fifo =
  fifo_head :: "'p option"
  fifo_tail :: "'p option"
  fifo_count :: nat

definition fifo_new :: "'p fifo" where
  "fifo_new = \<lparr>fifo_head = None, fifo_tail = None, fifo_count = 0\<rparr>"

definition fifo_is_empty :: "'p fifo \<Rightarrow> bool" where
  "fifo_is_empty q \<longleftrightarrow> fifo_head q = None"

definition fifo_len :: "'p fifo \<Rightarrow> nat" where
  "fifo_len q = fifo_count q"

definition push_back :: "'p links \<Rightarrow> 'p fifo \<Rightarrow> 'p \<Rightarrow> 'p links \<times> 'p fifo" where
  "push_back h q node =
     (let h1 = h(node := None);
          (h2, q1) = (case fifo_tail q of
              Some t \<Rightarrow> (h1(t := Some node), q)
            | None \<Rightarrow> (h1, q\<lparr>fifo_head := Some node\<rparr>))
      in (h2, q1\<lparr>fifo_tail := Some node, fifo_count := fifo_count q1 + 1\<rparr>))"

definition pop_front :: "'p links \<Rightarrow> 'p fifo \<Rightarrow> 'p option \<times> 'p links \<times> 'p fifo" where
  "pop_front h q =
     (case fifo_head q of
        None \<Rightarrow> (None, h, q)
      | Some node \<Rightarrow>
          let q1 = q\<lparr>fifo_head := h node\<rparr>;
              q2 = (if fifo_head q1 = None then q1\<lparr>fifo_tail := None\<rparr> else q1)
          in (Some node, h(node := None), q2\<lparr>fifo_count := fifo_count q2 - 1\<rparr>))"

section \<open>The list a queue represents\<close>

fun linked :: "'p links \<Rightarrow> 'p option \<Rightarrow> 'p list \<Rightarrow> bool" where
  "linked h start [] = (start = None)"
| "linked h start (x # xs) = (start = Some x \<and> linked h (h x) xs)"

definition fifo_rep :: "'p links \<Rightarrow> 'p fifo \<Rightarrow> 'p list \<Rightarrow> bool" where
  "fifo_rep h q xs \<longleftrightarrow> distinct xs \<and> linked h (fifo_head q) xs
     \<and> fifo_tail q = (if xs = [] then None else Some (last xs)) \<and> fifo_count q = length xs"

lemma linked_frame: "\<forall>p \<in> set xs. h p = h' p \<Longrightarrow> linked h s xs = linked h' s xs"
  by (induction xs arbitrary: s) auto

lemma linked_update_notin [simp]: "p \<notin> set xs \<Longrightarrow> linked (h(p := v)) s xs = linked h s xs"
  by (rule linked_frame) auto

lemma linked_snoc:
  assumes "linked h s xs" and "xs \<noteq> []" and "distinct xs" and "n \<notin> set xs"
  shows "linked (h(n := None, last xs := Some n)) s (xs @ [n])"
  using assms
proof (induction xs arbitrary: s)
  case Nil
  then show ?case by simp
next
  case (Cons x xs)
  show ?case
  proof (cases "xs = []")
    case True
    with Cons.prems show ?thesis by auto
  next
    case False
    with Cons.prems have "x \<noteq> last xs" "x \<noteq> n" by auto
    with Cons False show ?thesis by auto
  qed
qed

lemma fifo_rep_distinct: "fifo_rep h q xs \<Longrightarrow> distinct xs"
  by (simp add: fifo_rep_def)

lemma fifo_rep_frame:
  "fifo_rep h q xs \<Longrightarrow> \<forall>p \<in> set xs. h' p = h p \<Longrightarrow> fifo_rep h' q xs"
  using linked_frame [of xs h' h "fifo_head q"] by (simp add: fifo_rep_def)

lemma fifo_rep_new: "fifo_rep h fifo_new []"
  by (simp add: fifo_rep_def fifo_new_def)

lemma fifo_rep_is_empty: "fifo_rep h q xs \<Longrightarrow> fifo_is_empty q \<longleftrightarrow> xs = []"
  by (cases xs) (auto simp: fifo_rep_def fifo_is_empty_def)

lemma fifo_rep_len: "fifo_rep h q xs \<Longrightarrow> fifo_len q = length xs"
  by (simp add: fifo_rep_def fifo_len_def)

lemma fifo_rep_unique: "fifo_rep h q xs \<Longrightarrow> fifo_rep h q ys \<Longrightarrow> xs = ys"
proof -
  have "linked h s xs \<Longrightarrow> linked h s ys \<Longrightarrow> xs = ys" for s
  proof (induction xs arbitrary: s ys)
    case Nil
    then show ?case by (cases ys) auto
  next
    case (Cons x xs)
    then show ?case by (cases ys) auto
  qed
  then show "fifo_rep h q xs \<Longrightarrow> fifo_rep h q ys \<Longrightarrow> xs = ys"
    by (auto simp: fifo_rep_def)
qed

lemma push_back_rep:
  assumes "fifo_rep h q xs" and "n \<notin> set xs" and "push_back h q n = (h', q')"
  shows "fifo_rep h' q' (xs @ [n])"
proof (cases "xs = []")
  case True
  with assms show ?thesis by (auto simp: fifo_rep_def push_back_def)
next
  case False
  with assms show ?thesis
    by (auto simp: fifo_rep_def push_back_def intro: linked_snoc)
qed

lemma push_back_links:
  assumes "fifo_rep h q xs" and "push_back h q n = (h', q')" and "p \<noteq> n" and "p \<notin> set xs"
  shows "h' p = h p"
  using assms by (auto simp: fifo_rep_def push_back_def split: if_splits)

lemma pop_front_nil:
  assumes "fifo_rep h q []"
  shows "pop_front h q = (None, h, q)"
  using assms by (simp add: fifo_rep_def pop_front_def)

lemma pop_front_cons:
  assumes "fifo_rep h q (x # xs)" and "pop_front h q = (r, h', q')"
  shows "r = Some x" and "fifo_rep h' q' xs" and "h' = h(x := None)"
proof -
  from assms(1) have "linked (h(x := None)) (h x) xs" and "h x = None \<longleftrightarrow> xs = []"
    by (cases xs; auto simp: fifo_rep_def)+
  with assms show "r = Some x" and "fifo_rep h' q' xs" and "h' = h(x := None)"
    by (auto simp: fifo_rep_def pop_front_def Let_def split: if_splits)
qed

section \<open>The interface\<close>

text \<open>
  What a client of the queue may rely on: the represented list, that pushing appends and popping
  takes the front, and that both leave every other queue over disjoint nodes as it was.
\<close>

locale linked_queue =
  fixes rep :: "'h \<Rightarrow> 'q \<Rightarrow> 'p list \<Rightarrow> bool"
    and empty :: "'q"
    and push :: "'h \<Rightarrow> 'q \<Rightarrow> 'p \<Rightarrow> 'h \<times> 'q"
    and pop :: "'h \<Rightarrow> 'q \<Rightarrow> 'p option \<times> 'h \<times> 'q"
  assumes rep_distinct: "rep h q xs \<Longrightarrow> distinct xs"
    and rep_empty: "rep h empty []"
    and push_rep: "rep h q xs \<Longrightarrow> n \<notin> set xs \<Longrightarrow> push h q n = (h', q') \<Longrightarrow> rep h' q' (xs @ [n])"
    and push_frame: "rep h q xs \<Longrightarrow> push h q n = (h', q') \<Longrightarrow> rep h r ys \<Longrightarrow>
      n \<notin> set ys \<Longrightarrow> set xs \<inter> set ys = {} \<Longrightarrow> rep h' r ys"
    and pop_nil: "rep h q [] \<Longrightarrow> pop h q = (None, h, q)"
    and pop_cons: "rep h q (x # xs) \<Longrightarrow> \<exists>h' q'. pop h q = (Some x, h', q') \<and> rep h' q' xs"
    and pop_frame: "rep h q xs \<Longrightarrow> pop h q = (v, h', q') \<Longrightarrow> rep h r ys \<Longrightarrow>
      set xs \<inter> set ys = {} \<Longrightarrow> rep h' r ys"
begin

lemma pop_result:
  assumes "rep h q xs" and "pop h q = (v, h', q')"
  shows "v = (if xs = [] then None else Some (hd xs)) \<and> rep h' q' (tl xs)"
  using assms by (cases xs) (auto simp: pop_nil dest: pop_cons)

lemma pop_move:
  assumes q: "rep h q (x # xs)" and r: "rep h r ys" and disj: "set (x # xs) \<inter> set ys = {}"
    and "pop h q = (v, h1, q1)" and "push h1 r x = (h2, r1)"
  shows "v = Some x" and "rep h2 q1 xs" and "rep h2 r1 (ys @ [x])"
proof -
  show "v = Some x"
    using pop_result [OF q assms(4)] by simp
  have q1: "rep h1 q1 xs"
    using pop_result [OF q assms(4)] by simp
  have r1: "rep h1 r ys"
    using pop_frame [OF q assms(4) r disj] .
  show "rep h2 r1 (ys @ [x])"
    using push_rep [OF r1 _ assms(5)] disj by simp
  show "rep h2 q1 xs"
    using push_frame [OF r1 assms(5) q1] disj rep_distinct [OF q] by auto
qed

end

interpretation fifo: linked_queue fifo_rep fifo_new push_back pop_front
proof (unfold_locales, goal_cases)
  case 1
  then show ?case by (rule fifo_rep_distinct)
next
  case 2
  show ?case by (rule fifo_rep_new)
next
  case 3
  then show ?case by (rule push_back_rep)
next
  case (4 h q xs n h' q' r ys)
  then show ?case by (blast intro: fifo_rep_frame push_back_links)
next
  case 5
  then show ?case by (rule pop_front_nil)
next
  case (6 h q x xs)
  obtain r h' q' where pop: "pop_front h q = (r, h', q')"
    by (cases "pop_front h q")
  from pop_front_cons(1,2) [OF 6 pop] pop show ?case by blast
next
  case (7 h q xs v h' q' r ys)
  show ?case
  proof (cases xs)
    case Nil
    with 7 show ?thesis by (simp add: pop_front_nil)
  next
    case (Cons x xs')
    with 7 have "h' = h(x := None)" by (blast dest: pop_front_cons(3))
    with 7 Cons show ?thesis by (intro fifo_rep_frame [OF 7(3)]) auto
  qed
qed

end
