(* ===== verification/Ipc.thy ===== *)
theory Ipc
  imports Intrusive
begin

text \<open>
  The synchronous rendezvous of \<open>src/crates/ipc/src/lib.rs\<close>: an endpoint is two intrusive wait
  queues and a 32-bit count of pending signals. Its operations are the code's, over the shared heap
  of links. Their abstract specification \<open>aep\<close> keeps the two wait queues as lists and the count
  as a number; \<open>ep_rep\<close> relates the two, and every operation is shown to simulate its abstract
  counterpart, decision included.
\<close>

record 'p endpoint =
  senders :: "'p fifo"
  receivers :: "'p fifo"
  pending :: u32

datatype 'p send_decision = Rendezvous 'p | SendBlocked

datatype 'p recv_decision = Signal | FromSender 'p | RecvBlocked

definition endpoint_new :: "'p endpoint" where
  "endpoint_new = \<lparr>senders = fifo_new, receivers = fifo_new, pending = 0\<rparr>"

definition one_queue_invariant :: "'p endpoint \<Rightarrow> bool" where
  "one_queue_invariant e \<longleftrightarrow> fifo_is_empty (senders e) \<or> fifo_is_empty (receivers e)"

definition is_idle :: "'p endpoint \<Rightarrow> bool" where
  "is_idle e \<longleftrightarrow> fifo_is_empty (senders e) \<and> fifo_is_empty (receivers e)"

definition debug_counts :: "'p endpoint \<Rightarrow> nat \<times> nat \<times> u32" where
  "debug_counts e = (fifo_len (senders e), fifo_len (receivers e), pending e)"

text \<open>
  The loop of \<open>drain_waiters\<close>. The callback may use the popped node's link (it puts the thread on a
  run queue), so it transforms the heap together with a state of its own.
\<close>

partial_function (option) drain_queue ::
  "('p \<Rightarrow> 'p links \<times> 's \<Rightarrow> 'p links \<times> 's) \<Rightarrow> 'p links \<Rightarrow> 's \<Rightarrow> 'p fifo
    \<Rightarrow> ('p links \<times> 's \<times> 'p fifo) option" where
  "drain_queue f h s q =
     (case pop_front h q of
        (None, h', q') \<Rightarrow> Some (h', s, q')
      | (Some w, h', q') \<Rightarrow> (case f w (h', s) of (h'', s') \<Rightarrow> drain_queue f h'' s' q'))"

definition drain_waiters ::
  "('p \<Rightarrow> 'p links \<times> 's \<Rightarrow> 'p links \<times> 's) \<Rightarrow> 'p links \<Rightarrow> 's \<Rightarrow> 'p endpoint
    \<Rightarrow> ('p links \<times> 's \<times> 'p endpoint) option" where
  "drain_waiters f h s e =
     Option.bind (drain_queue f h s (senders e)) (\<lambda>(h1, s1, q1).
       Option.bind (drain_queue f h1 s1 (receivers e)) (\<lambda>(h2, s2, q2).
         Some (h2, s2, e\<lparr>senders := q1, receivers := q2\<rparr>)))"

text \<open>The loop of \<open>remove_sender\<close>: every node but the victim moves to the queue \<open>kept\<close>.\<close>

partial_function (option) remove_loop ::
  "'p \<Rightarrow> 'p links \<Rightarrow> 'p fifo \<Rightarrow> 'p fifo \<Rightarrow> bool \<Rightarrow> ('p links \<times> 'p fifo \<times> bool) option" where
  "remove_loop victim h q kept found =
     (case pop_front h q of
        (None, h', q') \<Rightarrow> Some (h', kept, found)
      | (Some node, h', q') \<Rightarrow>
          (if node = victim then remove_loop victim h' q' kept True
           else (case push_back h' kept node of
                   (h'', kept') \<Rightarrow> remove_loop victim h'' q' kept' found)))"

definition remove_sender ::
  "'p links \<Rightarrow> 'p endpoint \<Rightarrow> 'p \<Rightarrow> (bool \<times> 'p links \<times> 'p endpoint) option" where
  "remove_sender h e victim =
     map_option (\<lambda>(h', kept, found). (found, h', e\<lparr>senders := kept\<rparr>))
       (remove_loop victim h (senders e) fifo_new False)"

definition ep_send ::
  "'p links \<Rightarrow> 'p endpoint \<Rightarrow> 'p \<Rightarrow> 'p send_decision \<times> 'p links \<times> 'p endpoint" where
  "ep_send h e me =
     (case pop_front h (receivers e) of
        (Some receiver, h', q') \<Rightarrow> (Rendezvous receiver, h', e\<lparr>receivers := q'\<rparr>)
      | (None, h', q') \<Rightarrow>
          (case push_back h' (senders e) me of
             (h'', sq) \<Rightarrow> (SendBlocked, h'', e\<lparr>receivers := q', senders := sq\<rparr>)))"

definition ep_recv ::
  "'p links \<Rightarrow> 'p endpoint \<Rightarrow> 'p \<Rightarrow> 'p recv_decision \<times> 'p links \<times> 'p endpoint" where
  "ep_recv h e me =
     (if pending e > 0 then (Signal, h, e\<lparr>pending := pending e - 1\<rparr>)
      else (case pop_front h (senders e) of
              (Some sender, h', q') \<Rightarrow> (FromSender sender, h', e\<lparr>senders := q'\<rparr>)
            | (None, h', q') \<Rightarrow>
                (case push_back h' (receivers e) me of
                   (h'', rq) \<Rightarrow> (RecvBlocked, h'', e\<lparr>senders := q', receivers := rq\<rparr>))))"

definition ep_signal :: "'p links \<Rightarrow> 'p endpoint \<Rightarrow> 'p option \<times> 'p links \<times> 'p endpoint" where
  "ep_signal h e =
     (case pop_front h (receivers e) of
        (Some receiver, h', q') \<Rightarrow> (Some receiver, h', e\<lparr>receivers := q'\<rparr>)
      | (None, h', q') \<Rightarrow>
          (None, h', e\<lparr>receivers := q', pending := saturating_add (pending e) 1\<rparr>))"

section \<open>The abstract endpoint\<close>

record 'p aep =
  asenders :: "'p list"
  areceivers :: "'p list"
  apending :: nat

definition asend :: "'p \<Rightarrow> 'p aep \<Rightarrow> 'p send_decision \<times> 'p aep" where
  "asend me a =
     (case areceivers a of
        r # rs \<Rightarrow> (Rendezvous r, a\<lparr>areceivers := rs\<rparr>)
      | [] \<Rightarrow> (SendBlocked, a\<lparr>asenders := asenders a @ [me]\<rparr>))"

definition arecv :: "'p \<Rightarrow> 'p aep \<Rightarrow> 'p recv_decision \<times> 'p aep" where
  "arecv me a =
     (if apending a > 0 then (Signal, a\<lparr>apending := apending a - 1\<rparr>)
      else (case asenders a of
              s # ss \<Rightarrow> (FromSender s, a\<lparr>asenders := ss\<rparr>)
            | [] \<Rightarrow> (RecvBlocked, a\<lparr>areceivers := areceivers a @ [me]\<rparr>)))"

definition asignal :: "'p aep \<Rightarrow> 'p option \<times> 'p aep" where
  "asignal a =
     (case areceivers a of
        r # rs \<Rightarrow> (Some r, a\<lparr>areceivers := rs\<rparr>)
      | [] \<Rightarrow> (None, a\<lparr>apending := min (apending a + 1) (2 ^ 32 - 1)\<rparr>))"

definition ep_rep :: "'p links \<Rightarrow> 'p endpoint \<Rightarrow> 'p aep \<Rightarrow> bool" where
  "ep_rep h e a \<longleftrightarrow> fifo_rep h (senders e) (asenders a) \<and> fifo_rep h (receivers e) (areceivers a)
     \<and> set (asenders a) \<inter> set (areceivers a) = {} \<and> unat (pending e) = apending a"

definition waiting :: "'p aep \<Rightarrow> 'p set" where
  "waiting a = set (asenders a) \<union> set (areceivers a)"

text \<open>
  The invariant the code's comments call load-bearing, in the stronger form that is preserved: no
  receiver waits while there is a blocked sender or a pending signal it could have taken.
\<close>

definition no_missed_rendezvous :: "'p aep \<Rightarrow> bool" where
  "no_missed_rendezvous a \<longleftrightarrow> (areceivers a \<noteq> [] \<longrightarrow> asenders a = [] \<and> apending a = 0)"

lemma ep_repD:
  assumes "ep_rep h e a"
  shows "fifo_rep h (senders e) (asenders a)" and "fifo_rep h (receivers e) (areceivers a)"
    and "set (asenders a) \<inter> set (areceivers a) = {}" and "unat (pending e) = apending a"
  using assms by (auto simp: ep_rep_def)

lemma ep_rep_new: "ep_rep h endpoint_new \<lparr>asenders = [], areceivers = [], apending = 0\<rparr>"
  by (simp add: ep_rep_def endpoint_new_def fifo_rep_new)

lemma ep_rep_one_queue:
  "ep_rep h e a \<Longrightarrow> one_queue_invariant e \<longleftrightarrow> asenders a = [] \<or> areceivers a = []"
  by (auto simp: one_queue_invariant_def dest: ep_repD fifo_rep_is_empty)

lemma ep_rep_idle: "ep_rep h e a \<Longrightarrow> is_idle e \<longleftrightarrow> waiting a = {}"
  by (auto simp: is_idle_def waiting_def dest: ep_repD fifo_rep_is_empty)

lemma abstract_steps_keep_invariant:
  assumes "no_missed_rendezvous a"
  shows "no_missed_rendezvous (snd (asend me a))" and "no_missed_rendezvous (snd (arecv me a))"
    and "no_missed_rendezvous (snd (asignal a))"
  using assms
  by (auto simp: no_missed_rendezvous_def asend_def arecv_def asignal_def split: list.splits)

section \<open>The operations simulate the abstract ones\<close>

lemma ep_send_simulates:
  assumes rep: "ep_rep h e a" and me: "me \<notin> waiting a" and step: "ep_send h e me = (d, h', e')"
  shows "d = fst (asend me a) \<and> ep_rep h' e' (snd (asend me a))"
proof (cases "areceivers a")
  case Nil
  obtain h1 q1 h2 q2 where pop: "pop_front h (receivers e) = (None, h1, q1)"
      and push: "push_back h1 (senders e) me = (h2, q2)"
    using fifo.pop_nil [of h "receivers e"] ep_repD(2) [OF rep] Nil
    by (cases "push_back h (senders e) me") auto
  with ep_repD(2) [OF rep] Nil have [simp]: "h1 = h" "q1 = receivers e"
    by (simp_all add: fifo.pop_nil)
  from step pop push have [simp]: "d = SendBlocked" "h' = h2"
      "e' = e\<lparr>receivers := receivers e, senders := q2\<rparr>"
    by (simp_all add: ep_send_def)
  have "fifo_rep h2 q2 (asenders a @ [me])"
    using fifo.push_rep [OF ep_repD(1) [OF rep] _ push [simplified]] me by (simp add: waiting_def)
  moreover have "fifo_rep h2 (receivers e) []"
    using fifo.push_frame [OF ep_repD(1) [OF rep] push [simplified] ep_repD(2) [OF rep]] Nil me
    by (simp add: waiting_def)
  ultimately show ?thesis
    using rep Nil by (simp add: ep_rep_def asend_def)
next
  case (Cons r rs)
  with ep_repD(2) [OF rep] obtain h1 q1 where pop: "pop_front h (receivers e) = (Some r, h1, q1)"
      and q1: "fifo_rep h1 q1 rs"
    using fifo.pop_cons by metis
  have "fifo_rep h1 (senders e) (asenders a)"
    using fifo.pop_frame [OF ep_repD(2) [OF rep] pop ep_repD(1) [OF rep]] ep_repD(3) [OF rep]
    by auto
  with rep step pop q1 Cons show ?thesis
    by (auto simp: ep_rep_def asend_def ep_send_def)
qed

lemma ep_recv_simulates:
  assumes rep: "ep_rep h e a" and me: "me \<notin> waiting a" and step: "ep_recv h e me = (d, h', e')"
  shows "d = fst (arecv me a) \<and> ep_rep h' e' (snd (arecv me a))"
proof (cases "pending e > 0")
  case True
  then have "unat (pending e - 1) = unat (pending e) - 1"
    by (simp add: unat_minus_one word_gt_0)
  with True rep step show ?thesis
    by (auto simp: ep_rep_def arecv_def ep_recv_def word_less_nat_alt)
next
  case False
  with ep_repD(4) [OF rep] have p: "apending a = 0" "pending e = 0"
    by (auto simp: word_gt_0)
  show ?thesis
  proof (cases "asenders a")
    case Nil
    obtain h2 q2 where push: "push_back h (receivers e) me = (h2, q2)"
      by (cases "push_back h (receivers e) me")
    have pop: "pop_front h (senders e) = (None, h, senders e)"
      using fifo.pop_nil ep_repD(1) [OF rep] Nil by simp
    have "fifo_rep h2 q2 (areceivers a @ [me])"
      using fifo.push_rep [OF ep_repD(2) [OF rep] _ push] me by (simp add: waiting_def)
    moreover have "fifo_rep h2 (senders e) []"
      using fifo.push_frame [OF ep_repD(2) [OF rep] push ep_repD(1) [OF rep]] Nil me
      by (simp add: waiting_def)
    ultimately show ?thesis
      using rep Nil p step pop push by (auto simp: ep_rep_def arecv_def ep_recv_def)
  next
    case (Cons s ss)
    with ep_repD(1) [OF rep] obtain h1 q1 where pop: "pop_front h (senders e) = (Some s, h1, q1)"
        and q1: "fifo_rep h1 q1 ss"
      using fifo.pop_cons by metis
    have "fifo_rep h1 (receivers e) (areceivers a)"
      using fifo.pop_frame [OF ep_repD(1) [OF rep] pop ep_repD(2) [OF rep]] ep_repD(3) [OF rep]
      by auto
    with rep step pop q1 Cons p show ?thesis
      by (auto simp: ep_rep_def arecv_def ep_recv_def)
  qed
qed

lemma ep_signal_simulates:
  assumes rep: "ep_rep h e a" and step: "ep_signal h e = (d, h', e')"
  shows "d = fst (asignal a) \<and> ep_rep h' e' (snd (asignal a))"
proof (cases "areceivers a")
  case Nil
  have pop: "pop_front h (receivers e) = (None, h, receivers e)"
    using fifo.pop_nil ep_repD(2) [OF rep] Nil by simp
  have "unat (saturating_add (pending e) 1) = min (apending a + 1) (2 ^ 32 - 1)"
    using ep_repD(4) [OF rep] by (simp add: unat_saturating_add)
  with rep step pop Nil show ?thesis
    by (auto simp: ep_rep_def asignal_def ep_signal_def)
next
  case (Cons r rs)
  with ep_repD(2) [OF rep] obtain h1 q1 where pop: "pop_front h (receivers e) = (Some r, h1, q1)"
      and q1: "fifo_rep h1 q1 rs"
    using fifo.pop_cons by metis
  have "fifo_rep h1 (senders e) (asenders a)"
    using fifo.pop_frame [OF ep_repD(2) [OF rep] pop ep_repD(1) [OF rep]] ep_repD(3) [OF rep]
    by auto
  with rep step pop q1 Cons show ?thesis
    by (auto simp: ep_rep_def asignal_def ep_signal_def)
qed

section \<open>Runs of an endpoint\<close>

text \<open>
  A run is a sequence of arrivals. \<open>legal\<close> is the safety contract of \<open>send\<close> and \<open>recv\<close>: the
  thread that arrives is on no queue of the endpoint.
\<close>

datatype 'p ep_op = OpSend 'p | OpRecv 'p | OpSignal

datatype 'p ep_out = OutSend "'p send_decision" | OutRecv "'p recv_decision" | OutSignal "'p option"

fun ep_apply :: "'p links \<Rightarrow> 'p endpoint \<Rightarrow> 'p ep_op \<Rightarrow> 'p ep_out \<times> 'p links \<times> 'p endpoint" where
  "ep_apply h e (OpSend me) = apfst OutSend (ep_send h e me)"
| "ep_apply h e (OpRecv me) = apfst OutRecv (ep_recv h e me)"
| "ep_apply h e OpSignal = apfst OutSignal (ep_signal h e)"

fun ep_run :: "'p links \<Rightarrow> 'p endpoint \<Rightarrow> 'p ep_op list \<Rightarrow> 'p ep_out list \<times> 'p links \<times> 'p endpoint" where
  "ep_run h e [] = ([], h, e)"
| "ep_run h e (op # ops) =
     (case ep_apply h e op of (out, h', e') \<Rightarrow> apfst (Cons out) (ep_run h' e' ops))"

fun aep_apply :: "'p aep \<Rightarrow> 'p ep_op \<Rightarrow> 'p ep_out \<times> 'p aep" where
  "aep_apply a (OpSend me) = apfst OutSend (asend me a)"
| "aep_apply a (OpRecv me) = apfst OutRecv (arecv me a)"
| "aep_apply a OpSignal = apfst OutSignal (asignal a)"

fun aep_run :: "'p aep \<Rightarrow> 'p ep_op list \<Rightarrow> 'p ep_out list \<times> 'p aep" where
  "aep_run a [] = ([], a)"
| "aep_run a (op # ops) = (case aep_apply a op of (out, a') \<Rightarrow> apfst (Cons out) (aep_run a' ops))"

fun arrives :: "'p ep_op \<Rightarrow> 'p set" where
  "arrives (OpSend me) = {me}"
| "arrives (OpRecv me) = {me}"
| "arrives OpSignal = {}"

fun legal :: "'p aep \<Rightarrow> 'p ep_op list \<Rightarrow> bool" where
  "legal a [] = True"
| "legal a (op # ops) \<longleftrightarrow> arrives op \<inter> waiting a = {} \<and> legal (snd (aep_apply a op)) ops"

abbreviation aep_new :: "'p aep" where
  "aep_new \<equiv> \<lparr>asenders = [], areceivers = [], apending = 0\<rparr>"

lemma ep_apply_simulates:
  assumes "ep_rep h e a" and "arrives op \<inter> waiting a = {}" and "ep_apply h e op = (out, h', e')"
  shows "out = fst (aep_apply a op) \<and> ep_rep h' e' (snd (aep_apply a op))"
proof (cases op)
  case (OpSend me)
  with assms ep_send_simulates [of h e a me] show ?thesis
    by (cases "ep_send h e me") auto
next
  case (OpRecv me)
  with assms ep_recv_simulates [of h e a me] show ?thesis
    by (cases "ep_recv h e me") auto
next
  case OpSignal
  with assms ep_signal_simulates [of h e a] show ?thesis
    by (cases "ep_signal h e") auto
qed

lemma ep_run_simulates:
  assumes "ep_rep h e a" and "legal a ops" and "ep_run h e ops = (outs, h', e')"
  shows "outs = fst (aep_run a ops) \<and> ep_rep h' e' (snd (aep_run a ops))"
  using assms
proof (induction ops arbitrary: h e a outs h' e')
  case Nil
  then show ?case by simp
next
  case (Cons op ops)
  obtain out h1 e1 where step: "ep_apply h e op = (out, h1, e1)"
    by (cases "ep_apply h e op")
  obtain outs' where run: "ep_run h1 e1 ops = (outs', h', e')" and outs: "outs = out # outs'"
    using Cons.prems(3) step by (cases "ep_run h1 e1 ops") auto
  have "out = fst (aep_apply a op) \<and> ep_rep h1 e1 (snd (aep_apply a op))"
    using ep_apply_simulates [OF Cons.prems(1) _ step] Cons.prems(2) by simp
  with Cons.IH [OF _ _ run, of "snd (aep_apply a op)"] Cons.prems(2) outs show ?case
    by (auto split: prod.splits)
qed

lemma aep_run_keeps_invariant:
  "no_missed_rendezvous a \<Longrightarrow> no_missed_rendezvous (snd (aep_run a ops))"
proof (induction ops arbitrary: a)
  case Nil
  then show ?case by simp
next
  case (Cons op ops)
  from Cons.prems have "no_missed_rendezvous (snd (aep_apply a op))"
    by (cases op) (auto simp: abstract_steps_keep_invariant)
  with Cons.IH show ?case by (auto split: prod.splits)
qed

text \<open>C13. Refinement of the endpoint. Whatever sequence of sends, receives and signals an endpoint
  goes through, as long as each arriving thread is on none of its queues, the intrusive
  implementation takes exactly the decisions of the list-level specification, and its two queues
  still hold exactly the specified threads in the specified order.\<close>

theorem ep_run_refines:
  assumes "ep_rep h e a" and "legal a ops" and "ep_run h e ops = (outs, h', e')"
  shows "\<exists>a'. aep_run a ops = (outs, a') \<and> ep_rep h' e' a'"
  using ep_run_simulates [OF assms] by (metis prod.collapse)

text \<open>C23. The load-bearing invariant of rendezvous. From a new endpoint, after any legal sequence of
  arrivals at most one wait queue is non-empty, and a receiver is left waiting only when there is
  neither a blocked sender nor a pending signal it could have been given.\<close>

theorem ep_run_no_missed_rendezvous:
  assumes "legal aep_new ops" and "ep_run h endpoint_new ops = (outs, h', e)"
  shows "one_queue_invariant e \<and>
    (\<not> fifo_is_empty (receivers e) \<longrightarrow> fifo_is_empty (senders e) \<and> pending e = 0)"
proof -
  let ?a = "snd (aep_run aep_new ops)"
  have rep: "ep_rep h' e ?a"
    using ep_run_simulates [OF ep_rep_new assms] by simp
  have "no_missed_rendezvous ?a"
    by (rule aep_run_keeps_invariant) (simp add: no_missed_rendezvous_def)
  with ep_repD(4) [OF rep] show ?thesis
    by (auto simp: ep_rep_one_queue [OF rep] fifo_rep_is_empty [OF ep_repD(1) [OF rep]]
        fifo_rep_is_empty [OF ep_repD(2) [OF rep]] no_missed_rendezvous_def unat_eq_zero)
qed

theorem ep_run_refines_witness:
  "let ops = [OpSend (1::nat), OpRecv 2, OpRecv 2, OpSignal] in
   case ep_run (\<lambda>_. None) endpoint_new ops of (outs, h', e') \<Rightarrow>
     legal aep_new ops \<and> (\<exists>a'. aep_run aep_new ops = (outs, a') \<and> ep_rep h' e' a')"
proof -
  let ?ops = "[OpSend (1::nat), OpRecv 2, OpRecv 2, OpSignal]"
  have legal: "legal aep_new ?ops"
    by (simp add: waiting_def asend_def arecv_def asignal_def)
  obtain outs h' e' where "ep_run (\<lambda>_. None) endpoint_new ?ops = (outs, h', e')"
    by (cases "ep_run (\<lambda>_. None) endpoint_new ?ops")
  with ep_run_refines [OF ep_rep_new legal this] legal show ?thesis by (simp add: Let_def)
qed

theorem ep_run_no_missed_rendezvous_witness:
  "let ops = [OpSend (1::nat), OpRecv 2, OpRecv 2] in
   case ep_run (\<lambda>_. None) endpoint_new ops of (outs, h', e) \<Rightarrow>
     legal aep_new ops \<and> one_queue_invariant e \<and> \<not> fifo_is_empty (receivers e)
     \<and> fifo_is_empty (senders e) \<and> pending e = 0"
proof -
  let ?ops = "[OpSend (1::nat), OpRecv 2, OpRecv 2]"
  have legal: "legal aep_new ?ops"
    by (simp add: waiting_def asend_def arecv_def)
  obtain outs h' e where run: "ep_run (\<lambda>_. None) endpoint_new ?ops = (outs, h', e)"
    by (cases "ep_run (\<lambda>_. None) endpoint_new ?ops")
  have "\<not> fifo_is_empty (receivers e)"
    using run by (auto simp: endpoint_new_def ep_send_def ep_recv_def fifo_new_def pop_front_def
        push_back_def fifo_is_empty_def Let_def)
  with run ep_run_no_missed_rendezvous [OF legal run] legal show ?thesis by (simp add: Let_def)
qed

section \<open>Order and conservation\<close>

text \<open>
  What the decisions of a run say about each thread: who went to sleep as a sender or a receiver, who
  was taken off a queue, and how many signals reached a receiver.
\<close>

fun slept_sending :: "'p ep_op \<times> 'p ep_out \<Rightarrow> 'p list" where
  "slept_sending (OpSend me, OutSend SendBlocked) = [me]"
| "slept_sending _ = []"

fun taken_sender :: "'p ep_op \<times> 'p ep_out \<Rightarrow> 'p list" where
  "taken_sender (_, OutRecv (FromSender s)) = [s]"
| "taken_sender _ = []"

fun slept_receiving :: "'p ep_op \<times> 'p ep_out \<Rightarrow> 'p list" where
  "slept_receiving (OpRecv me, OutRecv RecvBlocked) = [me]"
| "slept_receiving _ = []"

fun taken_receiver :: "'p ep_op \<times> 'p ep_out \<Rightarrow> 'p list" where
  "taken_receiver (_, OutSend (Rendezvous r)) = [r]"
| "taken_receiver (_, OutSignal (Some r)) = [r]"
| "taken_receiver _ = []"

fun delivered_signal :: "'p ep_out \<Rightarrow> bool" where
  "delivered_signal (OutRecv Signal) = True"
| "delivered_signal (OutSignal (Some _)) = True"
| "delivered_signal _ = False"

lemma aep_run_ConsE:
  assumes "aep_run a (op # ops) = (outs, a')"
  obtains out a1 outs' where "aep_apply a op = (out, a1)" "aep_run a1 ops = (outs', a')"
    "outs = out # outs'"
  using assms by (cases "aep_apply a op"; cases "aep_run (snd (aep_apply a op)) ops") auto

lemma aep_run_order:
  assumes "aep_run a ops = (outs, a')"
  shows "asenders a @ concat (map slept_sending (zip ops outs))
           = concat (map taken_sender (zip ops outs)) @ asenders a'"
    and "areceivers a @ concat (map slept_receiving (zip ops outs))
           = concat (map taken_receiver (zip ops outs)) @ areceivers a'"
  using assms
proof (induction ops arbitrary: a outs)
  case Nil
  {
    case 1
    with Nil show ?case by simp
  next
    case 2
    with Nil show ?case by simp
  }
next
  case (Cons op ops)
  {
    case 1
    then obtain out a1 outs' where "aep_apply a op = (out, a1)" "aep_run a1 ops = (outs', a')"
        "outs = out # outs'"
      by (rule aep_run_ConsE)
    with Cons.IH(1) [of a1 outs'] show ?case
      by (cases op) (auto simp: asend_def arecv_def asignal_def split: list.splits if_splits)
  next
    case 2
    then obtain out a1 outs' where "aep_apply a op = (out, a1)" "aep_run a1 ops = (outs', a')"
        "outs = out # outs'"
      by (rule aep_run_ConsE)
    with Cons.IH(2) [of a1 outs'] show ?case
      by (cases op) (auto simp: asend_def arecv_def asignal_def split: list.splits if_splits)
  }
qed

lemma aep_run_signals:
  assumes "aep_run a ops = (outs, a')"
    and "apending a + length (filter (\<lambda>op. op = OpSignal) ops) < 2 ^ 32"
  shows "apending a + length (filter (\<lambda>op. op = OpSignal) ops)
           = length (filter delivered_signal outs) + apending a'"
  using assms
proof (induction ops arbitrary: a outs)
  case Nil
  then show ?case by simp
next
  case (Cons op ops)
  obtain out a1 outs' where step: "aep_apply a op = (out, a1)" and run: "aep_run a1 ops = (outs', a')"
      and outs: "outs = out # outs'"
    using Cons.prems(1) by (rule aep_run_ConsE)
  have "apending a + (if op = OpSignal then 1 else 0)
      = (if delivered_signal out then 1 else 0) + apending a1"
    using step Cons.prems(2)
    by (cases op) (auto simp: asend_def arecv_def asignal_def split: list.splits if_splits)
  with Cons.IH [OF run] Cons.prems(2) outs show ?case
    by (simp split: if_splits)
qed



section \<open>Draining and removing\<close>

text \<open>
  \<open>drain_queue\<close> returns, whatever the callback does to the popped nodes, provided it leaves the links
  of the nodes still queued alone; \<open>I ds h s\<close> is the callback's own invariant after the nodes \<open>ds\<close>.
\<close>

lemma drain_queue_total:
  assumes "fifo_rep h q xs" and "I ds h s"
    and step: "\<And>ds w rest h s. zs = ds @ w # rest \<Longrightarrow> I ds h s \<Longrightarrow>
      (case f w (h(w := None), s) of (h', s') \<Rightarrow>
         I (ds @ [w]) h' s' \<and> (\<forall>p \<in> set rest. h' p = h p))"
    and "zs = ds @ xs @ ys" and "distinct zs"
  shows "\<exists>h' s' q'. drain_queue f h s q = Some (h', s', q') \<and> I (ds @ xs) h' s'
    \<and> fifo_rep h' q' [] \<and> (\<forall>p \<in> set ys. h' p = h p)"
  using assms(1,2,4)
proof (induction xs arbitrary: h s q ds)
  case Nil
  then show ?case
    by (subst drain_queue.simps) (simp add: pop_front_nil)
next
  case (Cons x xs)
  obtain r h1 q1 where pop: "pop_front h q = (r, h1, q1)"
    by (cases "pop_front h q")
  note popped = pop_front_cons [OF Cons.prems(1) pop]
  obtain h2 s2 where f: "f x (h(x := None), s) = (h2, s2)"
    by (cases "f x (h(x := None), s)")
  have "I (ds @ [x]) h2 s2" and frame: "\<forall>p \<in> set (xs @ ys). h2 p = h p"
    using step [of ds x "xs @ ys" h s] Cons.prems f by simp_all
  moreover have "fifo_rep h2 q1 xs"
    using frame popped(3) \<open>distinct zs\<close> Cons.prems(3) by (intro fifo_rep_frame [OF popped(2)]) auto
  ultimately obtain h' s' q' where "drain_queue f h2 s2 q1 = Some (h', s', q')"
      "I (ds @ x # xs) h' s'" "fifo_rep h' q' []" "\<forall>p \<in> set ys. h' p = h2 p"
    using Cons.IH [of h2 q1 "ds @ [x]" s2] Cons.prems(3) by auto
  with pop popped f frame show ?case
    by (subst drain_queue.simps) simp
qed

lemma drain_waiters_total:
  assumes rep: "ep_rep h e a" and "I [] h s"
    and step: "\<And>ds w rest h s. asenders a @ areceivers a = ds @ w # rest \<Longrightarrow> I ds h s \<Longrightarrow>
      (case f w (h(w := None), s) of (h', s') \<Rightarrow>
         I (ds @ [w]) h' s' \<and> (\<forall>p \<in> set rest. h' p = h p))"
  shows "\<exists>h' s' e'. drain_waiters f h s e = Some (h', s', e') \<and> I (asenders a @ areceivers a) h' s'
    \<and> is_idle e' \<and> pending e' = pending e \<and> ep_rep h' e' (a\<lparr>asenders := [], areceivers := []\<rparr>)"
proof -
  have dist: "distinct (asenders a @ areceivers a)"
    using ep_repD [OF rep] by (auto dest: fifo_rep_distinct)
  have "\<exists>h1 s1 q1. drain_queue f h s (senders e) = Some (h1, s1, q1)
      \<and> I ([] @ asenders a) h1 s1 \<and> fifo_rep h1 q1 [] \<and> (\<forall>p \<in> set (areceivers a). h1 p = h p)"
    by (rule drain_queue_total [OF ep_repD(1) [OF rep] assms(2) step _ dist]) (assumption | simp)+
  then obtain h1 s1 q1 where 1: "drain_queue f h s (senders e) = Some (h1, s1, q1)"
      "I (asenders a) h1 s1" "fifo_rep h1 q1 []" "\<forall>p \<in> set (areceivers a). h1 p = h p"
    by auto
  have rs: "fifo_rep h1 (receivers e) (areceivers a)"
    using fifo_rep_frame [OF ep_repD(2) [OF rep] 1(4)] .
  have "\<exists>h2 s2 q2. drain_queue f h1 s1 (receivers e) = Some (h2, s2, q2)
      \<and> I (asenders a @ areceivers a) h2 s2 \<and> fifo_rep h2 q2 [] \<and> (\<forall>p \<in> set []. h2 p = h1 p)"
    by (rule drain_queue_total [OF rs 1(2) step _ dist]) (assumption | simp)+
  then obtain h2 s2 q2 where 2: "drain_queue f h1 s1 (receivers e) = Some (h2, s2, q2)"
      "I (asenders a @ areceivers a) h2 s2" "fifo_rep h2 q2 []"
    by auto
  have "fifo_rep h2 q1 []"
    using fifo_rep_frame [OF 1(3)] by simp
  with 2(3) have "ep_rep h2 (e\<lparr>senders := q1, receivers := q2\<rparr>) (a\<lparr>asenders := [], areceivers := []\<rparr>)"
    using ep_repD(4) [OF rep] by (simp add: ep_rep_def)
  moreover from this have "is_idle (e\<lparr>senders := q1, receivers := q2\<rparr>)"
    by (simp add: ep_rep_idle waiting_def)
  ultimately show ?thesis
    using 1(1) 2(1,2) by (simp add: drain_waiters_def)
qed

lemma remove_loop_total:
  assumes "fifo_rep h q xs" and "fifo_rep h kept ys" and "set xs \<inter> set ys = {}"
  shows "\<exists>h' kept'. remove_loop victim h q kept found = Some (h', kept', found \<or> victim \<in> set xs)
    \<and> fifo_rep h' kept' (ys @ removeAll victim xs)
    \<and> (\<forall>p. p \<notin> set xs \<union> set ys \<longrightarrow> h' p = h p)"
  using assms
proof (induction xs arbitrary: h q kept ys found)
  case Nil
  then show ?case by (subst remove_loop.simps) (simp add: pop_front_nil)
next
  case (Cons x xs)
  obtain r h1 q1 where pop: "pop_front h q = (r, h1, q1)"
    by (cases "pop_front h q")
  note popped = pop_front_cons [OF Cons.prems(1) pop]
  have kept: "fifo_rep h1 kept ys"
    using fifo.pop_frame [OF Cons.prems(1) pop Cons.prems(2)] Cons.prems(3) by simp
  show ?case
  proof (cases "x = victim")
    case True
    from Cons.IH [OF popped(2) kept, of True] Cons.prems(3) obtain h' kept' where
      "remove_loop victim h1 q1 kept True = Some (h', kept', True)"
      "fifo_rep h' kept' (ys @ removeAll victim xs)"
      "\<forall>p. p \<notin> set xs \<union> set ys \<longrightarrow> h' p = h1 p"
      by auto
    moreover have "h1 p = h p" if "p \<noteq> x" for p
      using popped(3) that by simp
    ultimately show ?thesis
      using True pop popped(1) by (subst remove_loop.simps) simp
  next
    case False
    obtain h2 kept1 where push: "push_back h1 kept x = (h2, kept1)"
      by (cases "push_back h1 kept x")
    note moved = fifo.pop_move [OF Cons.prems(1,2,3) pop push]
    have "set xs \<inter> set (ys @ [x]) = {}"
      using Cons.prems(3) fifo_rep_distinct [OF Cons.prems(1)] by auto
    from Cons.IH [OF moved(2,3) this, of found] obtain h' kept' where
      "remove_loop victim h2 q1 kept1 found = Some (h', kept', found \<or> victim \<in> set xs)"
      "fifo_rep h' kept' (ys @ x # removeAll victim xs)"
      "\<forall>p. p \<notin> set xs \<union> set (ys @ [x]) \<longrightarrow> h' p = h2 p"
      by auto
    moreover have "h2 p = h p" if "p \<noteq> x" "p \<notin> set ys" for p
      using push_back_links [OF kept push that] popped(3) that by simp
    ultimately show ?thesis
      using False pop popped(1) push by (subst remove_loop.simps) simp
  qed
qed

text \<open>C24. Object revocation loses no thread. Draining an endpoint onto a run queue returns, leaves the
  endpoint idle with its pending signals as they were, and appends to the run queue exactly the
  blocked senders and then the blocked receivers, each once and in waiting order.\<close>

theorem drain_waiters_requeues_all:
  assumes "ep_rep h e a" and "fifo_rep h rq zs" and "waiting a \<inter> set zs = {}"
  shows "\<exists>h' rq' e'. drain_waiters (\<lambda>w (h, q). push_back h q w) h rq e = Some (h', rq', e')
    \<and> fifo_rep h' rq' (zs @ asenders a @ areceivers a) \<and> is_idle e' \<and> pending e' = pending e"
proof -
  let ?f = "\<lambda>w (h, q). push_back h q w"
  let ?I = "\<lambda>ds h q. fifo_rep h q (zs @ ds)"
  have dist: "distinct (asenders a @ areceivers a)"
    using ep_repD [OF assms(1)] by (auto dest: fifo_rep_distinct)
  have step: "case ?f w (h(w := None), s) of (h', s') \<Rightarrow>
      ?I (ds @ [w]) h' s' \<and> (\<forall>p \<in> set rest. h' p = h p)"
    if split: "asenders a @ areceivers a = ds @ w # rest" and I: "?I ds h s" for ds w rest h s
  proof -
    obtain h' q' where push: "push_back (h(w := None)) s w = (h', q')"
      by (cases "push_back (h(w := None)) s w")
    have dist': "distinct (ds @ w # rest)"
      using dist split by simp
    have "set (ds @ w # rest) = waiting a"
      using split by (metis waiting_def set_append)
    with assms(3) dist' have fresh: "w \<notin> set (zs @ ds)" "set (w # rest) \<inter> set (zs @ ds) = {}"
      by auto
    have rep: "fifo_rep (h(w := None)) s (zs @ ds)"
      using fresh by (intro fifo_rep_frame [OF I]) auto
    have "fifo_rep h' q' (zs @ ds @ [w])"
      using push_back_rep [OF rep fresh(1) push] by simp
    moreover have "h' p = h p" if "p \<in> set rest" for p
    proof -
      from that fresh(2) dist' have "p \<noteq> w" "p \<notin> set (zs @ ds)" by auto
      with push_back_links [OF rep push] show ?thesis by simp
    qed
    ultimately show ?thesis using push by simp
  qed
  have "?I [] h rq"
    using assms(2) by simp
  then obtain h' rq' e' where "drain_waiters ?f h rq e = Some (h', rq', e')"
      "?I (asenders a @ areceivers a) h' rq'" "is_idle e'" "pending e' = pending e"
    using drain_waiters_total [where I = ?I and f = ?f and s = rq, OF assms(1) _ step] by blast
  then show ?thesis by blast
qed

text \<open>C25. Taking one corpse back off the sender queue. \<open>remove_sender\<close> returns, reports whether the
  victim was queued, and leaves the endpoint holding the same waiters in the same order without it.\<close>

theorem remove_sender_exact:
  assumes "ep_rep h e a"
  shows "\<exists>h' e'. remove_sender h e victim = Some (victim \<in> set (asenders a), h', e')
    \<and> ep_rep h' e' (a\<lparr>asenders := removeAll victim (asenders a)\<rparr>)"
proof -
  note rep = ep_repD [OF assms]
  obtain h' kept where loop: "remove_loop victim h (senders e) fifo_new False
        = Some (h', kept, victim \<in> set (asenders a))"
      "fifo_rep h' kept (removeAll victim (asenders a))"
      "\<forall>p. p \<notin> set (asenders a) \<longrightarrow> h' p = h p"
    using remove_loop_total [OF rep(1) fifo_rep_new, of victim False] by auto
  have "fifo_rep h' (receivers e) (areceivers a)"
    using loop(3) rep(3) by (intro fifo_rep_frame [OF rep(2)]) auto
  with loop(2) rep(3,4) have "ep_rep h' (e\<lparr>senders := kept\<rparr>) (a\<lparr>asenders := removeAll victim (asenders a)\<rparr>)"
    by (auto simp: ep_rep_def)
  with loop(1) show ?thesis
    by (simp add: remove_sender_def)
qed

theorem drain_waiters_requeues_all_witness:
  "let e = \<lparr>senders = \<lparr>fifo_head = Some (1::nat), fifo_tail = Some 2, fifo_count = 2\<rparr>,
            receivers = fifo_new, pending = 3\<rparr>;
       h = (\<lambda>_. None)(1 := Some 2) in
   \<exists>h' rq' e'. drain_waiters (\<lambda>w (h, q). push_back h q w) h fifo_new e = Some (h', rq', e')
    \<and> fifo_rep h' rq' ([] @ [1, 2] @ []) \<and> is_idle e' \<and> pending e' = 3"
proof -
  let ?e = "\<lparr>senders = \<lparr>fifo_head = Some (1::nat), fifo_tail = Some 2, fifo_count = 2\<rparr>,
      receivers = fifo_new, pending = 3\<rparr>"
  let ?a = "\<lparr>asenders = [1, 2], areceivers = [], apending = 3\<rparr>"
  have "ep_rep ((\<lambda>_. None)(1 := Some 2)) ?e ?a"
    by (simp add: ep_rep_def fifo_rep_def fifo_new_def)
  from drain_waiters_requeues_all [OF this fifo_rep_new] show ?thesis
    by (simp add: Let_def)
qed

theorem remove_sender_exact_witness:
  "let e = \<lparr>senders = \<lparr>fifo_head = Some (1::nat), fifo_tail = Some 2, fifo_count = 2\<rparr>,
            receivers = fifo_new, pending = 0\<rparr>;
       h = (\<lambda>_. None)(1 := Some 2) in
   \<exists>h' e'. remove_sender h e 1 = Some (True, h', e')
    \<and> ep_rep h' e' \<lparr>asenders = [2], areceivers = [], apending = 0\<rparr>"
proof -
  let ?e = "\<lparr>senders = \<lparr>fifo_head = Some (1::nat), fifo_tail = Some 2, fifo_count = 2\<rparr>,
      receivers = fifo_new, pending = 0\<rparr>"
  let ?a = "\<lparr>asenders = [1, 2], areceivers = [], apending = 0\<rparr>"
  have "ep_rep ((\<lambda>_. None)(1 := Some 2)) ?e ?a"
    by (simp add: ep_rep_def fifo_rep_def fifo_new_def)
  from remove_sender_exact [OF this, of 1] show ?thesis
    by (simp add: Let_def)
qed

end
