(* ===== verification/WakeHandshake.thy ===== *)
theory WakeHandshake
  imports Prelude
begin

text \<open>
  The block/wake handshake of a thread (\<open>crates/wake_handshake\<close>) and the interleavings the kernel
  runs it under. The first part is the crate: the record, its constructors and its transitions,
  the debug assertions as panics. The second part is one thread followed through every
  interleaving of its own core (run, park, switch out, finish the switch) with the other cores
  (deliver and wake, abort and wake, spurious wakes): each step is one critical section of
  \<open>kernel/src/sched.rs\<close> under the scheduler lock. What the record cannot see is carried beside
  it: the run queue that holds the thread, the core that stands on its stack, whether that core is
  between the switch decision and \<open>finish_switch\<close>, and whether the current park is still owed a
  delivery.
\<close>

datatype run_state = Embryo | Ready | Running | Blocked | Finished | Dead

datatype wake_verdict = NotBlocked | Refused | Deferred | Queue

datatype switch_out_verdict = Reap | WakeCompleted | Cleared

record 'w handshake =
  state :: run_state
  on_cpu :: bool
  wake_pending :: bool
  wait_on :: "'w option"
  ipc_served :: bool
  ipc_aborted :: bool

definition on_cpu_now :: "'w handshake" where
  "on_cpu_now = \<lparr>state = Running, on_cpu = True, wake_pending = False, wait_on = None,
     ipc_served = False, ipc_aborted = False\<rparr>"

definition ready :: "'w handshake" where
  "ready = \<lparr>state = Ready, on_cpu = False, wake_pending = False, wait_on = None,
     ipc_served = False, ipc_aborted = False\<rparr>"

definition embryo :: "'w handshake" where
  "embryo = \<lparr>state = Embryo, on_cpu = False, wake_pending = False, wait_on = None,
     ipc_served = False, ipc_aborted = False\<rparr>"

definition park :: "'w \<Rightarrow> 'w handshake \<Rightarrow> 'w handshake checked" where
  "park w h = rust_assert (state h = Running) ''a thread parked itself while not running''
     (Ok (h\<lparr>state := Blocked, wait_on := Some w, ipc_served := False\<rparr>))"

definition serve :: "'w handshake \<Rightarrow> 'w handshake" where
  "serve h = h\<lparr>ipc_served := True\<rparr>"

definition abort :: "'w handshake \<Rightarrow> 'w handshake" where
  "abort h = h\<lparr>ipc_aborted := True\<rparr>"

definition delivered :: "'w handshake \<Rightarrow> bool" where
  "delivered h \<longleftrightarrow> ipc_served h \<or> ipc_aborted h"

definition take_aborted :: "'w handshake \<Rightarrow> bool \<times> 'w handshake" where
  "take_aborted h = (ipc_aborted h, h\<lparr>ipc_aborted := False\<rparr>)"

definition try_wake :: "'w handshake \<Rightarrow> wake_verdict \<times> 'w handshake" where
  "try_wake h =
     (if state h \<noteq> Blocked then (NotBlocked, h)
      else if wait_on h \<noteq> None \<and> \<not> delivered h then (Refused, h)
      else if on_cpu h then (Deferred, h\<lparr>wake_pending := True\<rparr>)
      else (Queue, h\<lparr>state := Ready, wait_on := None\<rparr>))"

definition switch_in :: "'w handshake \<Rightarrow> 'w handshake checked" where
  "switch_in h = rust_assert (\<not> on_cpu h) ''switching into a thread that is still on a cpu''
     (rust_assert (state h = Ready \<or> state h = Running)
        ''switching into a thread that was neither Ready nor a parked idle''
        (Ok (h\<lparr>state := Running, on_cpu := True\<rparr>)))"

definition preempt :: "'w handshake \<Rightarrow> 'w handshake checked" where
  "preempt h = rust_assert (state h = Running) ''preempting a thread that was not running''
     (Ok (h\<lparr>state := Ready\<rparr>))"

definition finish_switch :: "'w handshake \<Rightarrow> switch_out_verdict \<times> 'w handshake" where
  "finish_switch h =
     (if state h = Finished then (Reap, h)
      else let h1 = h\<lparr>on_cpu := False\<rparr> in
        if wake_pending h1 then (WakeCompleted, h1\<lparr>wake_pending := False, state := Ready, wait_on := None\<rparr>)
        else (Cleared, h1))"

lemmas handshake_defs =
  park_def serve_def abort_def delivered_def take_aborted_def try_wake_def switch_in_def
  preempt_def finish_switch_def Let_def

section \<open>One thread under the scheduler lock\<close>

record 'w running =
  hs :: "'w handshake checked"
  home :: "nat option"
  standing :: "nat option"
  leaving :: bool
  owed :: bool
  gone :: bool

abbreviation live_hs :: "'w running \<Rightarrow> 'w handshake \<Rightarrow> bool" where
  "live_hs s h \<equiv> hs s = Ok h \<and> \<not> gone s"

text \<open>A wake by core \<open>d\<close>: on the verdict \<open>Queue\<close> the caller pushes the thread on a run queue.\<close>

definition wake_by :: "nat \<Rightarrow> 'w handshake \<Rightarrow> 'w running \<Rightarrow> 'w running" where
  "wake_by d h s = (case try_wake h of
      (Queue, h') \<Rightarrow> s\<lparr>hs := Ok h', home := Some d\<rparr>
    | (_, h') \<Rightarrow> s\<lparr>hs := Ok h'\<rparr>)"

definition spawned :: "nat \<Rightarrow> 'w running" where
  "spawned c = \<lparr>hs = Ok ready, home = Some c, standing = None, leaving = False, owed = False, gone = False\<rparr>"

definition retyped :: "'w running" where
  "retyped = \<lparr>hs = Ok embryo, home = None, standing = None, leaving = False, owed = False, gone = False\<rparr>"

text \<open>
  The steps. A core pops its own run queue only, and never between a switch decision and the
  \<open>finish_switch\<close> that completes it (interrupts are masked there); a thread parks itself while it
  runs, having taken its abort flag; the other steps may happen at any time.
\<close>

inductive step :: "'w running \<Rightarrow> 'w running \<Rightarrow> bool" where
  start: "live_hs s h \<Longrightarrow> state h = Embryo \<Longrightarrow>
    step s (s\<lparr>hs := Ok (h\<lparr>state := Ready\<rparr>), home := Some c\<rparr>)"
| pop_run: "live_hs s h \<Longrightarrow> home s = Some c \<Longrightarrow> \<not> (standing s = Some c \<and> leaving s) \<Longrightarrow>
    step s (s\<lparr>hs := switch_in h, home := None, standing := Some c\<rparr>)"
| migrate: "live_hs s h \<Longrightarrow> home s = Some c \<Longrightarrow> \<not> (standing s = Some c \<and> leaving s) \<Longrightarrow>
    step s (s\<lparr>home := Some d\<rparr>)"
| park_self: "live_hs s h \<Longrightarrow> state h = Running \<Longrightarrow> \<not> ipc_aborted h \<Longrightarrow>
    step s (s\<lparr>hs := park w h, owed := True\<rparr>)"
| switch_away: "live_hs s h \<Longrightarrow> standing s = Some c \<Longrightarrow> \<not> leaving s \<Longrightarrow> state h \<noteq> Running \<Longrightarrow>
    step s (s\<lparr>leaving := True\<rparr>)"
| preempted: "live_hs s h \<Longrightarrow> standing s = Some c \<Longrightarrow> \<not> leaving s \<Longrightarrow> state h = Running \<Longrightarrow>
    step s (s\<lparr>hs := preempt h, home := Some c, leaving := True\<rparr>)"
| depart: "live_hs s h \<Longrightarrow> state h = Running \<Longrightarrow> e = Finished \<or> e = Dead \<Longrightarrow>
    step s (s\<lparr>hs := Ok (h\<lparr>state := e\<rparr>)\<rparr>)"
| finish_reap: "live_hs s h \<Longrightarrow> standing s = Some c \<Longrightarrow> leaving s \<Longrightarrow> finish_switch h = (Reap, h') \<Longrightarrow>
    step s (s\<lparr>hs := Ok h', gone := True, standing := None, leaving := False\<rparr>)"
| finish_wake: "live_hs s h \<Longrightarrow> standing s = Some c \<Longrightarrow> leaving s \<Longrightarrow> finish_switch h = (WakeCompleted, h') \<Longrightarrow>
    step s (s\<lparr>hs := Ok h', home := Some c, standing := None, leaving := False\<rparr>)"
| finish_clear: "live_hs s h \<Longrightarrow> standing s = Some c \<Longrightarrow> leaving s \<Longrightarrow> finish_switch h = (Cleared, h') \<Longrightarrow>
    step s (s\<lparr>hs := Ok h', standing := None, leaving := False\<rparr>)"
| deliver: "live_hs s h \<Longrightarrow> state h = Blocked \<Longrightarrow> wait_on h \<noteq> None \<Longrightarrow>
    step s (wake_by d (serve h) (s\<lparr>owed := False\<rparr>))"
| revoke: "live_hs s h \<Longrightarrow> state h = Blocked \<Longrightarrow> wait_on h \<noteq> None \<Longrightarrow>
    step s (wake_by d (abort h) (s\<lparr>owed := False\<rparr>))"
| stale_endpoint: "live_hs s h \<Longrightarrow> state h = Running \<Longrightarrow>
    step s (s\<lparr>hs := Ok (abort h)\<rparr>)"
| spurious_wake: "live_hs s h \<Longrightarrow> step s (wake_by d h s)"
| take_flag: "live_hs s h \<Longrightarrow> state h = Running \<Longrightarrow>
    step s (s\<lparr>hs := Ok (snd (take_aborted h))\<rparr>)"

inductive reachable :: "'w running \<Rightarrow> bool" where
  spawned: "reachable (spawned c)"
| retyped: "reachable retyped"
| step: "reachable s \<Longrightarrow> step s s' \<Longrightarrow> reachable s'"

inductive_cases stepE: "step s s'"

text \<open>
  The invariant, state by state: where the thread is queued, who stands on its stack, whether a
  wake is parked in the handshake, and whether the current park is still owed a delivery.
\<close>

definition wake_ok :: "'w running \<Rightarrow> 'w handshake \<Rightarrow> bool" where
  "wake_ok s h \<longleftrightarrow> (on_cpu h \<longleftrightarrow> standing s \<noteq> None) \<and> (leaving s \<longrightarrow> on_cpu h) \<and>
     (home s \<noteq> None \<longleftrightarrow> state h = Ready) \<and>
     (case state h of
        Embryo \<Rightarrow> \<not> on_cpu h \<and> \<not> wake_pending h \<and> \<not> owed s
      | Ready \<Rightarrow> \<not> wake_pending h \<and> \<not> owed s \<and> (on_cpu h \<longrightarrow> leaving s \<and> home s = standing s)
      | Running \<Rightarrow> on_cpu h \<and> \<not> leaving s \<and> \<not> wake_pending h \<and> \<not> owed s
      | Blocked \<Rightarrow> wait_on h \<noteq> None \<and> (owed s \<longleftrightarrow> \<not> delivered h) \<and> (wake_pending h \<longleftrightarrow> delivered h) \<and>
          (wake_pending h \<longrightarrow> on_cpu h)
      | _ \<Rightarrow> \<not> wake_pending h \<and> \<not> owed s)"

definition wake_inv :: "'w running \<Rightarrow> bool" where
  "wake_inv s \<longleftrightarrow> gone s \<or> (case hs s of Err _ \<Rightarrow> False | Ok h \<Rightarrow> wake_ok s h)"

lemma wake_inv_init: "wake_inv (spawned c)" "wake_inv retyped"
  by (simp_all add: wake_inv_def wake_ok_def spawned_def retyped_def ready_def embryo_def)

lemma wake_inv_step:
  assumes "step s s'" "wake_inv s"
  shows "wake_inv s'"
  using assms
  by (cases rule: step.cases)
    (simp_all add: wake_inv_def wake_ok_def handshake_defs wake_by_def rust_assert_def
      split: run_state.splits if_splits, auto)

lemma wake_inv_reachable: "reachable s \<Longrightarrow> wake_inv s"
  by (induction rule: reachable.induct) (auto intro: wake_inv_init wake_inv_step)

section \<open>Claims\<close>


text \<open>A run in which the wake arrives while the parking thread is still on its stack.\<close>

definition mid_switch :: "nat running" where
  "mid_switch = \<lparr>hs = Ok \<lparr>state = Blocked, on_cpu = True, wake_pending = True, wait_on = Some 7,
      ipc_served = True, ipc_aborted = False\<rparr>,
    home = None, standing = Some 0, leaving = True, owed = False, gone = False\<rparr>"

lemma mid_switch_reachable: "reachable mid_switch"
proof -
  let ?ran = "(spawned 0)\<lparr>hs := switch_in ready, home := None, standing := Some 0\<rparr> :: nat running"
  have "reachable ?ran"
    by (rule reachable.step [OF reachable.spawned [of 0] step.pop_run [where h = ready]])
      (simp_all add: spawned_def)
  then have "reachable (?ran\<lparr>hs := park 7 on_cpu_now, owed := True\<rparr>)" (is "reachable ?parked")
    by (rule reachable.step [OF _ step.park_self [where h = on_cpu_now]])
      (simp_all add: spawned_def ready_def on_cpu_now_def switch_in_def rust_assert_def)
  then have "reachable (?parked\<lparr>leaving := True\<rparr>)" (is "reachable ?left")
    by (rule reachable.step [OF _ step.switch_away
          [where h = "on_cpu_now\<lparr>state := Blocked, wait_on := Some 7\<rparr>" and c = 0]])
      (simp_all add: spawned_def park_def on_cpu_now_def rust_assert_def)
  then have "reachable (wake_by 1 (serve (on_cpu_now\<lparr>state := Blocked, wait_on := Some 7\<rparr>)) (?left\<lparr>owed := False\<rparr>))"
    by (rule reachable.step [OF _ step.deliver
          [where h = "on_cpu_now\<lparr>state := Blocked, wait_on := Some 7\<rparr>"]])
      (simp_all add: spawned_def park_def on_cpu_now_def rust_assert_def)
  then show ?thesis
    by (simp add: mid_switch_def wake_by_def try_wake_def serve_def delivered_def on_cpu_now_def spawned_def)
qed


end
