(* ===== verification/Sched.thy ===== *)
theory Sched
  imports Capability Slots Ipc WakeHandshake
begin

text \<open>
  The scheduler's thread table, its wait queues and the six IPC operations, \<open>src/kernel/src/sched.rs\<close>
  with the objects of \<open>src/kernel/src/cap.rs\<close>. One critical section under the scheduler lock is one
  function on the kernel state; the core that runs it is an argument, and a call that blocks is its
  critical section up to \<open>schedule()\<close> and a second function for what it does when it resumes. The
  wait queues are the list-level endpoints that the intrusive ones implement (theory \<open>Ipc\<close>), the run
  queues and inboxes are lists; that a thread is never queued twice, which the intrusive links need,
  is part of the invariant proved here. The address space of a thread is a parameter type.
\<close>

type_synonym tid = u64
type_synonym ep_id = u64

section \<open>Objects, threads and the scheduler\<close>

datatype kobject =
    Endpoint_obj ep_id
  | Untyped_obj u64
  | Irq_obj u32
  | Frame_obj u64
  | DeviceFrame_obj u64
  | Reply_obj tid
  | Aspace_obj u64
  | Tcb_obj tid
  | Virtio_obj nat

type_synonym kcap = "kobject cap"

definition endpoint_cap :: "ep_id \<Rightarrow> rights \<Rightarrow> kcap" where
  "endpoint_cap ep r = \<lparr>object = Endpoint_obj ep, rights = r\<rparr>"
definition irq_cap :: "u32 \<Rightarrow> kcap" where
  "irq_cap intid = \<lparr>object = Irq_obj intid, rights = RIGHTS_READ\<rparr>"
definition irq_cap_rights :: "u32 \<Rightarrow> rights \<Rightarrow> kcap" where
  "irq_cap_rights intid r = \<lparr>object = Irq_obj intid, rights = r\<rparr>"
definition untyped_cap :: "u64 \<Rightarrow> kcap" where
  "untyped_cap region = \<lparr>object = Untyped_obj region, rights = RIGHTS_WRITE\<rparr>"
definition untyped_cap_rights :: "u64 \<Rightarrow> rights \<Rightarrow> kcap" where
  "untyped_cap_rights region r = \<lparr>object = Untyped_obj region, rights = r\<rparr>"
definition untyped_root_cap :: "u64 \<Rightarrow> kcap" where
  "untyped_root_cap region =
     untyped_cap_rights region (rights_union (rights_union RIGHTS_READ RIGHTS_WRITE) RIGHTS_GRANT)"
definition virtio_cap :: "nat \<Rightarrow> kcap" where
  "virtio_cap i = \<lparr>object = Virtio_obj i, rights = RIGHTS_WRITE\<rparr>"
definition tcb_cap :: "tid \<Rightarrow> rights \<Rightarrow> kcap" where
  "tcb_cap t r = \<lparr>object = Tcb_obj t, rights = r\<rparr>"
definition aspace_cap :: "u64 \<Rightarrow> rights \<Rightarrow> kcap" where
  "aspace_cap name r = \<lparr>object = Aspace_obj name, rights = r\<rparr>"
definition reply_cap :: "tid \<Rightarrow> kcap" where
  "reply_cap t = \<lparr>object = Reply_obj t, rights = RIGHTS_WRITE\<rparr>"
definition device_frame_cap :: "u64 \<Rightarrow> rights \<Rightarrow> kcap" where
  "device_frame_cap phys r = \<lparr>object = DeviceFrame_obj phys, rights = r\<rparr>"
definition frame_cap :: "u64 \<Rightarrow> rights \<Rightarrow> kcap" where
  "frame_cap phys r = \<lparr>object = Frame_obj phys, rights = r\<rparr>"

datatype wait_role = Sender | Receiver | AwaitReply

record 's thread =
  handshake :: "(ep_id \<times> wait_role) handshake"
  cspace :: "kobject cspace"
  mailbox :: "u64 list"
  outgoing_cap :: "kcap option"
  space :: "'s option"
  entry :: "u64 \<times> u64"
  start_args :: "u64 list"
  tcb_page :: u64
  tcb_kmem :: bool
  killed :: bool
  fault_ep :: "ep_id option"
  tcb_region :: "u64 option"
  fault_msg :: "u64 list option"

record 's sched =
  threads :: "'s thread table"
  endpoints :: "u64 table"
  ep_page :: "u64 \<Rightarrow> tid aep"
  runq :: "nat \<Rightarrow> tid list"
  inbox :: "nat \<Rightarrow> tid list"
  current :: "nat \<Rightarrow> tid"
  idle :: "nat \<Rightarrow> tid option"
  switched_from :: "nat \<Rightarrow> tid option"
  recycled :: "u64 list"

definition MAX_THREADS :: nat where
  "MAX_THREADS = 128"

definition MAX_ENDPOINTS :: nat where
  "MAX_ENDPOINTS = 512"

definition NO_CAP :: u64 where
  "NO_CAP = - 1"

definition threads_get :: "'s sched \<Rightarrow> tid \<Rightarrow> 's thread option" where
  "threads_get k t = table_get (threads k) t"

definition threads_get_mut :: "'s sched \<Rightarrow> tid \<Rightarrow> ('s thread \<Rightarrow> 's thread) \<Rightarrow> 's sched" where
  "threads_get_mut k t f = k\<lparr>threads := table_get_mut (threads k) t f\<rparr>"

definition threads_insert_from_page :: "'s sched \<Rightarrow> u64 \<Rightarrow> (tid \<Rightarrow> 's thread) \<Rightarrow> tid option \<times> 's sched" where
  "threads_insert_from_page k page f =
     (case table_insert_with (threads k) (\<lambda>t. (f t)\<lparr>tcb_page := page\<rparr>) of
        (name, th) \<Rightarrow> (name, k\<lparr>threads := th\<rparr>))"

definition threads_remove :: "'s sched \<Rightarrow> tid \<Rightarrow> 's sched" where
  "threads_remove k t =
     (case threads_get k t of
        None \<Rightarrow> k
      | Some th \<Rightarrow>
          let k1 = k\<lparr>threads := snd (table_remove (threads k) t)\<rparr>
          in if tcb_kmem th then k1\<lparr>recycled := tcb_page th # recycled k1\<rparr> else k1)"

definition endpoint_of :: "'s sched \<Rightarrow> ep_id \<Rightarrow> (u64 \<times> tid aep) option" where
  "endpoint_of k ep = map_option (\<lambda>phys. (phys, ep_page k phys)) (table_get (endpoints k) ep)"

definition put_endpoint :: "'s sched \<Rightarrow> u64 \<Rightarrow> tid aep \<Rightarrow> 's sched" where
  "put_endpoint k phys e = k\<lparr>ep_page := (ep_page k)(phys := e)\<rparr>"

definition set_ipc_aborted :: "'s sched \<Rightarrow> tid \<Rightarrow> 's sched" where
  "set_ipc_aborted k t = threads_get_mut k t (\<lambda>th. th\<lparr>handshake := abort (handshake th)\<rparr>)"

definition take_ipc_aborted :: "nat \<Rightarrow> 's sched \<Rightarrow> bool \<times> 's sched" where
  "take_ipc_aborted c k =
     (case threads_get k (current k c) of
        None \<Rightarrow> (False, k)
      | Some th \<Rightarrow> (fst (take_aborted (handshake th)),
          threads_get_mut k (current k c) (\<lambda>th. th\<lparr>handshake := snd (take_aborted (handshake th))\<rparr>)))"

definition tcb_ptr :: "'s sched \<Rightarrow> tid \<Rightarrow> (tid \<Rightarrow> 'r checked) \<Rightarrow> 'r checked" where
  "tcb_ptr k t f = unwrap (threads_get k t) ''tcb_ptr of a dead thread'' (\<lambda>_. f t)"

section \<open>Waking and placing\<close>

definition push_runq :: "nat \<Rightarrow> tid \<Rightarrow> 's sched \<Rightarrow> 's sched" where
  "push_runq c t k = k\<lparr>runq := (runq k)(c := runq k c @ [t])\<rparr>"

definition place_on :: "nat \<Rightarrow> nat \<Rightarrow> tid \<Rightarrow> 's sched \<Rightarrow> 's sched" where
  "place_on c target t k =
     (if target = c then push_runq c t k
      else k\<lparr>inbox := (inbox k)(target := inbox k target @ [t])\<rparr>)"

definition drain_inbox :: "nat \<Rightarrow> 's sched \<Rightarrow> 's sched" where
  "drain_inbox c k = k\<lparr>runq := (runq k)(c := runq k c @ inbox k c), inbox := (inbox k)(c := [])\<rparr>"

definition wake :: "nat \<Rightarrow> tid \<Rightarrow> 's sched \<Rightarrow> 's sched" where
  "wake c t k =
     (case threads_get k t of
        None \<Rightarrow> k
      | Some th \<Rightarrow>
          (case try_wake (handshake th) of (v, h) \<Rightarrow>
             let k1 = threads_get_mut k t (\<lambda>th. th\<lparr>handshake := h\<rparr>)
             in if v = Queue then push_runq c t k1 else k1))"

text \<open>The placement \<open>pick_wake_target\<close> chooses is the argument \<open>target\<close>.\<close>

definition wake_load_aware :: "nat \<Rightarrow> nat \<Rightarrow> tid \<Rightarrow> 's sched \<Rightarrow> nat option \<times> 's sched" where
  "wake_load_aware c target t k =
     (case threads_get k t of
        None \<Rightarrow> (None, k)
      | Some th \<Rightarrow>
          (case try_wake (handshake th) of (v, h) \<Rightarrow>
             let k1 = threads_get_mut k t (\<lambda>th. th\<lparr>handshake := h\<rparr>)
             in if v = Queue
                then (if target = c then (None, push_runq c t k1) else (Some target, place_on c target t k1))
                else (None, k1)))"

section \<open>The six IPC operations\<close>

definition wide :: "u64 list \<Rightarrow> u64 list" where
  "wide m = [m ! 0, m ! 1, m ! 2, 0, 0]"

text \<open>A delivery: fill the mailbox of a parked thread, open its gate, wake it.\<close>

definition deliver_to :: "nat \<Rightarrow> tid \<Rightarrow> u64 list \<Rightarrow> 's sched \<Rightarrow> 's sched" where
  "deliver_to c t msg k =
     wake c t (threads_get_mut k t (\<lambda>th. th\<lparr>mailbox := msg, handshake := serve (handshake th)\<rparr>))"

text \<open>The running thread parks itself, after \<open>f\<close> has recorded what it parks with.\<close>

definition park_current ::
  "nat \<Rightarrow> ep_id \<times> wait_role \<Rightarrow> ('s thread \<Rightarrow> 's thread) \<Rightarrow> 's sched \<Rightarrow> 's sched checked" where
  "park_current c w f k =
     unwrap (threads_get k (current k c)) ''unwrap'' (\<lambda>th.
       and_then (park w (handshake th)) (\<lambda>h.
         Ok (threads_get_mut k (current k c) (\<lambda>th. (f th)\<lparr>handshake := h\<rparr>))))"

definition ipc_send :: "nat \<Rightarrow> ep_id \<Rightarrow> u64 list \<Rightarrow> 's sched \<Rightarrow> (bool \<times> 's sched) checked" where
  "ipc_send c ep m k =
     (let msg = wide m in
      tcb_ptr k (current k c) (\<lambda>me.
        case endpoint_of k ep of
          None \<Rightarrow> Ok (False, set_ipc_aborted k me)
        | Some (phys, e) \<Rightarrow>
            (case asend me e of
               (Rendezvous receiver, e') \<Rightarrow>
                 let k1 = put_endpoint k phys e'
                 in unwrap (threads_get k1 receiver) ''unwrap'' (\<lambda>_.
                      Ok (False, deliver_to c receiver msg k1))
             | (SendBlocked, e') \<Rightarrow>
                 and_then (park_current c (ep, Sender) (\<lambda>th. th\<lparr>mailbox := msg\<rparr>) (put_endpoint k phys e'))
                   (\<lambda>k1. Ok (True, k1)))))"

definition is_reply :: "kcap option \<Rightarrow> bool" where
  "is_reply oc = (case oc of Some c \<Rightarrow> (case object c of Reply_obj _ \<Rightarrow> True | _ \<Rightarrow> False) | None \<Rightarrow> False)"

definition ipc_recv :: "nat \<Rightarrow> ep_id \<Rightarrow> 's sched \<Rightarrow> (u64 list option \<times> 's sched) checked" where
  "ipc_recv c ep k =
     tcb_ptr k (current k c) (\<lambda>me.
       case endpoint_of k ep of
         None \<Rightarrow> Ok (Some [0, 0, 0, 0, 0], set_ipc_aborted k me)
       | Some (phys, e) \<Rightarrow>
           (case arecv me e of
              (Signal, e') \<Rightarrow> Ok (Some [1, 0, 0, 0, 0], put_endpoint k phys e')
            | (FromSender sender, e') \<Rightarrow>
                let k1 = put_endpoint k phys e'
                in unwrap (threads_get k1 sender) ''unwrap'' (\<lambda>s.
                     let msg = mailbox s;
                         dead = (state (handshake s) = Dead);
                         leave_blocked = is_reply (outgoing_cap s) \<or> dead
                     in if \<not> leave_blocked
                        then Ok (Some msg,
                          wake c sender (threads_get_mut k1 sender (\<lambda>th. th\<lparr>handshake := serve (handshake th)\<rparr>)))
                        else if dead
                        then Ok (Some msg,
                          threads_get_mut k1 sender (\<lambda>th. th\<lparr>handshake := (handshake th)\<lparr>wait_on := None\<rparr>\<rparr>))
                        else Ok (Some msg, k1))
            | (RecvBlocked, e') \<Rightarrow>
                and_then (park_current c (ep, Receiver) (\<lambda>th. th) (put_endpoint k phys e'))
                  (\<lambda>k1. Ok (None, k1))))"

definition ipc_recv_resume :: "nat \<Rightarrow> 's sched \<Rightarrow> u64 list checked" where
  "ipc_recv_resume c k =
     unwrap (threads_get k (current k c)) ''unwrap'' (\<lambda>t.
       rust_assert (delivered (handshake t)) ''recv resumed with nothing delivered'' (Ok (mailbox t)))"

text \<open>\<open>CSpace::insert(cap).unwrap_or(NO_CAP)\<close> on a thread.\<close>

definition insert_or_no_cap :: "kobject cspace \<Rightarrow> kcap \<Rightarrow> u64 \<times> kobject cspace" where
  "insert_or_no_cap cs cap =
     (case cspace_insert cs cap of (Ok slot, cs') \<Rightarrow> (slot, cs') | (Err _, cs') \<Rightarrow> (NO_CAP, cs'))"

definition ipc_send_cap :: "nat \<Rightarrow> ep_id \<Rightarrow> u64 \<Rightarrow> kcap \<Rightarrow> 's sched \<Rightarrow> (bool \<times> 's sched) checked" where
  "ipc_send_cap c ep data cap k =
     tcb_ptr k (current k c) (\<lambda>me.
       case endpoint_of k ep of
         None \<Rightarrow> Ok (False, set_ipc_aborted k me)
       | Some (phys, e) \<Rightarrow>
           (case asend me e of
              (Rendezvous receiver, e') \<Rightarrow>
                let k1 = put_endpoint k phys e'
                in unwrap (threads_get k1 receiver) ''unwrap'' (\<lambda>r.
                     let (slot, cs) = insert_or_no_cap (cspace r) cap
                     in Ok (False, deliver_to c receiver [data, slot, 0, 0, 0]
                          (threads_get_mut k1 receiver (\<lambda>th. th\<lparr>cspace := cs\<rparr>))))
            | (SendBlocked, e') \<Rightarrow>
                and_then (park_current c (ep, Sender)
                    (\<lambda>th. th\<lparr>mailbox := [data, 0, 0, 0, 0], outgoing_cap := Some cap\<rparr>) (put_endpoint k phys e'))
                  (\<lambda>k1. Ok (True, k1))))"

definition ipc_recv_cap :: "nat \<Rightarrow> ep_id \<Rightarrow> 's sched \<Rightarrow> (u64 list option \<times> 's sched) checked" where
  "ipc_recv_cap c ep k =
     tcb_ptr k (current k c) (\<lambda>me.
       case endpoint_of k ep of
         None \<Rightarrow> Ok (Some [0, 0, 0], set_ipc_aborted k me)
       | Some (phys, e) \<Rightarrow>
           (case arecv me e of
              (Signal, e') \<Rightarrow> Ok (Some [1, NO_CAP, 0], put_endpoint k phys e')
            | (FromSender sender, e') \<Rightarrow>
                let k1 = put_endpoint k phys e'
                in unwrap (threads_get k1 sender) ''unwrap'' (\<lambda>s.
                     let msg = mailbox s;
                         cap = outgoing_cap s;
                         k2 = threads_get_mut k1 sender (\<lambda>th. th\<lparr>outgoing_cap := None\<rparr>)
                     in unwrap (threads_get k2 me) ''unwrap'' (\<lambda>m.
                          let (slot, k3) = (case cap of
                                None \<Rightarrow> (NO_CAP, k2)
                              | Some cp \<Rightarrow>
                                  (case insert_or_no_cap (cspace m) cp of (slot, cs) \<Rightarrow>
                                     (slot, threads_get_mut k2 me (\<lambda>th. th\<lparr>cspace := cs\<rparr>))));
                              k4 = (if \<not> is_reply cap
                                    then wake c sender (threads_get_mut k3 sender
                                           (\<lambda>th. th\<lparr>handshake := serve (handshake th)\<rparr>))
                                    else k3)
                          in Ok (Some [msg ! 0, slot, msg ! 1], k4)))
            | (RecvBlocked, e') \<Rightarrow>
                and_then (park_current c (ep, Receiver) (\<lambda>th. th) (put_endpoint k phys e'))
                  (\<lambda>k1. Ok (None, k1))))"

definition ipc_recv_cap_resume :: "nat \<Rightarrow> 's sched \<Rightarrow> u64 list checked" where
  "ipc_recv_cap_resume c k =
     unwrap (threads_get k (current k c)) ''unwrap'' (\<lambda>t.
       rust_assert (delivered (handshake t)) ''recv_cap resumed with nothing delivered''
         (let m = mailbox t in Ok [m ! 0, m ! 1, m ! 2]))"

text \<open>\<open>Some\<close> is the early return on a stale endpoint; \<open>None\<close> means the caller blocks for its reply.\<close>

definition ipc_call :: "nat \<Rightarrow> ep_id \<Rightarrow> u64 list \<Rightarrow> 's sched \<Rightarrow> (u64 list option \<times> 's sched) checked" where
  "ipc_call c ep m k =
     (let reply = reply_cap (current k c) in
      tcb_ptr k (current k c) (\<lambda>me.
        case endpoint_of k ep of
          None \<Rightarrow> Ok (Some [0, 0, 0], set_ipc_aborted k me)
        | Some (phys, e) \<Rightarrow>
            and_then
              (case asend me e of
                 (Rendezvous receiver, e') \<Rightarrow>
                   let k1 = put_endpoint k phys e'
                   in unwrap (threads_get k1 receiver) ''unwrap'' (\<lambda>r.
                        let (slot, cs) = insert_or_no_cap (cspace r) reply
                        in Ok (deliver_to c receiver [m ! 0, slot, m ! 1, 0, 0]
                             (threads_get_mut k1 receiver (\<lambda>th. th\<lparr>cspace := cs\<rparr>))))
               | (SendBlocked, e') \<Rightarrow>
                   unwrap (threads_get k me) ''unwrap'' (\<lambda>_.
                     Ok (threads_get_mut (put_endpoint k phys e') me
                       (\<lambda>th. th\<lparr>mailbox := [m ! 0, m ! 1, 0, 0, 0], outgoing_cap := Some reply\<rparr>))))
              (\<lambda>k1. and_then (park_current c (ep, AwaitReply) (\<lambda>th. th) k1) (\<lambda>k2. Ok (None, k2)))))"

definition ipc_call_resume :: "nat \<Rightarrow> 's sched \<Rightarrow> u64 list checked" where
  "ipc_call_resume c k =
     unwrap (threads_get k (current k c)) ''unwrap'' (\<lambda>t.
       rust_assert (delivered (handshake t)) ''call resumed with nothing delivered''
         (let m = mailbox t in Ok [m ! 0, m ! 1, m ! 2]))"

definition ipc_reply :: "nat \<Rightarrow> tid \<Rightarrow> u64 list \<Rightarrow> 's sched \<Rightarrow> 's sched" where
  "ipc_reply c caller m k =
     (case threads_get k caller of
        None \<Rightarrow> k
      | Some t \<Rightarrow>
          (case wait_on (handshake t) of
             Some (_, AwaitReply) \<Rightarrow> deliver_to c caller [m ! 0, m ! 1, 0, 0, 0] k
           | _ \<Rightarrow> k))"

section \<open>Interrupts and deaths\<close>

definition MAX_INTID :: nat where
  "MAX_INTID = 256"

definition bind_irq :: "(nat \<Rightarrow> u64) \<Rightarrow> u32 \<Rightarrow> ep_id \<Rightarrow> (nat \<Rightarrow> u64) checked" where
  "bind_irq routes intid ep =
     rust_assert (unat intid < MAX_INTID) ''intid out of range'' (Ok (routes(unat intid := ep + 1)))"

definition irq_route :: "(nat \<Rightarrow> u64) \<Rightarrow> u32 \<Rightarrow> ep_id option" where
  "irq_route routes intid =
     (if unat intid \<ge> MAX_INTID then None
      else (let n = routes (unat intid) in if n = 0 then None else Some (n - 1)))"

definition irq_notify :: "nat \<Rightarrow> nat \<Rightarrow> ep_id \<Rightarrow> 's sched \<Rightarrow> (nat option \<times> 's sched) checked" where
  "irq_notify c target ep k =
     (case endpoint_of k ep of
        None \<Rightarrow> Ok (None, k)
      | Some (phys, e) \<Rightarrow>
          (case asignal e of
             (Some waiter, e') \<Rightarrow>
               let k1 = put_endpoint k phys e'
               in unwrap (threads_get k1 waiter) ''unwrap'' (\<lambda>_.
                    Ok (wake_load_aware c target waiter (threads_get_mut k1 waiter
                      (\<lambda>th. th\<lparr>mailbox := [1, 0, 0, 0, 0], handshake := serve (handshake th)\<rparr>))))
           | (None, e') \<Rightarrow> Ok (None, put_endpoint k phys e')))"

definition deliver_death :: "nat \<Rightarrow> tid \<Rightarrow> ep_id \<Rightarrow> u64 list \<Rightarrow> 's sched \<Rightarrow> 's sched checked" where
  "deliver_death c corpse ep msg k =
     tcb_ptr k corpse (\<lambda>me.
       case endpoint_of k ep of
         None \<Rightarrow> Ok k
       | Some (phys, e) \<Rightarrow>
           (case asend me e of
              (Rendezvous receiver, e') \<Rightarrow>
                let k1 = put_endpoint k phys e'
                in unwrap (threads_get k1 receiver) ''unwrap'' (\<lambda>_. Ok (deliver_to c receiver msg k1))
            | (SendBlocked, e') \<Rightarrow>
                Ok (threads_get_mut (put_endpoint k phys e') corpse
                  (\<lambda>th. th\<lparr>handshake := (handshake th)\<lparr>wait_on := Some (ep, Sender)\<rparr>\<rparr>))))"

definition EVENT_FAULT :: u64 where "EVENT_FAULT = 1"
definition EVENT_EXIT :: u64 where "EVENT_EXIT = 2"

text \<open>\<open>depart\<close> up to its \<open>schedule()\<close>, which never returns to it.\<close>

definition depart :: "nat \<Rightarrow> u64 \<Rightarrow> u64 \<Rightarrow> u64 \<Rightarrow> 's sched \<Rightarrow> 's sched checked" where
  "depart c event pc addr k =
     (let cur = current k c in
      case Option.bind (threads_get k cur) fault_ep of
        None \<Rightarrow> Ok (threads_get_mut k cur (\<lambda>th. th\<lparr>handshake := (handshake th)\<lparr>state := Finished\<rparr>\<rparr>))
      | Some ep \<Rightarrow>
          let msg = [event, cur, pc, addr, 0]
          in deliver_death c cur ep msg
               (threads_get_mut k cur (\<lambda>th. th\<lparr>fault_msg := Some msg, mailbox := msg,
                  handshake := (handshake th)\<lparr>state := Dead\<rparr>\<rparr>)))"

definition exit_current :: "nat \<Rightarrow> 's sched \<Rightarrow> 's sched checked" where
  "exit_current c k = depart c EVENT_EXIT 0 0 k"

definition fault_current :: "nat \<Rightarrow> u64 \<Rightarrow> u64 \<Rightarrow> 's sched \<Rightarrow> 's sched checked" where
  "fault_current c pc addr k = depart c EVENT_FAULT pc addr k"

section \<open>The switch\<close>

text \<open>
  The decision of \<open>schedule\<close> under the lock; the result says whether a switch follows. Interrupts are
  masked from here to \<open>finish_switch\<close>, and debug assertions are panics.
\<close>

definition switch_to :: "nat \<Rightarrow> tid \<Rightarrow> bool \<Rightarrow> tid \<Rightarrow> 's sched \<Rightarrow> (bool \<times> 's sched) checked" where
  "switch_to c cur runnable next k =
     (if next = cur then Err (Panic ''schedule() popped its own current thread from the run queue'')
      else
        and_then
          (if runnable \<and> idle k c \<noteq> Some cur
           then unwrap (threads_get k cur) ''unwrap'' (\<lambda>t.
                  and_then (preempt (handshake t)) (\<lambda>h.
                    Ok (push_runq c cur (threads_get_mut k cur (\<lambda>th. th\<lparr>handshake := h\<rparr>)))))
           else Ok k)
          (\<lambda>k1. unwrap (threads_get k1 next) ''unwrap'' (\<lambda>t.
             and_then (switch_in (handshake t)) (\<lambda>h.
               Ok (True, (threads_get_mut k1 next (\<lambda>th. th\<lparr>handshake := h\<rparr>))
                 \<lparr>current := (current k1)(c := next),
                  switched_from := (switched_from k1)(c := Some cur)\<rparr>)))))"

definition schedule :: "nat \<Rightarrow> 's sched \<Rightarrow> (bool \<times> 's sched) checked" where
  "schedule c k =
     (let cur = current k c;
          k1 = (case threads_get k cur of
                  None \<Rightarrow> k
                | Some t \<Rightarrow>
                    if killed t \<and> state (handshake t) = Running
                    then threads_get_mut k cur (\<lambda>th. th\<lparr>handshake := (handshake th)\<lparr>state := Finished\<rparr>\<rparr>)
                    else k);
          st = map_option (\<lambda>th. state (handshake th)) (threads_get k1 cur);
          runnable = (st = Some Running)
      in case runq k1 c of
           next # q \<Rightarrow> switch_to c cur runnable next (k1\<lparr>runq := (runq k1)(c := q)\<rparr>)
         | [] \<Rightarrow>
             if runnable then Ok (False, k1)
             else (case idle k1 c of
                     None \<Rightarrow> Err (Panic ''nothing runnable and no idle thread'')
                   | Some i \<Rightarrow>
                       if cur = i then Err (Panic ''nothing runnable and no idle thread'')
                       else switch_to c cur runnable i k1))"

definition sched_finish_switch :: "nat \<Rightarrow> 's sched \<Rightarrow> 's sched" where
  "sched_finish_switch c k =
     (case switched_from k c of
        None \<Rightarrow> k
      | Some prev \<Rightarrow>
          let k0 = k\<lparr>switched_from := (switched_from k)(c := None)\<rparr>
          in (case threads_get k0 prev of
                None \<Rightarrow> k0
              | Some t \<Rightarrow>
                  (case finish_switch (handshake t) of
                     (Reap, _) \<Rightarrow> threads_remove k0 prev
                   | (WakeCompleted, h) \<Rightarrow> push_runq c prev (threads_get_mut k0 prev (\<lambda>th. th\<lparr>handshake := h\<rparr>))
                   | (Cleared, h) \<Rightarrow> threads_get_mut k0 prev (\<lambda>th. th\<lparr>handshake := h\<rparr>))))"

section \<open>The current thread's capabilities\<close>

definition delete_current_cap :: "nat \<Rightarrow> u64 \<Rightarrow> 's sched \<Rightarrow> (cap_error + unit) \<times> 's sched" where
  "delete_current_cap c slot k =
     (case threads_get k (current k c) of
        None \<Rightarrow> (Err NoSuchSlot, k)
      | Some th \<Rightarrow>
          (case cspace_delete (cspace th) slot of (r, cs) \<Rightarrow>
             (r, threads_get_mut k (current k c) (\<lambda>th. th\<lparr>cspace := cs\<rparr>))))"

definition current_cap :: "nat \<Rightarrow> u64 \<Rightarrow> 's sched \<Rightarrow> cap_error + kcap" where
  "current_cap c slot k =
     (case threads_get k (current k c) of
        None \<Rightarrow> Err NoSuchSlot
      | Some th \<Rightarrow> cspace_get (cspace th) slot)"

definition grant :: "nat \<Rightarrow> kcap \<Rightarrow> 's sched \<Rightarrow> (cap_error + u64) \<times> 's sched" where
  "grant c cap k =
     (case threads_get k (current k c) of
        None \<Rightarrow> (Err NoFreeSlot, k)
      | Some th \<Rightarrow>
          (case cspace_insert (cspace th) cap of (r, cs) \<Rightarrow>
             (r, threads_get_mut k (current k c) (\<lambda>th. th\<lparr>cspace := cs\<rparr>))))"

definition grant_at :: "nat \<Rightarrow> u64 \<Rightarrow> kcap \<Rightarrow> 's sched \<Rightarrow> (cap_error + u64) \<times> 's sched" where
  "grant_at c slot cap k =
     (case threads_get k (current k c) of
        None \<Rightarrow> (Err NoFreeSlot, k)
      | Some th \<Rightarrow>
          (case cspace_insert_at (cspace th) slot cap of (r, cs) \<Rightarrow>
             (r, threads_get_mut k (current k c) (\<lambda>th. th\<lparr>cspace := cs\<rparr>))))"

text \<open>The inner loop of the two revocation sweeps: every slot of one table that names the object.\<close>

definition delete_object :: "kobject \<Rightarrow> kobject cspace \<Rightarrow> kobject cspace" where
  "delete_object target cs =
     foldl (\<lambda>cs slot. case cspace_get cs slot of
         Ok c \<Rightarrow> if object c = target then snd (cspace_delete cs slot) else cs
       | Err _ \<Rightarrow> cs) cs (map of_nat [0..<cspace_len cs])"

definition delete_frame_caps :: "u64 \<Rightarrow> 's sched \<Rightarrow> 's sched" where
  "delete_frame_caps phys k =
     k\<lparr>threads := table_iter_mut (threads k) (\<lambda>t. t\<lparr>cspace := delete_object (Frame_obj phys) (cspace t)\<rparr>)\<rparr>"

section \<open>Threads under construction\<close>

datatype abi_error = BadSyscall | ENoSuchSlot | NotPermitted | BadMethod | WrongObject | BadPointer
  | OutOfMemory | DeviceRefused | ENotSupervised | EStillAlive | Gone

definition CSPACE_SLOTS :: nat where
  "CSPACE_SLOTS = 16"

definition FAULT_EP_SLOT :: u64 where
  "FAULT_EP_SLOT = of_nat CSPACE_SLOTS - 1"

definition thread_embryo :: "'s thread" where
  "thread_embryo = \<lparr>handshake = embryo, cspace = cspace_new CSPACE_SLOTS, mailbox = [0, 0, 0, 0, 0],
     outgoing_cap = None, space = None, entry = (0, 0), start_args = [0, 0, 0], tcb_page = 0,
     tcb_kmem = False, killed = False, fault_ep = None, tcb_region = None, fault_msg = None\<rparr>"

text \<open>\<open>create_tcb\<close> from the page that \<open>retype_object_page\<close> returned.\<close>

definition create_tcb_at :: "u64 \<Rightarrow> u64 \<Rightarrow> 's sched \<Rightarrow> tid option \<times> 's sched" where
  "create_tcb_at region page k =
     threads_insert_from_page k page (\<lambda>_. thread_embryo\<lparr>tcb_region := Some region\<rparr>)"

definition tcb_insert_cap :: "tid \<Rightarrow> kcap \<Rightarrow> u64 option \<Rightarrow> 's sched \<Rightarrow> (abi_error + u64) \<times> 's sched" where
  "tcb_insert_cap t cap target k =
     (case threads_get k t of
        None \<Rightarrow> (Err ENoSuchSlot, k)
      | Some th \<Rightarrow>
          if state (handshake th) \<noteq> Embryo then (Err WrongObject, k)
          else (case (case target of None \<Rightarrow> cspace_insert (cspace th) cap
                      | Some slot \<Rightarrow> cspace_insert_at (cspace th) slot cap) of
                  (r, cs) \<Rightarrow>
                    (case r of Err _ \<Rightarrow> Err OutOfMemory | Ok slot \<Rightarrow> Ok slot,
                     threads_get_mut k t (\<lambda>th. th\<lparr>cspace := cs\<rparr>))))"

text \<open>
  \<open>start_tcb\<close>; whether a kernel stack is to be had (\<open>arm_for_start\<close>) and the core
  \<open>pick_spawn_target\<close> chooses are arguments.
\<close>

definition start_tcb ::
  "nat \<Rightarrow> bool \<Rightarrow> nat \<Rightarrow> tid \<Rightarrow> u64 list \<Rightarrow> 's sched \<Rightarrow> (abi_error + unit) \<times> 's sched" where
  "start_tcb c armed target t args k =
     (case threads_get k t of
        None \<Rightarrow> (Err ENoSuchSlot, k)
      | Some th \<Rightarrow>
          if state (handshake th) \<noteq> Embryo then (Err WrongObject, k)
          else if space th = None \<or> fst (entry th) = 0 then (Err NotPermitted, k)
          else
            let th1 = (case cspace_get (cspace th) FAULT_EP_SLOT of
                    Ok cp \<Rightarrow>
                      (case object cp of
                         Endpoint_obj ep \<Rightarrow>
                           th\<lparr>fault_ep := Some ep, cspace := snd (cspace_delete (cspace th) FAULT_EP_SLOT)\<rparr>
                       | _ \<Rightarrow> th)
                  | Err _ \<Rightarrow> th);
                th2 = th1\<lparr>start_args := args\<rparr>
            in if \<not> armed then (Err OutOfMemory, threads_get_mut k t (\<lambda>_. th2))
               else (Ok (), place_on c target t (threads_get_mut k t
                      (\<lambda>_. th2\<lparr>handshake := (handshake th2)\<lparr>state := Ready\<rparr>\<rparr>))))"

text \<open>\<open>configure_tcb\<close> once the address space has been taken out of its registry.\<close>

definition configure_tcb :: "tid \<Rightarrow> u64 \<Rightarrow> u64 \<Rightarrow> 's \<Rightarrow> 's sched \<Rightarrow> (abi_error + unit) \<times> 's sched" where
  "configure_tcb t ent user_sp sp k =
     (case threads_get k t of
        None \<Rightarrow> (Err ENoSuchSlot, k)
      | Some th \<Rightarrow>
          if state (handshake th) \<noteq> Embryo then (Err WrongObject, k)
          else (Ok (), threads_get_mut k t (\<lambda>th. th\<lparr>space := Some sp, entry := (ent, user_sp)\<rparr>)))"

text \<open>\<open>try_create_endpoint_from\<close>, given what \<open>retype_object_page\<close> returns once the registry has room.\<close>

datatype ep_fail = RegionFull | RegistryFull

definition create_endpoint_at :: "u64 option \<Rightarrow> 's sched \<Rightarrow> (ep_fail + ep_id) \<times> 's sched" where
  "create_endpoint_at page k =
     (if table_len (endpoints k) \<ge> MAX_ENDPOINTS then (Err RegistryFull, k)
      else (case page of
              None \<Rightarrow> (Err RegionFull, k)
            | Some phys \<Rightarrow>
                let k1 = put_endpoint k phys aep_new
                in (case table_insert_with (endpoints k1) (\<lambda>_. phys) of
                      (None, es) \<Rightarrow> (Err RegistryFull, k1\<lparr>endpoints := es\<rparr>)
                    | (Some ep, es) \<Rightarrow> (Ok ep, k1\<lparr>endpoints := es\<rparr>))))"

section \<open>Supervision and the teardown of a region\<close>

definition SURVEY_DONE :: u64 where "SURVEY_DONE = 0"
definition SURVEY_READY :: u64 where "SURVEY_READY = 1"
definition SURVEY_RUNNING :: u64 where "SURVEY_RUNNING = 2"
definition SURVEY_BLOCKED :: u64 where "SURVEY_BLOCKED = 3"
definition SURVEY_DEAD :: u64 where "SURVEY_DEAD = 4"

definition survey_state :: "run_state \<Rightarrow> u64" where
  "survey_state st =
     (case st of
        Embryo \<Rightarrow> SURVEY_READY
      | Ready \<Rightarrow> SURVEY_READY
      | Running \<Rightarrow> SURVEY_RUNNING
      | Blocked \<Rightarrow> SURVEY_BLOCKED
      | Finished \<Rightarrow> SURVEY_DEAD
      | Dead \<Rightarrow> SURVEY_DEAD)"

definition survey_supervised :: "ep_id \<Rightarrow> u64 \<Rightarrow> 's sched \<Rightarrow> u64 \<times> u64 \<times> u64" where
  "survey_supervised ep cursor k =
     (case find (\<lambda>(slot, t, th). survey_includes (fault_ep th) ep) (table_iter_from (threads k) (unat cursor)) of
        Some (slot, t, th) \<Rightarrow> (of_nat slot + 1, t, survey_state (state (handshake th)))
      | None \<Rightarrow> (SURVEY_DONE, 0, 0))"

datatype region_reap = ReapIt | RefuseAndArm | RefuseStanding

definition region_reap_verdict :: "run_state \<Rightarrow> bool \<Rightarrow> region_reap" where
  "region_reap_verdict st oncpu =
     (if st = Ready \<or> st = Running \<or> st = Blocked then RefuseAndArm
      else if oncpu then RefuseStanding
      else ReapIt)"

definition in_span :: "u64 \<Rightarrow> u64 \<Rightarrow> u64 \<Rightarrow> bool" where
  "in_span lo hi phys \<longleftrightarrow> lo \<le> phys \<and> phys < hi"

text \<open>Drain one endpoint: every waiter, senders first, is marked aborted and woken, then the name dies.\<close>

definition abort_waiters :: "nat \<Rightarrow> tid list \<Rightarrow> 's sched \<Rightarrow> 's sched" where
  "abort_waiters c ws k = fold (\<lambda>t k. wake c t (set_ipc_aborted k t)) ws k"

definition reap_endpoint :: "nat \<Rightarrow> ep_id \<Rightarrow> 's sched \<Rightarrow> 's sched checked" where
  "reap_endpoint c name k =
     (case endpoint_of k name of
        None \<Rightarrow> Ok (k\<lparr>endpoints := snd (table_remove (endpoints k) name)\<rparr>)
      | Some (phys, e) \<Rightarrow>
          let ws = asenders e @ areceivers e;
              k1 = put_endpoint k phys (e\<lparr>asenders := [], areceivers := []\<rparr>)
          in rust_assert (length ws \<le> MAX_THREADS) ''index out of bounds''
               (let k2 = abort_waiters c ws k1
                in Ok (k2\<lparr>endpoints := snd (table_remove (endpoints k2) name)\<rparr>)))"

text \<open>The endpoint phase: rescan for one at a time until the region hosts none.\<close>

fun reap_endpoints :: "nat \<Rightarrow> nat \<Rightarrow> u64 \<Rightarrow> u64 \<Rightarrow> 's sched \<Rightarrow> 's sched checked option" where
  "reap_endpoints fuel c lo hi k =
     (case find (\<lambda>(name, phys). in_span lo hi phys) (table_iter (endpoints k)) of
        None \<Rightarrow> Some (Ok k)
      | Some (name, _) \<Rightarrow>
          (case fuel of
             0 \<Rightarrow> None
           | Suc n \<Rightarrow>
               (case reap_endpoint c name k of
                  Err e \<Rightarrow> Some (Err e)
                | Ok k1 \<Rightarrow> reap_endpoints n c lo hi k1)))"

text \<open>The refuse phase: arm the kill on every live resident, and say whether any refuses.\<close>

definition resident :: "u64 \<Rightarrow> u64 \<Rightarrow> 's thread \<Rightarrow> bool" where
  "resident lo hi th \<longleftrightarrow> in_span lo hi (tcb_page th)"

definition thread_verdict :: "'s thread \<Rightarrow> region_reap" where
  "thread_verdict th = region_reap_verdict (state (handshake th)) (on_cpu (handshake th))"

definition arm_kills :: "u64 \<Rightarrow> u64 \<Rightarrow> 's sched \<Rightarrow> 's sched" where
  "arm_kills lo hi k =
     k\<lparr>threads := table_iter_mut (threads k)
         (\<lambda>th. if resident lo hi th \<and> thread_verdict th = RefuseAndArm then th\<lparr>killed := True\<rparr> else th)\<rparr>"

definition region_refuses :: "u64 \<Rightarrow> u64 \<Rightarrow> 's sched \<Rightarrow> bool" where
  "region_refuses lo hi k \<longleftrightarrow>
     list_ex (\<lambda>th. resident lo hi th \<and> thread_verdict th \<noteq> ReapIt) (table_values (threads k))"

text \<open>The removal phase: a corpse leaves its supervision endpoint before its page is freed.\<close>

definition unlink_corpse :: "tid \<Rightarrow> 's sched \<Rightarrow> 's sched" where
  "unlink_corpse t k =
     (case threads_get k t of
        None \<Rightarrow> k
      | Some th \<Rightarrow>
          if state (handshake th) \<noteq> Dead then k
          else (case fault_ep th of
                  None \<Rightarrow> k
                | Some ep \<Rightarrow>
                    (case endpoint_of k ep of
                       None \<Rightarrow> k
                     | Some (phys, e) \<Rightarrow>
                         put_endpoint k phys (e\<lparr>asenders := filter (\<lambda>s. s \<noteq> t) (asenders e)\<rparr>))))"

definition remove_residents :: "u64 \<Rightarrow> u64 \<Rightarrow> 's sched \<Rightarrow> 's sched" where
  "remove_residents lo hi k =
     fold (\<lambda>t k. threads_remove (unlink_corpse t k) t)
       (map fst (filter (\<lambda>(t, th). resident lo hi th) (table_iter (threads k)))) k"

definition reap_region_objects :: "nat \<Rightarrow> u64 \<Rightarrow> u64 \<Rightarrow> 's sched \<Rightarrow> ((unit + unit) \<times> 's sched) checked option" where
  "reap_region_objects c lo hi k =
     (case reap_endpoints (table_len (endpoints k)) c lo hi k of
        None \<Rightarrow> None
      | Some (Err e) \<Rightarrow> Some (Err e)
      | Some (Ok k1) \<Rightarrow>
          let k2 = arm_kills lo hi k1
          in if region_refuses lo hi k2 then Some (Ok (Err (), k2))
             else Some (Ok (Ok (), remove_residents lo hi k2)))"

section \<open>Boot, spawning and work stealing\<close>

text \<open>
  The kernel's own threads live on pages of the kernel budget: the page that \<open>kmem::page\<close> answered
  is an argument (None when the budget is exhausted), and a refused insert gives it back.
\<close>

definition threads_insert_with :: "'s sched \<Rightarrow> u64 option \<Rightarrow> (tid \<Rightarrow> 's thread) \<Rightarrow> tid option \<times> 's sched" where
  "threads_insert_with k page f =
     (case page of
        None \<Rightarrow> (None, k)
      | Some p \<Rightarrow>
          (case threads_insert_from_page k p f of
             (None, k1) \<Rightarrow> (None, k1\<lparr>recycled := p # recycled k1\<rparr>)
           | (Some t, k1) \<Rightarrow> (Some t, k1)))"

text \<open>\<open>built\<close> is what the builder answers: whether it found a kernel stack and wrote the thread.\<close>

definition threads_insert_in_place :: "'s sched \<Rightarrow> u64 option \<Rightarrow> bool \<Rightarrow> (tid \<Rightarrow> 's thread) \<Rightarrow> tid option \<times> 's sched" where
  "threads_insert_in_place k page built f =
     (case page of
        None \<Rightarrow> (None, k)
      | Some p \<Rightarrow>
          (case threads_insert_from_page k p f of
             (None, k1) \<Rightarrow> (None, k1\<lparr>recycled := p # recycled k1\<rparr>)
           | (Some t, k1) \<Rightarrow>
               if built then (Some t, k1)
               else (None, k1\<lparr>threads := snd (table_remove (threads k1) t), recycled := p # recycled k1\<rparr>)))"

definition thread_boot :: "'s thread" where
  "thread_boot = \<lparr>handshake = on_cpu_now, cspace = cspace_new CSPACE_SLOTS, mailbox = [0, 0, 0, 0, 0],
     outgoing_cap = None, space = None, entry = (0, 0), start_args = [0, 0, 0], tcb_page = 0,
     tcb_kmem = True, killed = False, fault_ep = None, tcb_region = None, fault_msg = None\<rparr>"

definition thread_adopt_current :: "'s thread" where
  "thread_adopt_current = \<lparr>handshake = on_cpu_now, cspace = cspace_new CSPACE_SLOTS, mailbox = [0, 0, 0, 0, 0],
     outgoing_cap = None, space = None, entry = (0, 0), start_args = [0, 0, 0], tcb_page = 0,
     tcb_kmem = True, killed = False, fault_ep = None, tcb_region = None, fault_msg = None\<rparr>"

definition thread_spawned :: "'s thread" where
  "thread_spawned = \<lparr>handshake = ready, cspace = cspace_new CSPACE_SLOTS, mailbox = [0, 0, 0, 0, 0],
     outgoing_cap = None, space = None, entry = (0, 0), start_args = [0, 0, 0], tcb_page = 0,
     tcb_kmem = True, killed = False, fault_ep = None, tcb_region = None, fault_msg = None\<rparr>"

text \<open>The per-core block before a core comes up; no thread and no endpoint has a name yet.\<close>

definition sched_new :: "'s sched" where
  "sched_new = \<lparr>threads = table_new MAX_THREADS, endpoints = table_new MAX_ENDPOINTS, ep_page = (\<lambda>_. aep_new),
     runq = (\<lambda>_. []), inbox = (\<lambda>_. []), current = (\<lambda>_. - 1), idle = (\<lambda>_. None),
     switched_from = (\<lambda>_. None), recycled = []\<rparr>"

definition sched_init :: "nat \<Rightarrow> u64 option \<Rightarrow> bool \<Rightarrow> u64 option \<Rightarrow> 's sched checked" where
  "sched_init c boot_page idle_stack idle_page =
     (case threads_insert_with sched_new boot_page (\<lambda>_. thread_boot) of (boot_tid, k) \<Rightarrow>
        unwrap boot_tid ''a fresh table refused its first insert'' (\<lambda>boot_tid.
          let k1 = k\<lparr>current := (current k)(c := boot_tid)\<rparr>
          in rust_assert idle_stack ''could not create the idle thread''
               (case threads_insert_with k1 idle_page (\<lambda>_. thread_spawned) of (idle_id, k2) \<Rightarrow>
                  unwrap idle_id ''thread table full at boot'' (\<lambda>idle_id.
                    Ok (k2\<lparr>idle := (idle k2)(c := Some idle_id)\<rparr>)))))"

definition adopt_secondary_idle :: "nat \<Rightarrow> u64 option \<Rightarrow> 's sched \<Rightarrow> 's sched checked" where
  "adopt_secondary_idle c page k =
     (case threads_insert_with k page (\<lambda>_. thread_adopt_current) of (i, k1) \<Rightarrow>
        unwrap i ''thread table full while bringing a core online'' (\<lambda>i.
          Ok (k1\<lparr>current := (current k1)(c := i), idle := (idle k1)(c := Some i)\<rparr>)))"

definition spawn_on :: "nat \<Rightarrow> nat \<Rightarrow> u64 option \<Rightarrow> bool \<Rightarrow> 's sched \<Rightarrow> (tid option \<times> 's sched) checked" where
  "spawn_on c target page stack k =
     (case threads_insert_in_place k page stack (\<lambda>_. thread_spawned) of
        (None, k1) \<Rightarrow> Ok (None, k1)
      | (Some t, k1) \<Rightarrow> tcb_ptr k1 t (\<lambda>p. Ok (Some t, place_on c target p k1)))"

text \<open>
  The load a core advertises, and the choices made from it. The online cores are the list that
  \<open>smp::online_cpus\<close> walks; the two random samples of a spawn are arguments.
\<close>

definition runnable :: "'s sched \<Rightarrow> nat \<Rightarrow> nat" where
  "runnable k c = length (runq k c) + length (inbox k c)"

definition pick_spawn_target :: "nat \<Rightarrow> nat list \<Rightarrow> nat \<Rightarrow> nat \<Rightarrow> 's sched \<Rightarrow> nat" where
  "pick_spawn_target c online r1 r2 k =
     (if length online \<le> 1 then c
      else let a = online ! (r1 mod length online); b = online ! (r2 mod length online)
           in if runnable k a \<le> runnable k b then a else b)"

definition pick_wake_target :: "nat \<Rightarrow> nat list \<Rightarrow> 's sched \<Rightarrow> nat" where
  "pick_wake_target here online k =
     fst (foldl (\<lambda>(best, best_load) c.
            if c = here then (best, best_load)
            else if runnable k c < best_load then (c, runnable k c) else (best, best_load))
          (here, runnable k here) online)"

definition steal_victim :: "nat \<Rightarrow> nat list \<Rightarrow> 's sched \<Rightarrow> nat option" where
  "steal_victim me online k =
     (if runnable k me > 0 then None
      else fst (foldl (\<lambda>(victim, best) c.
             if c \<noteq> me \<and> length (runq k c) > best then (Some c, length (runq k c)) else (victim, best))
           (None, 0) online))"

definition serve_steal_request :: "nat \<Rightarrow> nat \<Rightarrow> 's sched \<Rightarrow> 's sched" where
  "serve_steal_request c requester k =
     (case runq k c of
        [] \<Rightarrow> k
      | t # q \<Rightarrow>
          let k1 = k\<lparr>runq := (runq k)(c := q)\<rparr>
          in k1\<lparr>inbox := (inbox k1)(requester := inbox k1 requester @ [t])\<rparr>)"

section \<open>Sweeps over the thread table\<close>

definition delete_device_frame_caps_from_others :: "nat \<Rightarrow> u64 \<Rightarrow> 's sched \<Rightarrow> 's sched" where
  "delete_device_frame_caps_from_others c phys k =
     foldl (\<lambda>k t. if t = current k c then k
         else threads_get_mut k t (\<lambda>th. th\<lparr>cspace := delete_object (DeviceFrame_obj phys) (cspace th)\<rparr>))
       k (map fst (table_iter (threads k)))"

definition kill_thread :: "tid \<Rightarrow> 's sched \<Rightarrow> bool \<times> 's sched" where
  "kill_thread t k =
     (case threads_get k t of
        None \<Rightarrow> (False, k)
      | Some _ \<Rightarrow> (True, threads_get_mut k t (\<lambda>th. th\<lparr>killed := True\<rparr>)))"

definition thread_present :: "tid \<Rightarrow> 's sched \<Rightarrow> bool" where
  "thread_present t k \<longleftrightarrow> threads_get k t \<noteq> None"

definition corpse_fault_msg :: "tid \<Rightarrow> 's sched \<Rightarrow> u64 list option" where
  "corpse_fault_msg t k =
     (case threads_get k t of
        None \<Rightarrow> None
      | Some th \<Rightarrow> if state (handshake th) = Dead then fault_msg th else None)"

definition runnable_non_idle_count :: "tid \<Rightarrow> nat list \<Rightarrow> 's sched \<Rightarrow> nat" where
  "runnable_non_idle_count exclude online k =
     length (filter (\<lambda>(t, th). (state (handshake th) = Ready \<or> state (handshake th) = Running) \<and>
         t \<noteq> exclude \<and> Some t \<notin> set (map (idle k) online))
       (table_iter (threads k)))"

end
