(* ===== verification/SchedInv.thy ===== *)
theory SchedInv
  imports Sched
begin

text \<open>
  The queue discipline of the scheduler, the safety argument its comments make for every raw
  pointer: a thread on a wait queue is alive and parked there, a thread on a run queue or inbox is
  ready, no thread is on two queues, a core stands on one thread's stack, and a reply capability
  names a caller that is parked and on no queue. The invariant is stated on a view of the state (the
  threads, the two wait queues of each endpoint name, the run queues, the cores), so that each
  operation is a few updates of functions; the primitive updates are proved once and the operations
  compose them.
\<close>

section \<open>The view of a scheduler state\<close>

record 's view =
  vT :: "tid \<Rightarrow> 's thread option"
  vS :: "ep_id \<Rightarrow> tid list"
  vR :: "ep_id \<Rightarrow> tid list"
  vQ :: "nat \<Rightarrow> tid list"
  vX :: "nat \<Rightarrow> tid list"
  vcur :: "nat \<Rightarrow> tid"
  vidle :: "nat \<Rightarrow> tid option"
  vsw :: "nat \<Rightarrow> tid option"

definition view :: "'s sched \<Rightarrow> 's view" where
  "view k = \<lparr>vT = threads_get k,
     vS = (\<lambda>n. case endpoint_of k n of None \<Rightarrow> [] | Some (_, e) \<Rightarrow> asenders e),
     vR = (\<lambda>n. case endpoint_of k n of None \<Rightarrow> [] | Some (_, e) \<Rightarrow> areceivers e),
     vQ = runq k, vX = inbox k, vcur = current k, vidle = idle k, vsw = switched_from k\<rparr>"

definition tables_ok :: "'s sched \<Rightarrow> bool" where
  "tables_ok k \<longleftrightarrow> table_wf (threads k) \<and> length (slots (threads k)) = MAX_THREADS \<and> table_wf (endpoints k) \<and>
     (\<forall>n m p. table_get (endpoints k) n = Some p \<longrightarrow> table_get (endpoints k) m = Some p \<longrightarrow> n = m)"

lemma threads_get_view [simp]: "threads_get k t = vT (view k) t"
  by (simp add: view_def)

lemma view_threads_get_mut [simp]:
  assumes "tables_ok k"
  shows "view (threads_get_mut k t f) = (view k)\<lparr>vT := (vT (view k))(t := map_option f (vT (view k) t))\<rparr>"
  using tbl.upd_get [of "threads k" t f] assms
  by (auto simp: view_def threads_get_mut_def threads_get_def [abs_def] tables_ok_def endpoint_of_def fun_eq_iff)

lemma table_length [simp]:
  "length (slots (table_get_mut t n f)) = length (slots t)"
  "length (slots (snd (table_insert_with t g))) = length (slots t)"
  "length (slots (snd (table_remove t n))) = length (slots t)"
  "length (slots (table_iter_mut t f)) = length (slots t)"
  by (simp_all add: table_get_mut_def table_insert_with_def table_remove_def table_iter_mut_def Let_def
      split: option.splits)

lemma tables_threads_get_mut [simp]: "tables_ok k \<Longrightarrow> tables_ok (threads_get_mut k t f)"
  by (simp add: tables_ok_def threads_get_mut_def tbl.upd_ok)

lemma view_put_endpoint:
  assumes "tables_ok k" "endpoint_of k n = Some (phys, e)"
  shows "view (put_endpoint k phys e') = (view k)\<lparr>vS := (vS (view k))(n := asenders e'),
    vR := (vR (view k))(n := areceivers e')\<rparr>"
  using assms
  by (auto simp: view_def put_endpoint_def endpoint_of_def tables_ok_def threads_get_def [abs_def] fun_eq_iff
      split: option.splits)

lemma tables_put_endpoint [simp]: "tables_ok k \<Longrightarrow> tables_ok (put_endpoint k phys e)"
  by (simp add: tables_ok_def put_endpoint_def)

lemma endpoint_of_view:
  "endpoint_of k n = Some (phys, e) \<Longrightarrow> vS (view k) n = asenders e \<and> vR (view k) n = areceivers e"
  by (simp add: view_def)

lemma view_push_runq [simp]:
  "view (push_runq c t k) = (view k)\<lparr>vQ := (vQ (view k))(c := vQ (view k) c @ [t])\<rparr>"
  by (simp add: view_def push_runq_def threads_get_def [abs_def] endpoint_of_def fun_eq_iff)

lemma tables_push_runq [simp]: "tables_ok k \<Longrightarrow> tables_ok (push_runq c t k)"
  by (simp add: tables_ok_def push_runq_def)

lemma current_push_runq [simp]: "current (push_runq c t k) = current k" "idle (push_runq c t k) = idle k"
  "runq (push_runq c t k) d = (if d = c then runq k c @ [t] else runq k d)"
  by (simp_all add: push_runq_def)

lemma fields_get_mut [simp]:
  "current (threads_get_mut k t f) = current k" "idle (threads_get_mut k t f) = idle k"
  "runq (threads_get_mut k t f) = runq k" "endpoint_of (threads_get_mut k t f) = endpoint_of k"
  "switched_from (threads_get_mut k t f) = switched_from k" "inbox (threads_get_mut k t f) = inbox k"
  by (simp_all add: threads_get_mut_def endpoint_of_def fun_eq_iff)

lemma fields_put_endpoint [simp]:
  "current (put_endpoint k p e) = current k" "idle (put_endpoint k p e) = idle k"
  "runq (put_endpoint k p e) = runq k"
  by (simp_all add: put_endpoint_def)

lemma view_fields [simp]: "vcur (view k) = current k" "vidle (view k) = idle k" "vQ (view k) = runq k"
  "vX (view k) = inbox k" "vsw (view k) = switched_from k"
  by (simp_all add: view_def)

section \<open>The invariant\<close>

definition parked_sender :: "ep_id \<Rightarrow> 's thread \<Rightarrow> bool" where
  "parked_sender n th \<longleftrightarrow> (let h = handshake th in \<not> wake_pending h \<and>
     (wait_on h = Some (n, Sender) \<and> (state h = Blocked \<or> state h = Dead \<and> fault_ep th = Some n) \<or>
      wait_on h = Some (n, AwaitReply) \<and> state h = Blocked))"

definition parked_receiver :: "ep_id \<Rightarrow> (ep_id \<times> wait_role) handshake \<Rightarrow> bool" where
  "parked_receiver n h \<longleftrightarrow> \<not> wake_pending h \<and> wait_on h = Some (n, Receiver) \<and> state h = Blocked"

text \<open>\<open>thr v t P\<close>: the name \<open>t\<close> is alive and its thread satisfies \<open>P\<close>; \<open>thr_if\<close>: if it is alive.\<close>

definition thr :: "'s view \<Rightarrow> tid \<Rightarrow> ('s thread \<Rightarrow> bool) \<Rightarrow> bool" where
  "thr v t P = (case vT v t of None \<Rightarrow> False | Some th \<Rightarrow> P th)"

definition thr_if :: "'s view \<Rightarrow> tid \<Rightarrow> ('s thread \<Rightarrow> bool) \<Rightarrow> bool" where
  "thr_if v t P = (case vT v t of None \<Rightarrow> True | Some th \<Rightarrow> P th)"

abbreviation hst :: "'s thread \<Rightarrow> run_state" where
  "hst th \<equiv> state (handshake th)"

lemma thr_update [simp]:
  "thr (v\<lparr>vT := (vT v)(t := Some th)\<rparr>) x P = (if x = t then P th else thr v x P)"
  "thr_if (v\<lparr>vT := (vT v)(t := Some th)\<rparr>) x P = (if x = t then P th else thr_if v x P)"
  by (simp_all add: thr_def thr_if_def)

lemma thr_fields [simp]:
  "thr (v\<lparr>vS := a\<rparr>) = thr v" "thr (v\<lparr>vR := a\<rparr>) = thr v" "thr (v\<lparr>vQ := b\<rparr>) = thr v"
  "thr (v\<lparr>vX := b\<rparr>) = thr v" "thr (v\<lparr>vcur := d\<rparr>) = thr v" "thr (v\<lparr>vsw := e\<rparr>) = thr v"
  "thr_if (v\<lparr>vS := a\<rparr>) = thr_if v" "thr_if (v\<lparr>vR := a\<rparr>) = thr_if v" "thr_if (v\<lparr>vQ := b\<rparr>) = thr_if v"
  "thr_if (v\<lparr>vX := b\<rparr>) = thr_if v" "thr_if (v\<lparr>vcur := d\<rparr>) = thr_if v" "thr_if (v\<lparr>vsw := e\<rparr>) = thr_if v"
  by (simp_all add: thr_def thr_if_def fun_eq_iff)

lemma thr_Some: "vT v t = Some th \<Longrightarrow> thr v t P = P th" "vT v t = Some th \<Longrightarrow> thr_if v t P = P th"
  by (simp_all add: thr_def thr_if_def)

lemma thr_iff: "thr v t P \<longleftrightarrow> (\<exists>th. vT v t = Some th \<and> P th)"
  by (simp add: thr_def split: option.splits)

lemma thrE: "thr v t P \<Longrightarrow> (\<And>th. vT v t = Some th \<Longrightarrow> P th \<Longrightarrow> thesis) \<Longrightarrow> thesis"
  by (simp add: thr_def split: option.splits)

definition queues_ok :: "'s view \<Rightarrow> bool" where
  "queues_ok v \<longleftrightarrow> (\<forall>n. distinct (vS v n) \<and> distinct (vR v n)) \<and>
     (\<forall>n. \<forall>t \<in> set (vS v n). thr v t (parked_sender n)) \<and>
     (\<forall>n. \<forall>t \<in> set (vR v n). thr v t (\<lambda>th. parked_receiver n (handshake th)))"

definition placed :: "'s view \<Rightarrow> nat \<Rightarrow> tid set" where
  "placed v c = set (vQ v c) \<union> set (vX v c)"

definition runqs_ok :: "nat set \<Rightarrow> 's view \<Rightarrow> bool" where
  "runqs_ok on v \<longleftrightarrow> (\<forall>c. distinct (vQ v c @ vX v c)) \<and>
     (\<forall>c d. \<forall>t \<in> placed v c. t \<in> placed v d \<longrightarrow> c = d) \<and>
     (\<forall>c. \<forall>t \<in> placed v c. thr v t (\<lambda>th. hst th = Ready)) \<and>
     (\<forall>c \<in> on. \<forall>i d. vidle v c = Some i \<longrightarrow> i \<notin> placed v d)"

text \<open>An idle thread stays out of the run queues: running, or ready and never switched to.\<close>

abbreviation idle_state :: "'s thread \<Rightarrow> bool" where
  "idle_state th \<equiv> hst th = Running \<or> hst th = Ready \<and> \<not> on_cpu (handshake th)"

text \<open>What every thread satisfies about the cores it may stand on.\<close>

definition standing_ok :: "nat set \<Rightarrow> 's view \<Rightarrow> tid \<Rightarrow> 's thread \<Rightarrow> bool" where
  "standing_ok on v t th \<longleftrightarrow>
     (on_cpu (handshake th) \<longrightarrow> (\<exists>c \<in> on. vcur v c = t \<or> vsw v c = Some t)) \<and>
     (on_cpu (handshake th) \<and> hst th = Ready \<longrightarrow> (\<exists>c \<in> on. vsw v c = Some t \<and> t \<in> set (vQ v c))) \<and>
     (wake_pending (handshake th) \<longrightarrow> hst th = Blocked \<and> on_cpu (handshake th))"

definition cores_ok :: "nat set \<Rightarrow> 's view \<Rightarrow> bool" where
  "cores_ok on v \<longleftrightarrow>
     (\<forall>c \<in> on. thr v (vcur v c) (\<lambda>th. on_cpu (handshake th) \<and> hst th \<noteq> Ready \<and> hst th \<noteq> Embryo)) \<and>
     inj_on (vcur v) on \<and>
     (\<forall>c \<in> on. \<forall>t. vsw v c = Some t \<longrightarrow>
        thr v t (\<lambda>th. on_cpu (handshake th) \<and> hst th \<noteq> Embryo) \<and>
        (\<forall>d \<in> on. vcur v d \<noteq> t) \<and> (\<forall>d \<in> on. vsw v d = Some t \<longrightarrow> d = c)) \<and>
     (\<forall>t. thr_if v t (standing_ok on v t)) \<and>
     (\<forall>c \<in> on. \<forall>i. vidle v c = Some i \<longrightarrow>
        thr v i (\<lambda>th. idle_state th \<and> \<not> killed th \<and>
           (on_cpu (handshake th) \<longrightarrow> vcur v c = i \<or> vsw v c = Some i)))"

text \<open>\<open>holds_reply v t u s\<close>: slot \<open>s\<close> of thread \<open>u\<close> holds a reply capability for the caller \<open>t\<close>.\<close>

definition names_reply :: "kcap option \<Rightarrow> tid \<Rightarrow> bool" where
  "names_reply oc t \<longleftrightarrow> (\<exists>cp. oc = Some cp \<and> object cp = Reply_obj t)"

definition holds_reply :: "'s view \<Rightarrow> tid \<Rightarrow> tid \<Rightarrow> u64 \<Rightarrow> bool" where
  "holds_reply v t u s \<longleftrightarrow> thr v u (\<lambda>th. names_reply (cap_at (cspace th) s) t)"

definition awaiting :: "'s view \<Rightarrow> tid \<Rightarrow> bool" where
  "awaiting v t \<longleftrightarrow>
     thr_if v t (\<lambda>th. (hst th = Blocked \<or> hst th = Dead) \<and> \<not> wake_pending (handshake th)) \<and>
     (\<forall>n. t \<notin> set (vS v n) \<and> t \<notin> set (vR v n))"

definition caps_ok :: "tid \<Rightarrow> 's thread \<Rightarrow> bool" where
  "caps_ok u th \<longleftrightarrow> cspace_wf CSPACE_SLOTS (cspace th) \<and>
     (\<forall>s t. names_reply (cap_at (cspace th) s) t \<longrightarrow> cap_at (cspace th) s = Some (reply_cap t)) \<and>
     (\<forall>t. names_reply (outgoing_cap th) t \<longrightarrow> t = u \<and> outgoing_cap th = Some (reply_cap u))"

definition replies_ok :: "'s view \<Rightarrow> bool" where
  "replies_ok v \<longleftrightarrow>
     (\<forall>t u s. holds_reply v t u s \<longrightarrow> awaiting v t) \<and>
     (\<forall>t u s u' s'. holds_reply v t u s \<longrightarrow> holds_reply v t u' s' \<longrightarrow> u = u' \<and> s = s') \<and>
     (\<forall>u. thr_if v u (caps_ok u))"

definition view_inv :: "nat set \<Rightarrow> 's view \<Rightarrow> bool" where
  "view_inv on v \<longleftrightarrow> queues_ok v \<and> runqs_ok on v \<and> cores_ok on v \<and> replies_ok v"

text \<open>The whole invariant, for the cores \<open>on\<close> that are up; each of them has an idle thread of its own.\<close>

definition idles_ok :: "nat set \<Rightarrow> 's sched \<Rightarrow> bool" where
  "idles_ok on k \<longleftrightarrow> (\<forall>c \<in> on. idle k c \<noteq> None) \<and>
     (\<forall>c \<in> on. \<forall>d \<in> on. idle k c = idle k d \<longrightarrow> c = d)"

definition sched_inv :: "nat set \<Rightarrow> 's sched \<Rightarrow> bool" where
  "sched_inv on k \<longleftrightarrow> tables_ok k \<and> idles_ok on k \<and> view_inv on (view k)"

section \<open>Primitive updates of the view\<close>

lemma inv_sender:
  "view_inv on v \<Longrightarrow> t \<in> set (vS v n) \<Longrightarrow> \<exists>th. vT v t = Some th \<and> parked_sender n th"
  unfolding view_inv_def queues_ok_def thr_iff by blast

lemma inv_receiver:
  "view_inv on v \<Longrightarrow> t \<in> set (vR v n) \<Longrightarrow> \<exists>th. vT v t = Some th \<and> parked_receiver n (handshake th)"
  unfolding view_inv_def queues_ok_def thr_iff by blast

lemma inv_placed:
  "view_inv on v \<Longrightarrow> t \<in> placed v c \<Longrightarrow> \<exists>th. vT v t = Some th \<and> hst th = Ready"
  unfolding view_inv_def runqs_ok_def thr_iff by blast

lemma inv_current:
  "view_inv on v \<Longrightarrow> c \<in> on \<Longrightarrow>
     \<exists>th. vT v (vcur v c) = Some th \<and> on_cpu (handshake th) \<and> hst th \<noteq> Ready \<and> hst th \<noteq> Embryo"
  unfolding view_inv_def cores_ok_def thr_iff by blast

lemma inv_switched:
  "view_inv on v \<Longrightarrow> c \<in> on \<Longrightarrow> vsw v c = Some t \<Longrightarrow>
     (\<exists>th. vT v t = Some th \<and> on_cpu (handshake th) \<and> hst th \<noteq> Embryo) \<and>
     (\<forall>d \<in> on. vcur v d \<noteq> t) \<and> (\<forall>d \<in> on. vsw v d = Some t \<longrightarrow> d = c)"
  unfolding view_inv_def cores_ok_def thr_iff by blast

lemma inv_cores:
  "view_inv on v \<Longrightarrow> c \<in> on \<Longrightarrow>
     thr v (vcur v c) (\<lambda>th. on_cpu (handshake th) \<and> hst th \<noteq> Ready \<and> hst th \<noteq> Embryo)"
  "view_inv on v \<Longrightarrow> c \<in> on \<Longrightarrow> vsw v c = Some t \<Longrightarrow>
     thr v t (\<lambda>th. on_cpu (handshake th) \<and> hst th \<noteq> Embryo) \<and>
     (\<forall>d \<in> on. vcur v d \<noteq> t) \<and> (\<forall>d \<in> on. vsw v d = Some t \<longrightarrow> d = c)"
  "view_inv on v \<Longrightarrow> c \<in> on \<Longrightarrow> vidle v c = Some t \<Longrightarrow>
     thr v t (\<lambda>th. idle_state th \<and> \<not> killed th \<and>
       (on_cpu (handshake th) \<longrightarrow> vcur v c = t \<or> vsw v c = Some t))"
  unfolding view_inv_def cores_ok_def by blast+

lemma inv_standing: "view_inv on v \<Longrightarrow> vT v t = Some th \<Longrightarrow> standing_ok on v t th"
  unfolding view_inv_def cores_ok_def by (metis thr_Some(2))

lemma inv_idle:
  "view_inv on v \<Longrightarrow> c \<in> on \<Longrightarrow> vidle v c = Some i \<Longrightarrow>
     \<exists>th. vT v i = Some th \<and> idle_state th \<and> \<not> killed th \<and>
       (on_cpu (handshake th) \<longrightarrow> vcur v c = i \<or> vsw v c = Some i)"
  unfolding view_inv_def cores_ok_def thr_iff by blast

lemma inv_idle_unplaced: "view_inv on v \<Longrightarrow> c \<in> on \<Longrightarrow> vidle v c = Some i \<Longrightarrow> i \<notin> placed v d"
  unfolding view_inv_def runqs_ok_def by blast

lemma inv_caps: "view_inv on v \<Longrightarrow> vT v t = Some th \<Longrightarrow> caps_ok t th"
  unfolding view_inv_def replies_ok_def by (metis thr_Some(2))

lemma inv_awaiting: "view_inv on v \<Longrightarrow> holds_reply v t u s \<Longrightarrow> awaiting v t"
  unfolding view_inv_def replies_ok_def by blast

lemma inv_unique: "view_inv on v \<Longrightarrow> holds_reply v t u s \<Longrightarrow> holds_reply v t u' s' \<Longrightarrow> u' = u \<and> s' = s"
  unfolding view_inv_def replies_ok_def by blast

lemma queues_okI:
  assumes "\<And>n. distinct (vS v n)" "\<And>n. distinct (vR v n)"
    and "\<And>n t. t \<in> set (vS v n) \<Longrightarrow> thr v t (parked_sender n)"
    and "\<And>n t. t \<in> set (vR v n) \<Longrightarrow> thr v t (\<lambda>th. parked_receiver n (handshake th))"
  shows "queues_ok v"
  using assms by (simp add: queues_ok_def)

lemma runqs_okI:
  assumes "\<And>c. distinct (vQ v c @ vX v c)"
    and "\<And>c d t. t \<in> placed v c \<Longrightarrow> t \<in> placed v d \<Longrightarrow> c = d"
    and "\<And>c t. t \<in> placed v c \<Longrightarrow> thr v t (\<lambda>th. hst th = Ready)"
    and "\<And>c i d. c \<in> on \<Longrightarrow> vidle v c = Some i \<Longrightarrow> i \<notin> placed v d"
  shows "runqs_ok on v"
  using assms unfolding runqs_ok_def by blast

lemma cores_okI:
  assumes "\<And>c. c \<in> on \<Longrightarrow>
      thr v (vcur v c) (\<lambda>th. on_cpu (handshake th) \<and> hst th \<noteq> Ready \<and> hst th \<noteq> Embryo)"
    and "inj_on (vcur v) on"
    and "\<And>c t. c \<in> on \<Longrightarrow> vsw v c = Some t \<Longrightarrow>
      thr v t (\<lambda>th. on_cpu (handshake th) \<and> hst th \<noteq> Embryo) \<and>
      (\<forall>d \<in> on. vcur v d \<noteq> t) \<and> (\<forall>d \<in> on. vsw v d = Some t \<longrightarrow> d = c)"
    and "\<And>t. thr_if v t (standing_ok on v t)"
    and "\<And>c i. c \<in> on \<Longrightarrow> vidle v c = Some i \<Longrightarrow>
      thr v i (\<lambda>th. idle_state th \<and> \<not> killed th \<and>
         (on_cpu (handshake th) \<longrightarrow> vcur v c = i \<or> vsw v c = Some i))"
  shows "cores_ok on v"
  using assms unfolding cores_ok_def by blast

lemma inv_distinct:
  assumes "view_inv on v"
  shows "distinct (vS v n)" "distinct (vR v n)" "distinct (vQ v c @ vX v c)" "inj_on (vcur v) on"
    "t \<in> placed v c \<Longrightarrow> t \<in> placed v d \<Longrightarrow> c = d"
proof -
  have ok: "queues_ok v" "runqs_ok on v" "cores_ok on v" using assms by (simp_all add: view_inv_def)
  show "distinct (vS v n)" "distinct (vR v n)" using ok(1) by (simp_all add: queues_ok_def)
  show "distinct (vQ v c @ vX v c)" "t \<in> placed v c \<Longrightarrow> t \<in> placed v d \<Longrightarrow> c = d"
    using ok(2) unfolding runqs_ok_def by blast+
  show "inj_on (vcur v) on" using ok(3) by (simp add: cores_ok_def)
qed

definition unqueued :: "'s view \<Rightarrow> tid \<Rightarrow> bool" where
  "unqueued v t \<longleftrightarrow> (\<forall>n. t \<notin> set (vS v n) \<and> t \<notin> set (vR v n))"

lemma not_parked_unqueued:
  assumes "view_inv on v" "vT v t = Some th" "hst th \<noteq> Blocked" "hst th \<noteq> Dead"
  shows "unqueued v t"
  using inv_sender [OF assms(1)] inv_receiver [OF assms(1)] assms(2-4)
  by (fastforce simp: unqueued_def parked_sender_def Let_def parked_receiver_def)

lemma not_awaiting_no_reply:
  assumes "view_inv on v" "vT v t = Some th" "hst th \<noteq> Blocked" "hst th \<noteq> Dead"
  shows "\<not> holds_reply v t u s"
  using inv_awaiting [OF assms(1), of t u s] assms(2-4) by (auto simp: awaiting_def thr_Some)

text \<open>A thread's update that keeps its state, its stack and what it has parked on.\<close>

definition same_core :: "'s thread \<Rightarrow> 's thread \<Rightarrow> bool" where
  "same_core th th' \<longleftrightarrow> hst th' = hst th \<and> on_cpu (handshake th') = on_cpu (handshake th) \<and>
     wake_pending (handshake th') = wake_pending (handshake th) \<and>
     (hst th = Dead \<longrightarrow> fault_ep th' = fault_ep th)"

text \<open>An update of the capabilities that adds no reply capability.\<close>

definition fewer_replies :: "tid \<Rightarrow> 's thread \<Rightarrow> 's thread \<Rightarrow> bool" where
  "fewer_replies t th th' \<longleftrightarrow> caps_ok t th' \<and>
     (\<forall>s x. names_reply (cap_at (cspace th') s) x \<longrightarrow> names_reply (cap_at (cspace th) s) x)"

lemma replies_update:
  assumes "view_inv on v" "vT v t = Some th" "fewer_replies t th th'"
    and "\<And>x u s. holds_reply v x u s \<Longrightarrow> awaiting v x \<Longrightarrow> awaiting v' x"
    and "vT v' = (vT v)(t := Some th')"
  shows "replies_ok v'"
proof -
  have h: "holds_reply v x u s" if "holds_reply v' x u s" for x u s
    using that assms(2,3,5) by (auto simp: holds_reply_def thr_def fewer_replies_def split: if_splits)
  have "thr_if v' u (caps_ok u)" for u
    using assms(3,5) inv_caps [OF assms(1)] by (auto simp: thr_if_def fewer_replies_def split: option.splits)
  moreover have "awaiting v' x" if "holds_reply v' x u s" for x u s
    using h [OF that] assms(4) inv_awaiting [OF assms(1)] by blast
  moreover have "u = u' \<and> s = s'" if "holds_reply v' x u s" "holds_reply v' x u' s'" for x u s u' s'
    using inv_unique [OF assms(1) h [OF that(1)] h [OF that(2)]] by simp
  ultimately show ?thesis unfolding replies_ok_def by blast
qed

lemma fewer_repliesI:
  assumes "view_inv on v" "vT v t = Some th" "cspace th' = cspace th" "outgoing_cap th' = outgoing_cap th"
  shows "fewer_replies t th th'"
  using inv_caps [OF assms(1,2)] assms(3,4) unfolding fewer_replies_def caps_ok_def by metis

lemma same_core_ok:
  assumes inv: "view_inv on v" and t: "vT v t = Some th" and core: "same_core th th'"
    and wait: "wait_on (handshake th') = wait_on (handshake th) \<or> unqueued v t"
    and kill: "killed th' \<longrightarrow> killed th \<or> (\<forall>c \<in> on. vidle v c \<noteq> Some t)"
  shows "queues_ok (v\<lparr>vT := (vT v)(t := Some th')\<rparr>)" "runqs_ok on (v\<lparr>vT := (vT v)(t := Some th')\<rparr>)"
    "cores_ok on (v\<lparr>vT := (vT v)(t := Some th')\<rparr>)"
proof -
  let ?v = "v\<lparr>vT := (vT v)(t := Some th')\<rparr>"
  note core = core [unfolded same_core_def]
  show "queues_ok ?v"
  proof (rule queues_okI)
    fix n x
    show "thr ?v x (parked_sender n)" if "x \<in> set (vS ?v n)"
      using inv_sender [OF inv, of x n] t core wait that by (auto simp: thr_def parked_sender_def Let_def unqueued_def)
    show "thr ?v x (\<lambda>th. parked_receiver n (handshake th))" if "x \<in> set (vR ?v n)"
      using inv_receiver [OF inv, of x n] t core wait that by (auto simp: thr_def parked_receiver_def unqueued_def)
  qed (use inv_distinct [OF inv] in simp_all)
  show "runqs_ok on ?v"
  proof (rule runqs_okI)
    show "thr ?v x (\<lambda>th. hst th = Ready)" if "x \<in> placed ?v c" for x c
      using inv_placed [OF inv, of x c] t core that by (auto simp: thr_def placed_def)
  qed (use inv_distinct [OF inv] inv_idle_unplaced [OF inv] in \<open>simp_all add: placed_def\<close>)
  show "cores_ok on ?v"
  proof (rule cores_okI)
    fix c x
    show "thr ?v (vcur ?v c) (\<lambda>th. on_cpu (handshake th) \<and> hst th \<noteq> Ready \<and> hst th \<noteq> Embryo)" if "c \<in> on"
      using inv_current [OF inv that] t core by (auto simp: thr_def)
    show "thr ?v x (\<lambda>th. on_cpu (handshake th) \<and> hst th \<noteq> Embryo) \<and>
      (\<forall>d \<in> on. vcur ?v d \<noteq> x) \<and> (\<forall>d \<in> on. vsw ?v d = Some x \<longrightarrow> d = c)" if "c \<in> on" "vsw ?v c = Some x"
      using inv_switched [OF inv, of c x] t core that by (cases "x = t") (simp_all add: thr_iff)
    show "thr_if ?v x (standing_ok on ?v x)"
      using inv_standing [OF inv] t core by (cases "vT v x") (auto simp: thr_if_def standing_ok_def)
    show "thr ?v x (\<lambda>th. idle_state th \<and> \<not> killed th \<and>
      (on_cpu (handshake th) \<longrightarrow> vcur ?v c = x \<or> vsw ?v c = Some x))" if "c \<in> on" "vidle ?v c = Some x"
      using inv_idle [OF inv, of c x] t core kill that by (cases "x = t") (auto simp: thr_iff)
  qed (use inv_distinct [OF inv] in simp)
qed

lemma inv_update:
  assumes inv: "view_inv on v" and t: "vT v t = Some th" and core: "same_core th th'"
    and wait: "wait_on (handshake th') = wait_on (handshake th) \<or> unqueued v t"
    and caps: "fewer_replies t th th'"
    and kill: "killed th' \<longrightarrow> killed th \<or> (\<forall>c \<in> on. vidle v c \<noteq> Some t)"
  shows "view_inv on (v\<lparr>vT := (vT v)(t := Some th')\<rparr>)"
proof -
  have "replies_ok (v\<lparr>vT := (vT v)(t := Some th')\<rparr>)"
    by (rule replies_update [OF inv t caps])
      (use t core in \<open>auto simp: awaiting_def thr_if_def same_core_def split: option.splits\<close>)
  then show ?thesis
    using same_core_ok [OF inv t core wait kill] by (simp add: view_inv_def)
qed

lemma inv_shrink:
  assumes inv: "view_inv on v"
    and S: "\<And>n. distinct (S n)" "\<And>n. set (S n) \<subseteq> set (vS v n)"
    and R: "\<And>n. distinct (R n)" "\<And>n. set (R n) \<subseteq> set (vR v n)"
  shows "view_inv on (v\<lparr>vS := S, vR := R\<rparr>)"
proof -
  let ?v = "v\<lparr>vS := S, vR := R\<rparr>"
  have "queues_ok ?v"
  proof (rule queues_okI)
    fix n x
    show "thr ?v x (parked_sender n)" if "x \<in> set (vS ?v n)"
      using that S(2) [of n] inv_sender [OF inv, of x n] by (auto simp: thr_iff)
    show "thr ?v x (\<lambda>th. parked_receiver n (handshake th))" if "x \<in> set (vR ?v n)"
      using that R(2) [of n] inv_receiver [OF inv, of x n] by (auto simp: thr_iff)
  qed (simp_all add: S R)
  moreover have "standing_ok on ?v = standing_ok on v" by (simp add: standing_ok_def fun_eq_iff)
  then have "runqs_ok on ?v = runqs_ok on v" "cores_ok on ?v = cores_ok on v"
    by (simp_all add: runqs_ok_def cores_ok_def placed_def thr_def thr_if_def)
  moreover have "holds_reply ?v = holds_reply v" by (simp add: holds_reply_def fun_eq_iff)
  moreover have "awaiting ?v x" if "awaiting v x" for x
  proof -
    have "x \<notin> set (S n)" "x \<notin> set (R n)" for n
      using that S(2) [of n] R(2) [of n] by (auto simp: awaiting_def)
    with that show ?thesis by (simp add: awaiting_def)
  qed
  ultimately show ?thesis
    using inv unfolding view_inv_def replies_ok_def by auto
qed

text \<open>A parked or unborn thread becomes ready and joins one run queue or inbox.\<close>

lemma inv_make_ready:
  assumes inv: "view_inv on v" and t: "vT v t = Some th" and un: "unqueued v t"
    and nr: "\<And>u s. \<not> holds_reply v t u s"
    and st: "hst th = Blocked \<or> hst th = Embryo" "\<not> on_cpu (handshake th)"
    and th': "hst th' = Ready" "\<not> on_cpu (handshake th')" "\<not> wake_pending (handshake th')"
    and caps: "fewer_replies t th th'"
    and QX: "Q = (vQ v)(c := vQ v c @ [t]) \<and> X = vX v \<or> Q = vQ v \<and> X = (vX v)(c := vX v c @ [t])"
  shows "view_inv on (v\<lparr>vT := (vT v)(t := Some th'), vQ := Q, vX := X\<rparr>)"
proof -
  let ?v = "v\<lparr>vT := (vT v)(t := Some th'), vQ := Q, vX := X\<rparr>"
  have np: "t \<notin> placed v d" for d using inv_placed [OF inv, of t d] t st by auto
  have pl: "placed ?v d = (if d = c then insert t (placed v c) else placed v d)" for d
    using QX by (auto simp: placed_def)
  have nc: "vcur v d \<noteq> t" "vsw v d \<noteq> Some t" if "d \<in> on" for d
    using inv_current [OF inv that] inv_switched [OF inv that, of t] t st by auto
  have "queues_ok ?v"
    by (rule queues_okI)
      (use un inv_sender [OF inv] inv_receiver [OF inv] inv_distinct [OF inv] in
        \<open>auto simp: thr_iff unqueued_def\<close>)
  moreover have "runqs_ok on ?v"
  proof (rule runqs_okI)
    fix d
    have "t \<notin> set (vQ v d)" "t \<notin> set (vX v d)" using np by (auto simp: placed_def)
    then show "distinct (vQ ?v d @ vX ?v d)" using QX inv_distinct(3) [OF inv, of d] by (cases "d = c") auto
    show "d = d'" if "x \<in> placed ?v d" "x \<in> placed ?v d'" for x d'
      using that np inv_distinct(5) [OF inv, of x] by (auto simp: pl split: if_splits)
    show "thr ?v x (\<lambda>th. hst th = Ready)" if "x \<in> placed ?v d" for x
      using that inv_placed [OF inv, of x] th' by (auto simp: pl thr_iff split: if_splits)
    show "i \<notin> placed ?v d" if "e \<in> on" "vidle ?v e = Some i" for e i
      using inv_idle_unplaced [OF inv that(1), of i] inv_idle [OF inv that(1), of i] that t st
      by (auto simp: pl split: if_splits)
  qed
  moreover have "cores_ok on ?v"
  proof (rule cores_okI)
    fix d x
    show "thr ?v (vcur ?v d) (\<lambda>th. on_cpu (handshake th) \<and> hst th \<noteq> Ready \<and> hst th \<noteq> Embryo)" if "d \<in> on"
      using inv_cores(1) [OF inv that] nc(1) [OF that] by simp
    show "thr ?v x (\<lambda>th. on_cpu (handshake th) \<and> hst th \<noteq> Embryo) \<and>
      (\<forall>e \<in> on. vcur ?v e \<noteq> x) \<and> (\<forall>e \<in> on. vsw ?v e = Some x \<longrightarrow> e = d)" if "d \<in> on" "vsw ?v d = Some x"
    proof -
      have "x \<noteq> t" using nc(2) that by auto
      then show ?thesis using inv_cores(2) [OF inv, of d x] that by simp
    qed
    show "thr_if ?v x (standing_ok on ?v x)"
    proof (cases "x = t")
      case True
      then show ?thesis using th' by (simp add: thr_if_def standing_ok_def)
    next
      case False
      then show ?thesis
        using inv_standing [OF inv, of x] QX by (cases "vT v x") (auto simp: thr_if_def standing_ok_def)
    qed
    show "thr ?v x (\<lambda>th. idle_state th \<and> \<not> killed th \<and>
      (on_cpu (handshake th) \<longrightarrow> vcur ?v d = x \<or> vsw ?v d = Some x))" if "d \<in> on" "vidle ?v d = Some x"
      using inv_cores(3) [OF inv, of d x] t st that by (auto simp: thr_Some)
  qed (use inv_distinct [OF inv] in simp)
  moreover have "replies_ok ?v"
    by (rule replies_update [OF inv t caps])
      (use nr in \<open>auto simp: awaiting_def thr_if_def split: option.splits\<close>)
  ultimately show ?thesis by (simp add: view_inv_def)
qed

text \<open>A wake that arrives while the parked thread's core still stands on its stack.\<close>

lemma inv_defer:
  assumes inv: "view_inv on v" and t: "vT v t = Some th" and un: "unqueued v t"
    and nr: "\<And>u s. \<not> holds_reply v t u s"
    and st: "hst th = Blocked" "on_cpu (handshake th)"
    and th': "hst th' = Blocked" "on_cpu (handshake th')"
    and caps: "fewer_replies t th th'"
  shows "view_inv on (v\<lparr>vT := (vT v)(t := Some th')\<rparr>)"
proof -
  let ?v = "v\<lparr>vT := (vT v)(t := Some th')\<rparr>"
  have np: "t \<notin> placed v d" for d using inv_placed [OF inv, of t d] t st by auto
  have "queues_ok ?v"
    by (rule queues_okI)
      (use un inv_sender [OF inv] inv_receiver [OF inv] inv_distinct [OF inv] in
        \<open>auto simp: thr_iff unqueued_def\<close>)
  moreover have "runqs_ok on ?v"
  proof (rule runqs_okI)
    show "thr ?v x (\<lambda>th. hst th = Ready)" if "x \<in> placed ?v d" for x d
      using that np [of d] inv_placed [OF inv, of x d] by (auto simp: placed_def thr_iff)
  qed (use inv_distinct [OF inv] inv_idle_unplaced [OF inv] in \<open>simp_all add: placed_def\<close>)
  moreover have "cores_ok on ?v"
  proof (rule cores_okI)
    fix d x
    show "thr ?v (vcur ?v d) (\<lambda>th. on_cpu (handshake th) \<and> hst th \<noteq> Ready \<and> hst th \<noteq> Embryo)" if "d \<in> on"
      using inv_cores(1) [OF inv that] th' by simp
    show "thr ?v x (\<lambda>th. on_cpu (handshake th) \<and> hst th \<noteq> Embryo) \<and>
      (\<forall>e \<in> on. vcur ?v e \<noteq> x) \<and> (\<forall>e \<in> on. vsw ?v e = Some x \<longrightarrow> e = d)" if "d \<in> on" "vsw ?v d = Some x"
      using inv_cores(2) [OF inv, of d x] th' that by simp
    show "thr_if ?v x (standing_ok on ?v x)"
      using inv_standing [OF inv, of x] t st th' by (cases "vT v x") (auto simp: thr_if_def standing_ok_def)
    show "thr ?v x (\<lambda>th. idle_state th \<and> \<not> killed th \<and>
      (on_cpu (handshake th) \<longrightarrow> vcur ?v d = x \<or> vsw ?v d = Some x))" if "d \<in> on" "vidle ?v d = Some x"
      using inv_cores(3) [OF inv, of d x] t st that by (auto simp: thr_Some)
  qed (use inv_distinct [OF inv] in simp)
  moreover have "replies_ok ?v"
    by (rule replies_update [OF inv t caps])
      (use nr in \<open>auto simp: awaiting_def thr_if_def split: option.splits\<close>)
  ultimately show ?thesis by (simp add: view_inv_def)
qed

text \<open>The running thread of a core parks or dies, joining at most one wait queue.\<close>

lemma inv_stop:
  assumes inv: "view_inv on v" and c: "c \<in> on" "t = vcur v c" and t: "vT v t = Some th"
    and run: "hst th = Running" "\<And>d. d \<in> on \<Longrightarrow> vidle v d \<noteq> Some t"
    and th': "hst th' = Blocked \<or> hst th' = Finished \<or> hst th' = Dead"
      "on_cpu (handshake th')" "\<not> wake_pending (handshake th')"
    and caps: "fewer_replies t th th'"
    and SR: "S = vS v \<and> R = vR v \<or>
      parked_sender n th' \<and> S = (vS v)(n := vS v n @ [t]) \<and> R = vR v \<or>
      parked_receiver n (handshake th') \<and> S = vS v \<and> R = (vR v)(n := vR v n @ [t])"
  shows "view_inv on (v\<lparr>vT := (vT v)(t := Some th'), vS := S, vR := R\<rparr>)"
proof -
  let ?v = "v\<lparr>vT := (vT v)(t := Some th'), vS := S, vR := R\<rparr>"
  have un: "unqueued v t" by (rule not_parked_unqueued [OF inv t]) (use run in simp_all)
  have nr: "\<not> holds_reply v t u s" for u s by (rule not_awaiting_no_reply [OF inv t]) (use run in simp_all)
  have np: "t \<notin> placed v d" for d using inv_placed [OF inv, of t d] t run by auto
  have "queues_ok ?v"
  proof (rule queues_okI)
    fix m x
    show "distinct (vS ?v m)" "distinct (vR ?v m)"
      using SR un inv_distinct(1,2) [OF inv, of m] by (auto simp: unqueued_def)
    show "thr ?v x (parked_sender m)" if "x \<in> set (vS ?v m)"
      using that SR un inv_sender [OF inv, of x m] by (auto simp: thr_iff unqueued_def split: if_splits)
    show "thr ?v x (\<lambda>th. parked_receiver m (handshake th))" if "x \<in> set (vR ?v m)"
      using that SR un inv_receiver [OF inv, of x m] by (auto simp: thr_iff unqueued_def split: if_splits)
  qed
  moreover have "runqs_ok on ?v"
  proof (rule runqs_okI)
    show "thr ?v x (\<lambda>th. hst th = Ready)" if "x \<in> placed ?v d" for x d
      using that np [of d] inv_placed [OF inv, of x d] by (auto simp: placed_def thr_iff)
  qed (use inv_distinct [OF inv] inv_idle_unplaced [OF inv] in \<open>simp_all add: placed_def\<close>)
  moreover have "cores_ok on ?v"
  proof (rule cores_okI)
    fix d x
    show "thr ?v (vcur ?v d) (\<lambda>th. on_cpu (handshake th) \<and> hst th \<noteq> Ready \<and> hst th \<noteq> Embryo)" if "d \<in> on"
      using inv_cores(1) [OF inv that] th' by auto
    show "thr ?v x (\<lambda>th. on_cpu (handshake th) \<and> hst th \<noteq> Embryo) \<and>
      (\<forall>e \<in> on. vcur ?v e \<noteq> x) \<and> (\<forall>e \<in> on. vsw ?v e = Some x \<longrightarrow> e = d)" if "d \<in> on" "vsw ?v d = Some x"
      using inv_cores(2) [OF inv, of d x] c that by auto
    show "thr_if ?v x (standing_ok on ?v x)"
      using inv_standing [OF inv, of x] c th' by (cases "vT v x") (auto simp: thr_if_def standing_ok_def)
    show "thr ?v x (\<lambda>th. idle_state th \<and> \<not> killed th \<and>
      (on_cpu (handshake th) \<longrightarrow> vcur ?v d = x \<or> vsw ?v d = Some x))" if "d \<in> on" "vidle ?v d = Some x"
      using inv_cores(3) [OF inv, of d x] run(2) that by auto
  qed (use inv_distinct [OF inv] in simp)
  moreover have "replies_ok ?v"
  proof (rule replies_update [OF inv t caps])
    fix x u s
    assume h: "holds_reply v x u s" and a: "awaiting v x"
    then have "x \<noteq> t" using nr by auto
    then show "awaiting ?v x" using a SR by (auto simp: awaiting_def thr_if_def split: option.splits if_splits)
  qed simp
  ultimately show ?thesis by (simp add: view_inv_def)
qed

text \<open>A reply capability for a caller that awaits it, and that nobody holds yet, enters an empty slot.\<close>

lemma inv_mint:
  assumes inv: "view_inv on v" and u: "vT v u = Some th" and same: "handshake th' = handshake th" "killed th' = killed th" "fault_ep th' = fault_ep th"
    and wf: "cspace_wf CSPACE_SLOTS (cspace th')" and og: "outgoing_cap th' = outgoing_cap th"
    and free: "cap_at (cspace th) sl = None" and ins: "cap_at (cspace th') = (cap_at (cspace th))(sl \<mapsto> reply_cap t)"
    and aw: "awaiting v t" and none: "\<And>w s. \<not> holds_reply v t w s"
  shows "view_inv on (v\<lparr>vT := (vT v)(u := Some th')\<rparr>)"
proof -
  let ?v = "v\<lparr>vT := (vT v)(u := Some th')\<rparr>"
  have core: "same_core th th'" using same by (simp add: same_core_def)
  have "queues_ok ?v" "runqs_ok on ?v" "cores_ok on ?v"
    by (rule same_core_ok [OF inv u core]; use same in simp)+
  moreover have h: "holds_reply ?v x w s \<longleftrightarrow> holds_reply v x w s \<or> x = t \<and> w = u \<and> s = sl" for x w s
    using u free ins by (auto simp: holds_reply_def thr_Some names_reply_def reply_cap_def)
  moreover have "awaiting ?v x = awaiting v x" for x
    using same u by (simp add: awaiting_def thr_Some)
  moreover have "caps_ok u th'"
    using inv_caps [OF inv u] wf og ins by (auto simp: caps_ok_def names_reply_def reply_cap_def)
  then have "thr_if ?v x (caps_ok x)" for x
    using inv_caps [OF inv, of x] by (auto simp: thr_if_def split: option.splits)
  ultimately show ?thesis
    using inv aw none unfolding view_inv_def replies_ok_def by (simp only: h) blast
qed

lemma inv_remove:
  assumes inv: "view_inv on v" and t: "unqueued v t" "\<And>c. t \<notin> placed v c"
    and off: "\<And>c. c \<in> on \<Longrightarrow> vcur v c \<noteq> t \<and> vsw v c \<noteq> Some t \<and> vidle v c \<noteq> Some t"
  shows "view_inv on (v\<lparr>vT := (vT v)(t := None)\<rparr>)"
proof -
  let ?v = "v\<lparr>vT := (vT v)(t := None)\<rparr>"
  have eq: "thr ?v x P \<longleftrightarrow> x \<noteq> t \<and> thr v x P" "thr_if ?v x P \<longleftrightarrow> x = t \<or> thr_if v x P" for x P
    by (simp_all add: thr_def thr_if_def)
  have sk: "standing_ok on ?v = standing_ok on v" by (simp add: standing_ok_def fun_eq_iff)
  have "queues_ok ?v" "runqs_ok on ?v"
    using inv t by (auto simp: view_inv_def queues_ok_def runqs_ok_def placed_def eq unqueued_def)
  moreover have "cores_ok on ?v"
    using inv off unfolding view_inv_def cores_ok_def eq sk by auto
  moreover have "replies_ok ?v"
    using inv unfolding view_inv_def replies_ok_def holds_reply_def awaiting_def eq by auto
  ultimately show ?thesis by (simp add: view_inv_def)
qed

lemma inv_new:
  assumes inv: "view_inv on v" and t: "vT v t = None"
    and th: "\<not> on_cpu (handshake th)" "\<not> wake_pending (handshake th)"
    and caps: "caps_ok t th" "\<And>s x. \<not> names_reply (cap_at (cspace th) s) x"
    and fresh: "\<And>u s. \<not> holds_reply v t u s"
  shows "view_inv on (v\<lparr>vT := (vT v)(t := Some th)\<rparr>)"
proof -
  let ?v = "v\<lparr>vT := (vT v)(t := Some th)\<rparr>"
  have gone: "\<not> thr v t P" for P using t by (simp add: thr_def)
  have out: "t \<notin> set (vS v n)" "t \<notin> set (vR v n)" "t \<notin> placed v c" for n c
    using inv_sender [OF inv, of t n] inv_receiver [OF inv, of t n] inv_placed [OF inv, of t c] t by auto
  have off: "vcur v c \<noteq> t" "vsw v c \<noteq> Some t" "vidle v c \<noteq> Some t" if "c \<in> on" for c
    using inv_cores [OF inv that] gone by (metis, blast, blast)
  have sk: "standing_ok on ?v = standing_ok on v" by (simp add: standing_ok_def fun_eq_iff)
  have "queues_ok ?v" "runqs_ok on ?v"
    using inv out unfolding view_inv_def queues_ok_def runqs_ok_def by (auto simp: placed_def)
  moreover have "standing_ok on v t th" using th by (simp add: standing_ok_def)
  then have "cores_ok on ?v"
    using inv off unfolding view_inv_def cores_ok_def sk by auto
  moreover have h: "holds_reply ?v x u s \<longleftrightarrow> holds_reply v x u s" for x u s
    using caps(2) gone(1) by (auto simp: holds_reply_def)
  have "replies_ok ?v"
    using inv caps(1) fresh unfolding view_inv_def replies_ok_def h by (auto simp: awaiting_def)
  ultimately show ?thesis by (simp add: view_inv_def)
qed

text \<open>
  A switch: the outgoing thread \<open>t\<close>, preempted and requeued unless it has parked, died or is the idle
  thread, leaves the core; the incoming one \<open>u\<close> comes off the run queue or is the idle thread.
\<close>

definition switched :: "nat \<Rightarrow> tid list \<Rightarrow> tid \<Rightarrow> 's thread \<Rightarrow> tid \<Rightarrow> 's thread \<Rightarrow> 's view \<Rightarrow> 's view" where
  "switched c q t th u uh v = v\<lparr>vT := (vT v)(t := Some th, u := Some uh), vQ := (vQ v)(c := q),
     vcur := (vcur v)(c := u), vsw := (vsw v)(c := Some t)\<rparr>"

lemma thr_switched:
  "u \<noteq> t \<Longrightarrow> thr (switched c q t th u uh v) x P = (if x = u then P uh else if x = t then P th else thr v x P)"
  "u \<noteq> t \<Longrightarrow> thr_if (switched c q t th u uh v) x P = (if x = u then P uh else if x = t then P th else thr_if v x P)"
  by (simp_all add: switched_def thr_def thr_if_def)

lemma switched_fields [simp]:
  "vS (switched c q t th u uh v) = vS v" "vR (switched c q t th u uh v) = vR v"
  "vQ (switched c q t th u uh v) = (vQ v)(c := q)" "vX (switched c q t th u uh v) = vX v"
  "vcur (switched c q t th u uh v) = (vcur v)(c := u)" "vsw (switched c q t th u uh v) = (vsw v)(c := Some t)"
  "vidle (switched c q t th u uh v) = vidle v"
  "vT (switched c q t th u uh v) = (vT v)(t := Some th, u := Some uh)"
  by (simp_all add: switched_def)

lemma fetch_off_cpu:
  assumes inv: "view_inv on v" and c: "c \<in> on" "vsw v c = None" and u: "vT v u = Some uh" "u \<noteq> vcur v c"
    and src: "hst uh = Ready \<and> u \<in> set (vQ v c) \<or> vidle v c = Some u"
  shows "\<not> on_cpu (handshake uh)"
  using src
proof
  assume r: "hst uh = Ready \<and> u \<in> set (vQ v c)"
  show ?thesis
  proof
    assume "on_cpu (handshake uh)"
    then obtain d where d: "vsw v d = Some u" "u \<in> set (vQ v d)"
      using inv_standing [OF inv u(1)] r by (auto simp: standing_ok_def)
    have "d = c" by (rule inv_distinct(5) [OF inv, of u]) (use d r in \<open>simp_all add: placed_def\<close>)
    then show False using d c by simp
  qed
next
  assume "vidle v c = Some u"
  then show ?thesis using inv_cores(3) [OF inv c(1)] c u by (auto simp: thr_Some)
qed

lemma inv_switch:
  assumes inv: "view_inv on v" and c: "c \<in> on" "vsw v c = None" "t = vcur v c"
    and t: "vT v t = Some th" and u: "vT v u = Some uh" and ne: "u \<noteq> t"
    and src: "hst uh = Ready \<and> vQ v c = u # q \<or> idle_state uh \<and> vidle v c = Some u \<and> vQ v c = q"
    and out: "th' = th \<and> q' = q \<and> (hst th = Running \<longrightarrow> vidle v c = Some t) \<or>
      hst th = Running \<and> vidle v c \<noteq> Some t \<and> hst th' = Ready \<and> on_cpu (handshake th') \<and>
        \<not> wake_pending (handshake th') \<and> q' = q @ [t]"
    and th': "cspace th' = cspace th" "outgoing_cap th' = outgoing_cap th"
    and uh': "hst uh' = Running" "on_cpu (handshake uh')" "\<not> wake_pending (handshake uh')" "killed uh' = killed uh"
      "cspace uh' = cspace uh" "outgoing_cap uh' = outgoing_cap uh"
    and one: "\<And>d. d \<in> on \<Longrightarrow> vidle v d = Some u \<Longrightarrow> d = c"
  shows "view_inv on (switched c q' t th' u uh' v)"
proof -
  let ?v = "switched c q' t th' u uh' v"
  have off: "\<not> on_cpu (handshake uh)"
    by (rule fetch_off_cpu [OF inv c(1,2) u]) (use ne c src in auto)
  have tn: "t \<notin> placed v d" for d
    using inv_placed [OF inv, of t d] inv_current [OF inv c(1)] c(3) by auto
  have run: "unqueued v t" if "th' \<noteq> th"
    by (rule not_parked_unqueued [OF inv t]) (use out that in auto)
  have un: "unqueued v u" by (rule not_parked_unqueued [OF inv u]) (use src in auto)
  have pu: "u \<in> placed v d \<Longrightarrow> hst uh = Ready \<and> d = c \<and> vQ v c = u # q" for d
    using inv_placed [OF inv, of u d] inv_distinct(5) [OF inv, of u d c] inv_idle_unplaced [OF inv c(1), of u d] src u
    by (auto simp: placed_def)
  have q: "distinct (q @ vX v c)" "u \<notin> set q" "u \<notin> set (vX v c)" "set q \<subseteq> set (vQ v c)"
    using inv_distinct(3) [OF inv, of c] src pu [of c] by (fastforce simp: placed_def)+
  have q': "distinct (q' @ vX v c)" "u \<notin> set q'" "set q' \<subseteq> insert t (set (vQ v c))" "th' = th \<Longrightarrow> set q' \<subseteq> set (vQ v c)"
    using q out tn [of c] ne by (auto simp: placed_def)
  have pl: "x \<noteq> u \<and> (x \<in> placed v d \<and> x \<noteq> t \<or> x = t \<and> d = c \<and> hst th' = Ready)" if "x \<in> placed ?v d" for x d
  proof (cases "d = c")
    case True
    then show ?thesis using that q'(2,3) q(3) tn [of c] out q(4) by (auto simp: placed_def)
  next
    case False
    then show ?thesis using that tn [of d] pu [of d] by (auto simp: placed_def)
  qed
  have "queues_ok ?v"
  proof (rule queues_okI)
    fix n x
    show "thr ?v x (parked_sender n)" if "x \<in> set (vS ?v n)"
      using that run un inv_sender [OF inv, of x n] t by (cases "th' = th") (auto simp: thr_iff unqueued_def)
    show "thr ?v x (\<lambda>th. parked_receiver n (handshake th))" if "x \<in> set (vR ?v n)"
      using that run un inv_receiver [OF inv, of x n] t by (cases "th' = th") (auto simp: thr_iff unqueued_def)
  qed (use inv_distinct [OF inv] in simp_all)
  moreover have "runqs_ok on ?v"
  proof (rule runqs_okI)
    fix d x
    show "distinct (vQ ?v d @ vX ?v d)" using q'(1) inv_distinct(3) [OF inv, of d] by simp
    show "d = d'" if "x \<in> placed ?v d" "x \<in> placed ?v d'" for d'
      using pl [OF that(1)] pl [OF that(2)] inv_distinct(5) [OF inv, of x d d'] by blast
    show "thr ?v x (\<lambda>th. hst th = Ready)" if "x \<in> placed ?v d"
      using pl [OF that] inv_placed [OF inv, of x d] by (auto simp: thr_switched [OF ne] thr_def)
    show "i \<notin> placed ?v d" if i: "e \<in> on" "vidle ?v e = Some i" for e i
    proof
      assume "i \<in> placed ?v d"
      then have "i = t" "d = c" "hst th' = Ready"
        using pl inv_idle_unplaced [OF inv i(1), of i d] i(2) by auto
      then have "hst th = Running" "vidle v c \<noteq> Some t" using out inv_current [OF inv c(1)] c(3) t by auto
      then have "e \<noteq> c" using i \<open>i = t\<close> by auto
      moreover have "vcur v e = t \<or> vsw v e = Some t"
        using inv_idle [OF inv i(1), of t] i(2) \<open>i = t\<close> inv_current [OF inv c(1)] c(3) t by auto
      ultimately show False
        using inv_distinct(4) [OF inv] inv_cores(2) [OF inv i(1), of t] i(1) c unfolding inj_on_def by metis
    qed
  qed
  moreover have "cores_ok on ?v"
  proof (rule cores_okI)
    have cn: "vcur v d \<noteq> t" if "d \<in> on" "d \<noteq> c" for d
      using inv_distinct(4) [OF inv] that c by (auto simp: inj_on_def)
    have un': "vcur v d \<noteq> u" if "d \<in> on" for d using inv_current [OF inv that] u off by auto
    have sn: "vsw v d \<noteq> Some t" "vsw v d \<noteq> Some u" if "d \<in> on" for d
      using inv_switched [OF inv that] c u off by auto
    have tc: "on_cpu (handshake th')" "hst th' \<noteq> Embryo" using inv_current [OF inv c(1)] c(3) t out by auto
    show "inj_on (vcur ?v) on"
      using inv_distinct(4) [OF inv] un' by (auto simp: inj_on_def)
    fix d x
    show "thr ?v (vcur ?v d) (\<lambda>th. on_cpu (handshake th) \<and> hst th \<noteq> Ready \<and> hst th \<noteq> Embryo)" if "d \<in> on"
      using inv_cores(1) [OF inv that] uh' cn [OF that] un' [OF that] by (simp add: thr_switched [OF ne])
    show "thr ?v x (\<lambda>th. on_cpu (handshake th) \<and> hst th \<noteq> Embryo) \<and>
      (\<forall>e \<in> on. vcur ?v e \<noteq> x) \<and> (\<forall>e \<in> on. vsw ?v e = Some x \<longrightarrow> e = d)" if "d \<in> on" "vsw ?v d = Some x"
    proof (cases "d = c")
      case True
      then have "x = t" using that by simp
      then show ?thesis using True cn sn(1) tc ne by (auto simp: thr_switched [OF ne])
    next
      case False
      then have x: "vsw v d = Some x" using that by simp
      then have "x \<noteq> t" "x \<noteq> u" using sn [OF that(1)] by auto
      then show ?thesis using inv_cores(2) [OF inv that(1) x] by (simp add: thr_switched [OF ne])
    qed
    have other: "d \<noteq> c" if "x \<noteq> t" "vcur v d = x \<or> vsw v d = Some x" for d
      using that c by auto
    show "thr_if ?v x (standing_ok on ?v x)"
    proof (cases "x = t \<or> x = u")
      case True
      have "hst th \<noteq> Ready" using inv_current [OF inv c(1)] c(3) t by auto
      then have "standing_ok on ?v t th'"
        using inv_standing [OF inv t] out tc c(1) by (auto simp: standing_ok_def)
      moreover have "standing_ok on ?v u uh'" using uh' c(1) by (auto simp: standing_ok_def)
      ultimately show ?thesis using True by (auto simp: thr_switched [OF ne])
    next
      case False
      then show ?thesis
        using inv_standing [OF inv, of x] other
        by (cases "vT v x") (auto simp: thr_if_def standing_ok_def)
    qed
    show "thr ?v x (\<lambda>th. idle_state th \<and> \<not> killed th \<and>
      (on_cpu (handshake th) \<longrightarrow> vcur ?v d = x \<or> vsw ?v d = Some x))" if "d \<in> on" "vidle ?v d = Some x"
    proof -
      note i = inv_cores(3) [OF inv that(1), of x]
      consider "x = u" | "x = t" | "x \<noteq> u" "x \<noteq> t" by blast
      then show ?thesis
      proof cases
        case 1
        then show ?thesis using that uh' u i one [of d] by (auto simp: thr_switched [OF ne] thr_Some)
      next
        case 2
        then have "d = c" using i that t cn [of d] sn [of d] inv_current [OF inv c(1)] c by (auto simp: thr_Some)
        then show ?thesis using 2 that i t out ne by (auto simp: thr_switched [OF ne] thr_Some)
      next
        case 3
        then show ?thesis using that i c by (auto simp: thr_switched [OF ne] thr_iff)
      qed
    qed
  qed
  moreover have "replies_ok ?v"
  proof -
    have h: "holds_reply ?v = holds_reply v"
      using th' uh' t u by (auto simp: holds_reply_def thr_switched [OF ne] thr_Some fun_eq_iff)
    have "awaiting ?v x" if "holds_reply v x w s" for x w s
      using inv_awaiting [OF inv that] src out t u by (auto simp: awaiting_def thr_switched [OF ne] thr_Some)
    moreover have "thr_if ?v x (caps_ok x)" for x
      using inv_caps [OF inv] th' uh' t u by (auto simp: thr_switched [OF ne] caps_ok_def thr_if_def split: option.split)
    ultimately show ?thesis using inv_unique [OF inv] unfolding replies_ok_def h by blast
  qed
  ultimately show ?thesis by (simp add: view_inv_def)
qed

lemma standing_ok_cong:
  assumes "vcur v' = vcur v" "vQ v' = vQ v" "\<And>d. vsw v' d = Some x \<longleftrightarrow> vsw v d = Some x"
  shows "standing_ok on v' x = standing_ok on v x"
  using assms by (simp add: standing_ok_def fun_eq_iff)

text \<open>The outgoing thread's core is off its stack.\<close>

lemma inv_leave:
  assumes inv: "view_inv on v" and c: "c \<in> on" "vsw v c = Some t" and t: "vT v t = Some th"
    and th': "hst th' = hst th" "wait_on (handshake th') = wait_on (handshake th)"
      "\<not> on_cpu (handshake th')" "\<not> wake_pending (handshake th')" "killed th' = killed th"
      "cspace th' = cspace th" "outgoing_cap th' = outgoing_cap th" "fault_ep th' = fault_ep th"
  shows "view_inv on (v\<lparr>vT := (vT v)(t := Some th'), vsw := (vsw v)(c := None)\<rparr>)"
proof -
  let ?v = "v\<lparr>vT := (vT v)(t := Some th'), vsw := (vsw v)(c := None)\<rparr>"
  have only: "d = c" if "d \<in> on" "vsw v d = Some t" for d using inv_switched [OF inv c] that by blast
  have nc: "vcur v d \<noteq> t" if "d \<in> on" for d using inv_switched [OF inv c] that by blast
  have "queues_ok ?v"
  proof (rule queues_okI)
    fix n x
    show "thr ?v x (parked_sender n)" if "x \<in> set (vS ?v n)"
      using inv_sender [OF inv, of x n] t th' that by (auto simp: thr_def parked_sender_def Let_def)
    show "thr ?v x (\<lambda>th. parked_receiver n (handshake th))" if "x \<in> set (vR ?v n)"
      using inv_receiver [OF inv, of x n] t th' that by (auto simp: thr_def parked_receiver_def)
  qed (use inv_distinct [OF inv] in simp_all)
  moreover have "runqs_ok on ?v"
  proof (rule runqs_okI)
    show "thr ?v x (\<lambda>th. hst th = Ready)" if "x \<in> placed ?v d" for x d
      using inv_placed [OF inv, of x d] t th' that by (auto simp: thr_def placed_def)
  qed (use inv_distinct [OF inv] inv_idle_unplaced [OF inv] in \<open>simp_all add: placed_def\<close>)
  moreover have "cores_ok on ?v"
  proof (rule cores_okI)
    fix d x
    show "thr ?v (vcur ?v d) (\<lambda>th. on_cpu (handshake th) \<and> hst th \<noteq> Ready \<and> hst th \<noteq> Embryo)" if "d \<in> on"
      using inv_cores(1) [OF inv that] nc [OF that] by simp
    show "thr ?v x (\<lambda>th. on_cpu (handshake th) \<and> hst th \<noteq> Embryo) \<and>
      (\<forall>e \<in> on. vcur ?v e \<noteq> x) \<and> (\<forall>e \<in> on. vsw ?v e = Some x \<longrightarrow> e = d)" if "d \<in> on" "vsw ?v d = Some x"
    proof -
      have x: "vsw v d = Some x" "d \<noteq> c" using that by (auto split: if_splits)
      then have "x \<noteq> t" using only that by auto
      then show ?thesis using inv_cores(2) [OF inv that(1) x(1)] by simp
    qed
    show "thr_if ?v x (standing_ok on ?v x)"
    proof (cases "x = t")
      case True
      then show ?thesis using th' by (simp add: standing_ok_def)
    next
      case False
      then have "standing_ok on ?v x = standing_ok on v x" by (intro standing_ok_cong) (use c in auto)
      then show ?thesis using False inv_standing [OF inv, of x] by (auto simp: thr_if_def split: option.splits)
    qed
    show "thr ?v x (\<lambda>th. idle_state th \<and> \<not> killed th \<and>
      (on_cpu (handshake th) \<longrightarrow> vcur ?v d = x \<or> vsw ?v d = Some x))" if "d \<in> on" "vidle ?v d = Some x"
      using inv_cores(3) [OF inv that(1), of x] that t th' c by (auto simp: thr_iff)
  qed (use inv_distinct [OF inv] in simp)
  moreover have "replies_ok ?v"
    by (rule replies_update [OF inv t fewer_repliesI [OF inv t th'(6,7)]])
      (use t th' in \<open>auto simp: awaiting_def thr_if_def split: option.splits\<close>)
  ultimately show ?thesis by (simp add: view_inv_def)
qed

text \<open>The inbox of a core drains into its run queue.\<close>

lemma inv_drain:
  assumes inv: "view_inv on v"
  shows "view_inv on (v\<lparr>vQ := (vQ v)(c := vQ v c @ vX v c), vX := (vX v)(c := [])\<rparr>)"
proof -
  let ?v = "v\<lparr>vQ := (vQ v)(c := vQ v c @ vX v c), vX := (vX v)(c := [])\<rparr>"
  have pl: "placed ?v = placed v" by (simp add: placed_def fun_eq_iff)
  have "queues_ok ?v" "replies_ok ?v"
    using inv by (simp_all add: view_inv_def queues_ok_def replies_ok_def holds_reply_def awaiting_def)
  moreover have "runqs_ok on ?v"
    using inv unfolding view_inv_def runqs_ok_def pl by simp
  moreover have "standing_ok on ?v x th" if "standing_ok on v x th" for x th
    using that by (auto simp: standing_ok_def)
  then have "cores_ok on ?v"
    using inv by (auto simp: view_inv_def cores_ok_def thr_if_def split: option.splits)
  ultimately show ?thesis by (simp add: view_inv_def)
qed

text \<open>A core comes up standing on a thread of its own, and a core takes an idle thread.\<close>

lemma inv_enter:
  assumes inv: "view_inv on v" and t: "vT v t = None" and c: "c \<notin> on" "vsw v c = None" "vidle v c = None"
    and th: "hst th = Running" "on_cpu (handshake th)" "\<not> wake_pending (handshake th)"
    and caps: "caps_ok t th" "\<And>s x. \<not> names_reply (cap_at (cspace th) s) x"
    and fresh: "\<And>u s. \<not> holds_reply v t u s"
  shows "view_inv (insert c on) (v\<lparr>vT := (vT v)(t := Some th), vcur := (vcur v)(c := t)\<rparr>)"
proof -
  let ?v = "v\<lparr>vT := (vT v)(t := Some th), vcur := (vcur v)(c := t)\<rparr>"
  have gone: "\<not> thr v t P" for P using t by (simp add: thr_def)
  have out: "t \<notin> set (vS v n)" "t \<notin> set (vR v n)" "t \<notin> placed v d" for n d
    using inv_sender [OF inv, of t n] inv_receiver [OF inv, of t n] inv_placed [OF inv, of t d] t by auto
  have off: "vcur v d \<noteq> t" "vsw v d \<noteq> Some t" "vidle v d \<noteq> Some t" if "d \<in> on" for d
    using inv_cores [OF inv that] gone by (metis, blast, blast)
  have up: "thr ?v x P = (if x = t then P th else thr v x P)"
    "thr_if ?v x P = (if x = t then P th else thr_if v x P)" for x P by simp_all
  have q: "queues_ok ?v" "runqs_ok (insert c on) ?v"
    using inv out c unfolding view_inv_def queues_ok_def runqs_ok_def up by (auto simp: placed_def)
  have "standing_ok (insert c on) ?v x y" if "standing_ok on v x y" for x y
    using that c by (auto simp: standing_ok_def)
  moreover have "standing_ok (insert c on) ?v t th" using th by (auto simp: standing_ok_def)
  ultimately have st: "thr_if ?v x (standing_ok (insert c on) ?v x)" for x
    using inv_standing [OF inv, of x] unfolding up by (auto simp: thr_if_def split: option.splits)
  have "cores_ok (insert c on) ?v"
  proof (rule cores_okI)
    have "inj_on ((vcur v)(c := t)) on" using inv_distinct(4) [OF inv] c by (simp add: inj_on_fun_updI inj_on_def)
    then show "inj_on (vcur ?v) (insert c on)" using off c by (auto simp: inj_on_def)
    show "thr ?v (vcur ?v d) (\<lambda>th. on_cpu (handshake th) \<and> hst th \<noteq> Ready \<and> hst th \<noteq> Embryo)"
      if "d \<in> insert c on" for d using that c th off inv_cores(1) [OF inv, of d] by (auto simp: up)
    show "thr ?v x (\<lambda>th. on_cpu (handshake th) \<and> hst th \<noteq> Embryo) \<and>
      (\<forall>d \<in> insert c on. vcur ?v d \<noteq> x) \<and> (\<forall>d \<in> insert c on. vsw ?v d = Some x \<longrightarrow> d = a)"
      if "a \<in> insert c on" "vsw ?v a = Some x" for a x
    proof -
      have a: "a \<in> on" "a \<noteq> c" "vsw v a = Some x" "x \<noteq> t" using that c off by auto
      note x = inv_cores(2) [OF inv a(1,3)]
      have "thr ?v x (\<lambda>th. on_cpu (handshake th) \<and> hst th \<noteq> Embryo)" unfolding up using x a(4) by simp
      moreover have "vcur ?v d \<noteq> x" if "d \<in> insert c on" for d using x a(4) that c(1) by auto
      moreover have "d = a" if "d \<in> insert c on" "vsw v d = Some x" for d using x that c(2) by auto
      ultimately show ?thesis by simp
    qed
    show "thr ?v i (\<lambda>th. idle_state th \<and> \<not> killed th \<and>
         (on_cpu (handshake th) \<longrightarrow> vcur ?v d = i \<or> vsw ?v d = Some i))"
      if "d \<in> insert c on" "vidle ?v d = Some i" for d i
    proof -
      have d: "d \<in> on" "d \<noteq> c" "vidle v d = Some i" "i \<noteq> t" using that c off by auto
      show ?thesis using inv_cores(3) [OF inv d(1,3)] d by (simp add: up)
    qed
  qed (use st in simp)
  moreover have h: "holds_reply ?v x u s \<longleftrightarrow> holds_reply v x u s" for x u s
    using caps(2) gone(1) by (auto simp: holds_reply_def up)
  have "replies_ok ?v"
    using inv caps(1) fresh unfolding view_inv_def replies_ok_def h by (auto simp: awaiting_def up)
  ultimately show ?thesis using q by (simp add: view_inv_def)
qed

lemma inv_set_idle:
  assumes inv: "view_inv on v" and c: "c \<in> on"
    and i: "vT v i = Some th" "idle_state th" "\<not> killed th" "on_cpu (handshake th) \<Longrightarrow> vcur v c = i"
      "\<And>d. i \<notin> placed v d"
  shows "view_inv on (v\<lparr>vidle := (vidle v)(c := Some i)\<rparr>)"
proof -
  let ?v = "v\<lparr>vidle := (vidle v)(c := Some i)\<rparr>"
  have up: "thr ?v = thr v" "thr_if ?v = thr_if v" "placed ?v = placed v" "standing_ok on ?v = standing_ok on v"
    by (simp_all add: thr_def thr_if_def placed_def standing_ok_def fun_eq_iff)
  have "queues_ok ?v" "replies_ok ?v"
    using inv by (simp_all add: view_inv_def queues_ok_def replies_ok_def holds_reply_def awaiting_def up)
  moreover have "runqs_ok on ?v"
    using inv i(5) unfolding view_inv_def runqs_ok_def up by auto
  moreover have "cores_ok on ?v"
    using inv i unfolding view_inv_def cores_ok_def up by (auto simp: thr_Some)
  ultimately show ?thesis by (simp add: view_inv_def)
qed

text \<open>A queued thread is handed to another core's inbox by the core that owns the queue.\<close>

lemma inv_steal:
  assumes inv: "view_inv on v" and q: "vQ v c = t # q" and r: "r \<noteq> c" "vsw v c = None"
  shows "view_inv on (v\<lparr>vQ := (vQ v)(c := q), vX := (vX v)(r := vX v r @ [t])\<rparr>)"
proof -
  let ?v = "v\<lparr>vQ := (vQ v)(c := q), vX := (vX v)(r := vX v r @ [t])\<rparr>"
  have here: "t \<in> placed v c" using q by (simp add: placed_def)
  then have elsewhere: "t \<notin> placed v d" if "d \<noteq> c" for d using inv_distinct(5) [OF inv, of t d c] that by blast
  have dc: "distinct (t # q @ vX v c)" using inv_distinct(3) [OF inv, of c] q by simp
  have pl: "placed ?v d = (if d = c then placed v c - {t} else if d = r then insert t (placed v r) else placed v d)" for d
    using q dc r by (auto simp: placed_def)
  have "queues_ok ?v" "replies_ok ?v"
    using inv by (simp_all add: view_inv_def queues_ok_def replies_ok_def holds_reply_def awaiting_def)
  moreover have "runqs_ok on ?v"
  proof (rule runqs_okI)
    fix d
    show "distinct (vQ ?v d @ vX ?v d)"
      using dc r inv_distinct(3) [OF inv, of d] elsewhere [of r] by (auto simp: placed_def)
    show "d = d'" if "x \<in> placed ?v d" "x \<in> placed ?v d'" for x d'
      using that inv_distinct(5) [OF inv, of x] elsewhere by (auto simp: pl split: if_splits)
    show "thr ?v x (\<lambda>th. hst th = Ready)" if "x \<in> placed ?v d" for x
      using that inv_placed [OF inv, of x] here by (fastforce simp: pl thr_iff split: if_splits)
    show "i \<notin> placed ?v d" if "e \<in> on" "vidle ?v e = Some i" for e i
      using inv_idle_unplaced [OF inv that(1), of i] that(2) here by (auto simp: pl split: if_splits)
  qed
  moreover have "standing_ok on ?v x th" if "standing_ok on v x th" for x th
    using that q r unfolding standing_ok_def by fastforce
  then have "cores_ok on ?v"
    using inv by (auto simp: view_inv_def cores_ok_def thr_if_def split: option.splits)
  ultimately show ?thesis by (simp add: view_inv_def)
qed

end
