(* ===== verification/SchedOps.thy ===== *)
theory SchedOps
  imports SchedInv
begin

text \<open>
  Every operation of the scheduler returns without a panic and keeps the invariant of \<open>SchedInv\<close>.
  The operations are collected into one step function, so that the result covers every interleaving
  of critical sections on any number of cores.
\<close>

section \<open>Updates of one thread, wakes and deliveries\<close>

lemma names_reply_simps [simp]: "names_reply (Some (reply_cap t)) x \<longleftrightarrow> x = t" "\<not> names_reply None x"
  by (auto simp: names_reply_def reply_cap_def)

lemma sched_invI:
  assumes "tables_ok k" "idles_ok on k" "view_inv on (view k)"
  shows "sched_inv on k"
  using assms by (simp add: sched_inv_def)

lemma sched_invD: "sched_inv on k \<Longrightarrow> tables_ok k" "sched_inv on k \<Longrightarrow> idles_ok on k"
  "sched_inv on k \<Longrightarrow> view_inv on (view k)"
  by (simp_all add: sched_inv_def)

lemma idles_fields [simp]:
  "idles_ok on (threads_get_mut k t f) = idles_ok on k" "idles_ok on (put_endpoint k p e) = idles_ok on k"
  "idles_ok on (push_runq c t k) = idles_ok on k"
  by (simp_all add: idles_ok_def)

lemma update_inv:
  assumes k: "sched_inv on k" and t: "vT (view k) t = Some th" and "same_core th (f th)"
    and "wait_on (handshake (f th)) = wait_on (handshake th) \<or> unqueued (view k) t"
    and "fewer_replies t th (f th)"
    and "killed (f th) \<longrightarrow> killed th \<or> (\<forall>c \<in> on. idle k c \<noteq> Some t)"
  shows "sched_inv on (threads_get_mut k t f)"
  using inv_update [OF sched_invD(3) [OF k] t assms(3,4,5)] assms(6) t sched_invD [OF k]
  by (intro sched_invI) simp_all

text \<open>What a wake needs of its target: it has left every wait queue and nobody owes it a reply.\<close>

definition wakeable :: "'s view \<Rightarrow> tid \<Rightarrow> bool" where
  "wakeable v t \<longleftrightarrow> thr v t (\<lambda>th. hst th = Blocked \<longrightarrow> unqueued v t \<and> (\<forall>u s. \<not> holds_reply v t u s))"

lemma view_parts:
  assumes "endpoints k' = endpoints k" "ep_page k' = ep_page k"
  shows "view k' = (view k)\<lparr>vT := table_get (threads k'), vQ := runq k', vX := inbox k', vcur := current k',
    vidle := idle k', vsw := switched_from k'\<rparr>"
proof -
  have "endpoint_of k' = endpoint_of k" using assms by (simp add: endpoint_of_def fun_eq_iff)
  then show ?thesis by (simp add: view_def threads_get_def [abs_def])
qed

lemma view_same:
  assumes "threads k' = threads k" "endpoints k' = endpoints k" "ep_page k' = ep_page k"
  shows "view k' = (view k)\<lparr>vQ := runq k', vX := inbox k', vcur := current k', vidle := idle k', vsw := switched_from k'\<rparr>"
  using view_parts [OF assms(2,3)] assms(1) by (simp add: view_def threads_get_def [abs_def])

lemma view_place_on:
  "view (place_on c target t k) =
     (view k)\<lparr>vQ := if target = c then (runq k)(c := runq k c @ [t]) else runq k,
       vX := if target = c then inbox k else (inbox k)(target := inbox k target @ [t])\<rparr>"
proof -
  have "view (place_on c target t k) = (view k)\<lparr>vQ := runq (place_on c target t k),
      vX := inbox (place_on c target t k), vcur := current k, vidle := idle k, vsw := switched_from k\<rparr>"
    by (subst view_same [where k = k]) (simp_all add: place_on_def push_runq_def)
  then show ?thesis by (simp add: place_on_def push_runq_def view_def)
qed

lemma fields_place_on [simp]:
  "tables_ok (place_on c target t k) = tables_ok k" "idles_ok on (place_on c target t k) = idles_ok on k"
  by (simp_all add: place_on_def tables_ok_def idles_ok_def push_runq_def)

lemma place_inv:
  assumes k: "sched_inv on k" and t: "vT (view k) t = Some th" and un: "unqueued (view k) t"
    and nr: "\<And>u s. \<not> holds_reply (view k) t u s"
    and st: "hst th = Blocked \<or> hst th = Embryo" "\<not> on_cpu (handshake th)"
    and th': "hst (f th) = Ready" "\<not> on_cpu (handshake (f th))" "\<not> wake_pending (handshake (f th))"
    and caps: "fewer_replies t th (f th)"
  shows "sched_inv on (place_on c target t (threads_get_mut k t f))"
proof (rule sched_invI)
  note inv = sched_invD [OF k]
  have "view_inv on ((view k)\<lparr>vT := (vT (view k))(t := Some (f th)),
      vQ := if target = c then (runq k)(c := runq k c @ [t]) else runq k,
      vX := if target = c then inbox k else (inbox k)(target := inbox k target @ [t])\<rparr>)"
    by (rule inv_make_ready [OF inv(3) t un nr st th' caps, where c = "if target = c then c else target"]) simp
  moreover have "runq (threads_get_mut k t f) = runq k" "inbox (threads_get_mut k t f) = inbox k"
    by (simp_all add: threads_get_mut_def)
  ultimately show "view_inv on (view (place_on c target t (threads_get_mut k t f)))"
    unfolding view_place_on using inv(1) t by (cases "target = c") simp_all
qed (use sched_invD [OF k] in simp_all)

lemma wake_load_aware_inv:
  assumes k: "sched_inv on k" and w: "wakeable (view k) t"
  shows "sched_inv on (snd (wake_load_aware c target t k))"
proof -
  note inv = sched_invD [OF k]
  obtain th where t: "vT (view k) t = Some th"
    and wk: "hst th = Blocked \<Longrightarrow> unqueued (view k) t \<and> (\<forall>u s. \<not> holds_reply (view k) t u s)"
    using w by (auto simp: wakeable_def thr_iff)
  obtain r h where tw: "try_wake (handshake th) = (r, h)" by fastforce
  let ?f = "\<lambda>th. th\<lparr>handshake := h\<rparr>"
  have fr: "fewer_replies t th (?f th)" by (rule fewer_repliesI [OF inv(3) t]) simp_all
  have eq: "snd (wake_load_aware c target t k) =
      (if r = Queue then place_on c target t (threads_get_mut k t ?f) else threads_get_mut k t ?f)"
    using t tw by (simp add: wake_load_aware_def Let_def place_on_def)
  have st: "hst th = Blocked \<Longrightarrow> \<not> on_cpu (handshake th) \<Longrightarrow> \<not> wake_pending (handshake th)"
    using inv_standing [OF inv(3) t] by (simp add: standing_ok_def)
  consider "r = Queue" | "r = Deferred" | "h = handshake th" "r \<noteq> Queue"
    using tw by (auto simp: try_wake_def split: if_splits)
  then show ?thesis
  proof cases
    case 1
    then have "hst th = Blocked" "\<not> on_cpu (handshake th)" "h = (handshake th)\<lparr>state := Ready, wait_on := None\<rparr>"
      using tw by (auto simp: try_wake_def split: if_splits)
    then have "sched_inv on (place_on c target t (threads_get_mut k t ?f))"
      by (intro place_inv [OF k t]) (use wk st fr in simp_all)
    then show ?thesis using eq 1 by simp
  next
    case 2
    then have "hst th = Blocked" "on_cpu (handshake th)" "h = (handshake th)\<lparr>wake_pending := True\<rparr>"
      using tw by (auto simp: try_wake_def split: if_splits)
    then have "view_inv on (view (threads_get_mut k t ?f))"
      using inv_defer [OF inv(3) t, of "?f th"] wk fr inv(1) t by simp
    then show ?thesis using eq 2 inv by (simp add: sched_inv_def)
  next
    case 3
    then show ?thesis unfolding eq
      using update_inv [OF k t, of ?f] fr by (simp add: same_core_def)
  qed
qed

lemma wake_is_load_aware: "wake c t k = snd (wake_load_aware c c t k)"
  by (simp add: wake_def wake_load_aware_def Let_def split: option.splits prod.splits)

lemma wake_inv: "sched_inv on k \<Longrightarrow> wakeable (view k) t \<Longrightarrow> sched_inv on (wake c t k)"
  by (simp add: wake_is_load_aware wake_load_aware_inv)

text \<open>An update of the thread itself does not change who may be woken.\<close>

lemma holds_reply_update:
  assumes "tables_ok k" "vT (view k) t = Some th" "fewer_replies t th (f th)"
    and "holds_reply (view (threads_get_mut k t f)) x u s"
  shows "holds_reply (view k) x u s"
  using assms by (auto simp: holds_reply_def thr_Some fewer_replies_def split: if_splits)

lemma wakeable_update:
  assumes "tables_ok k" "wakeable (view k) t" "vT (view k) t = Some th" "hst (f th) = hst th"
    and "fewer_replies t th (f th)"
  shows "wakeable (view (threads_get_mut k t f)) t"
  using assms holds_reply_update [of k t th f, OF assms(1,3,5)] by (fastforce simp: wakeable_def thr_Some unqueued_def)

lemma deliver_to_inv:
  assumes k: "sched_inv on k" and w: "wakeable (view k) t"
  shows "sched_inv on (deliver_to c t msg k)"
proof -
  note inv = sched_invD [OF k]
  obtain th where t: "vT (view k) t = Some th" using w by (auto simp: wakeable_def thr_iff)
  let ?f = "\<lambda>th. th\<lparr>mailbox := msg, handshake := serve (handshake th)\<rparr>"
  have fr: "fewer_replies t th (?f th)" by (rule fewer_repliesI [OF inv(3) t]) simp_all
  then have "sched_inv on (threads_get_mut k t ?f)"
    by (intro update_inv [OF k t]) (simp_all add: same_core_def serve_def)
  moreover have "wakeable (view (threads_get_mut k t ?f)) t"
    by (rule wakeable_update [OF inv(1) w t]) (use fr in \<open>simp_all add: serve_def\<close>)
  ultimately show ?thesis unfolding deliver_to_def by (rule wake_inv)
qed

section \<open>Endpoints\<close>

text \<open>A waiter that leaves the head of a queue may be woken.\<close>

lemma queued_no_reply:
  assumes "view_inv on v" "t \<in> set (vS v n) \<or> t \<in> set (vR v n)"
  shows "\<not> holds_reply v t u s"
  using inv_awaiting [OF assms(1), of t u s] assms(2) by (auto simp: awaiting_def)

lemma queued_once:
  assumes inv: "view_inv on v"
  shows "t \<in> set (vS v n) \<Longrightarrow> t \<in> set (vS v m) \<Longrightarrow> n = m" "t \<in> set (vR v n) \<Longrightarrow> t \<in> set (vR v m) \<Longrightarrow> n = m"
    "t \<in> set (vS v n) \<Longrightarrow> t \<notin> set (vR v m)"
  using inv_sender [OF inv, of t n] inv_sender [OF inv, of t m] inv_receiver [OF inv, of t n] inv_receiver [OF inv, of t m]
  by (auto simp: parked_sender_def parked_receiver_def Let_def)

lemma dequeue_inv:
  assumes k: "sched_inv on k" and e: "endpoint_of k n = Some (phys, e)"
    and sub: "distinct (asenders e')" "set (asenders e') \<subseteq> set (asenders e)"
      "distinct (areceivers e')" "set (areceivers e') \<subseteq> set (areceivers e)"
  shows "sched_inv on (put_endpoint k phys e')"
proof (rule sched_invI)
  note inv = sched_invD [OF k]
  show "view_inv on (view (put_endpoint k phys e'))"
    unfolding view_put_endpoint [OF inv(1) e]
    by (rule inv_shrink [OF inv(3)])
      (use sub endpoint_of_view [OF e] inv_distinct(1,2) [OF inv(3)] in \<open>auto split: if_splits\<close>)
qed (use sched_invD [OF k] in simp_all)

lemma dequeue_receiver:
  assumes k: "sched_inv on k" and e: "endpoint_of k n = Some (phys, e)" and r: "areceivers e = t # rs"
  shows "sched_inv on (put_endpoint k phys (e\<lparr>areceivers := rs\<rparr>))"
    "wakeable (view (put_endpoint k phys (e\<lparr>areceivers := rs\<rparr>))) t"
    "\<exists>th. vT (view k) t = Some th \<and> parked_receiver n (handshake th)"
proof -
  note inv = sched_invD [OF k]
  have q: "vR (view k) n = t # rs" "vS (view k) n = asenders e" using endpoint_of_view [OF e] r by simp_all
  have d: "distinct (asenders e)" "distinct (t # rs)"
    using inv_distinct(1,2) [OF inv(3), of n] q by auto
  then show "sched_inv on (put_endpoint k phys (e\<lparr>areceivers := rs\<rparr>))"
    by (intro dequeue_inv [OF k e]) (use r in auto)
  have tr: "t \<in> set (vR (view k) n)" using q by simp
  then show th: "\<exists>th. vT (view k) t = Some th \<and> parked_receiver n (handshake th)"
    by (rule inv_receiver [OF inv(3)])
  have out: "t \<notin> set (vS (view k) m)" "m \<noteq> n \<Longrightarrow> t \<notin> set (vR (view k) m)" for m
    using queued_once [OF inv(3), of t] tr by blast+
  then have "t \<notin> set (asenders e)" using q by metis
  with out show "wakeable (view (put_endpoint k phys (e\<lparr>areceivers := rs\<rparr>))) t"
    using th d queued_no_reply [OF inv(3), of t n] tr q
    by (auto simp: wakeable_def thr_iff view_put_endpoint [OF inv(1) e] unqueued_def holds_reply_def)
qed

lemma dequeue_sender:
  assumes k: "sched_inv on k" and e: "endpoint_of k n = Some (phys, e)" and r: "asenders e = t # ss"
  shows "sched_inv on (put_endpoint k phys (e\<lparr>asenders := ss\<rparr>))"
    "unqueued (view (put_endpoint k phys (e\<lparr>asenders := ss\<rparr>))) t"
    "\<not> holds_reply (view (put_endpoint k phys (e\<lparr>asenders := ss\<rparr>))) t u s"
    "\<exists>th. vT (view k) t = Some th \<and> parked_sender n th"
proof -
  note inv = sched_invD [OF k]
  have q: "vS (view k) n = t # ss" "vR (view k) n = areceivers e" using endpoint_of_view [OF e] r by simp_all
  have d: "distinct (areceivers e)" "distinct (t # ss)"
    using inv_distinct(1,2) [OF inv(3), of n] q by auto
  then show "sched_inv on (put_endpoint k phys (e\<lparr>asenders := ss\<rparr>))"
    by (intro dequeue_inv [OF k e]) (use r in auto)
  have ts: "t \<in> set (vS (view k) n)" using q by simp
  then show "\<exists>th. vT (view k) t = Some th \<and> parked_sender n th"
    by (rule inv_sender [OF inv(3)])
  show "\<not> holds_reply (view (put_endpoint k phys (e\<lparr>asenders := ss\<rparr>))) t u s"
    using queued_no_reply [OF inv(3), of t n u s] ts by (simp add: view_put_endpoint [OF inv(1) e] holds_reply_def)
  have out: "t \<notin> set (vR (view k) m)" "m \<noteq> n \<Longrightarrow> t \<notin> set (vS (view k) m)" for m
    using queued_once [OF inv(3), of t] ts by blast+
  then have "t \<notin> set (areceivers e)" using q by metis
  with out show "unqueued (view (put_endpoint k phys (e\<lparr>asenders := ss\<rparr>))) t"
    using d q by (auto simp: view_put_endpoint [OF inv(1) e] unqueued_def)
qed

section \<open>The running thread parks\<close>

text \<open>The thread that makes a call: the running one of a core that is up, and not an idle thread.\<close>

definition runs :: "nat set \<Rightarrow> nat \<Rightarrow> 's sched \<Rightarrow> bool" where
  "runs on c k \<longleftrightarrow> c \<in> on \<and> (\<forall>d \<in> on. idle k d \<noteq> Some (current k c)) \<and>
     (case threads_get k (current k c) of None \<Rightarrow> False | Some th \<Rightarrow> state (handshake th) = Running)"

lemma runsE:
  assumes "runs on c k"
  obtains th where "c \<in> on" "vT (view k) (current k c) = Some th" "hst th = Running"
    "\<forall>d \<in> on. idle k d \<noteq> Some (current k c)"
  using assms by (auto simp: runs_def split: option.splits)

lemma view_reorder: "v\<lparr>vS := s, vR := r, vT := t\<rparr> = v\<lparr>vT := t, vS := s, vR := r\<rparr>"
  by (cases v) simp

lemma park_inv:
  assumes k: "sched_inv on k" and r: "runs on c k" and e: "endpoint_of k n = Some (phys, e)"
    and q: "role = Receiver \<and> asenders e' = asenders e \<and> areceivers e' = areceivers e @ [current k c] \<or>
      role \<noteq> Receiver \<and> asenders e' = asenders e @ [current k c] \<and> areceivers e' = areceivers e"
    and f: "\<And>th. cspace (f th) = cspace th" "\<And>th. fault_ep (f th) = fault_ep th"
      "\<And>th. outgoing_cap (f th) = outgoing_cap th \<or> outgoing_cap (f th) = Some (reply_cap (current k c)) \<or>
        (\<forall>x. \<not> names_reply (outgoing_cap (f th)) x)"
  shows "\<exists>k'. park_current c (n, role) f (put_endpoint k phys e') = Ok k' \<and> sched_inv on k'"
proof -
  note inv = sched_invD [OF k]
  let ?t = "current k c"
  obtain th where th: "c \<in> on" "vT (view k) ?t = Some th" "hst th = Running"
    "\<forall>d \<in> on. idle k d \<noteq> Some ?t" using r by (rule runsE)
  let ?h = "(handshake th)\<lparr>state := Blocked, wait_on := Some (n, role), ipc_served := False\<rparr>"
  let ?g = "\<lambda>th. (f th)\<lparr>handshake := ?h\<rparr>"
  let ?k = "threads_get_mut (put_endpoint k phys e') ?t ?g"
  have eq: "park_current c (n, role) f (put_endpoint k phys e') = Ok ?k"
    using th by (simp add: park_current_def view_put_endpoint [OF inv(1) e] park_def)
  have oc: "on_cpu (handshake th)" "\<not> wake_pending (handshake th)"
    using inv_current [OF inv(3) th(1)] inv_standing [OF inv(3) th(2)] th by (auto simp: standing_ok_def)
  have caps: "fewer_replies ?t th (?g th)"
    using inv_caps [OF inv(3) th(2)] f(1) f(3) [of th]
    by (elim disjE) (auto simp: fewer_replies_def caps_ok_def)
  have "view_inv on ((view k)\<lparr>vT := (vT (view k))(?t := Some (?g th)), vS := (vS (view k))(n := asenders e'),
      vR := (vR (view k))(n := areceivers e')\<rparr>)"
    by (rule inv_stop [OF inv(3) th(1) _ th(2,3) _ _ _ _ caps, where n = n])
      (use q th oc endpoint_of_view [OF e] in
        \<open>auto simp: parked_sender_def parked_receiver_def Let_def intro: wait_role.exhaust [of role]\<close>)
  then have "sched_inv on ?k"
    using inv th(2) by (intro sched_invI) (simp_all add: view_put_endpoint [OF inv(1) e] view_reorder)
  with eq show ?thesis by blast
qed

section \<open>The six IPC operations\<close>

definition keeps :: "nat set \<Rightarrow> ('r \<times> 's sched) checked \<Rightarrow> bool" where
  "keeps on m \<longleftrightarrow> (\<exists>r k. m = Ok (r, k) \<and> sched_inv on k)"

lemma keeps_Ok [simp]: "keeps on (Ok (r, k)) \<longleftrightarrow> sched_inv on k"
  by (auto simp: keeps_def)

lemma keeps_pair: "keeps on (Ok p) \<longleftrightarrow> sched_inv on (snd p)"
  by (cases p) simp

lemma keeps_and_then: "\<exists>k'. m = Ok k' \<and> sched_inv on k' \<Longrightarrow> keeps on (and_then m (\<lambda>k. Ok (r, k)))"
  by (auto simp: and_then_def)

lemma set_ipc_aborted_inv:
  assumes k: "sched_inv on k"
  shows "sched_inv on (set_ipc_aborted k t)"
proof (cases "vT (view k) t")
  case None
  have u: "(vT (view k))(t := None) = vT (view k)" using None by auto
  then have "view (set_ipc_aborted k t) = view k"
    using sched_invD(1) [OF k] None by (simp add: set_ipc_aborted_def)
  then show ?thesis using sched_invD [OF k] by (intro sched_invI) (simp_all add: set_ipc_aborted_def)
next
  case (Some th)
  show ?thesis unfolding set_ipc_aborted_def
    by (rule update_inv [OF k Some])
      (simp_all add: same_core_def abort_def fewer_repliesI [OF sched_invD(3) [OF k] Some])
qed

lemma tcb_ptr_runs: "runs on c k \<Longrightarrow> tcb_ptr k (current k c) f = f (current k c)"
  by (auto simp: runs_def tcb_ptr_def unwrap_def split: option.splits)

lemma ipc_send_keeps:
  assumes k: "sched_inv on k" and r: "runs on c k"
  shows "keeps on (ipc_send c ep m k)"
proof (cases "endpoint_of k ep")
  case None
  then show ?thesis using k r by (simp add: ipc_send_def tcb_ptr_runs [OF r] set_ipc_aborted_inv)
next
  case (Some pe)
  then obtain phys e where e: "endpoint_of k ep = Some (phys, e)" by (cases pe) simp
  show ?thesis
  proof (cases "areceivers e")
    case Nil
    have "keeps on (and_then (park_current c (ep, Sender) (\<lambda>th. th\<lparr>mailbox := wide m\<rparr>)
        (put_endpoint k phys (e\<lparr>asenders := asenders e @ [current k c]\<rparr>))) (\<lambda>k1. Ok (True, k1)))"
      by (rule keeps_and_then, rule park_inv [OF k r e]) simp_all
    then show ?thesis using e Nil by (simp add: ipc_send_def tcb_ptr_runs [OF r] asend_def)
  next
    case (Cons t rs)
    note d = dequeue_receiver [OF k e Cons]
    then show ?thesis
      using e Cons deliver_to_inv [OF d(1,2), of c "wide m"]
      by (auto simp: ipc_send_def tcb_ptr_runs [OF r] asend_def unwrap_def view_put_endpoint [OF sched_invD(1) [OF k] e])
  qed
qed

lemma is_reply_iff: "is_reply oc \<longleftrightarrow> (\<exists>x. names_reply oc x)"
  by (auto simp: is_reply_def names_reply_def split: option.splits kobject.splits)

lemma sender_wake_inv:
  assumes k: "sched_inv on k" and e: "endpoint_of k n = Some (phys, e)" and s: "asenders e = t # ss"
    and k1: "k1 = put_endpoint k phys (e\<lparr>asenders := ss\<rparr>)"
  shows "sched_inv on (wake c t (threads_get_mut k1 t (\<lambda>th. th\<lparr>handshake := serve (handshake th)\<rparr>)))"
proof -
  note d = dequeue_sender [OF k e s, folded k1]
  note inv = sched_invD [OF d(1)]
  obtain th where t: "vT (view k1) t = Some th"
    using d(4) by (auto simp: k1 view_put_endpoint [OF sched_invD(1) [OF k] e])
  let ?f = "\<lambda>th. th\<lparr>handshake := serve (handshake th)\<rparr>"
  have fr: "fewer_replies t th (?f th)" by (rule fewer_repliesI [OF inv(3) t]) simp_all
  have "sched_inv on (threads_get_mut k1 t ?f)"
    by (rule update_inv [OF d(1) t]) (use fr in \<open>simp_all add: same_core_def serve_def\<close>)
  moreover have "wakeable (view k1) t" using d(2,3) t by (simp add: wakeable_def thr_Some)
  then have "wakeable (view (threads_get_mut k1 t ?f)) t"
    by (rule wakeable_update [OF inv(1) _ t]) (use fr in \<open>simp_all add: serve_def\<close>)
  ultimately show ?thesis by (rule wake_inv)
qed

lemma pending_put_inv:
  assumes k: "sched_inv on k" and e: "endpoint_of k n = Some (phys, e)"
  shows "sched_inv on (put_endpoint k phys (e\<lparr>apending := p\<rparr>))"
  by (rule dequeue_inv [OF k e])
    (use endpoint_of_view [OF e] inv_distinct(1,2) [OF sched_invD(3) [OF k], of n] in simp_all)

lemma recv_park_inv:
  assumes k: "sched_inv on k" and r: "runs on c k" and e: "endpoint_of k ep = Some (phys, e)"
  shows "keeps on (and_then (park_current c (ep, Receiver) (\<lambda>th. th)
    (put_endpoint k phys (e\<lparr>areceivers := areceivers e @ [current k c]\<rparr>))) (\<lambda>k1. Ok (x, k1)))"
  by (rule keeps_and_then, rule park_inv [OF k r e]) simp_all

lemma ipc_recv_keeps:
  assumes k: "sched_inv on k" and r: "runs on c k"
  shows "keeps on (ipc_recv c ep k)"
proof (cases "endpoint_of k ep")
  case None
  then show ?thesis using k by (simp add: ipc_recv_def tcb_ptr_runs [OF r] set_ipc_aborted_inv)
next
  case (Some pe)
  then obtain phys e where e: "endpoint_of k ep = Some (phys, e)" by (cases pe) simp
  note start = ipc_recv_def tcb_ptr_runs [OF r] e arecv_def
  consider "apending e > 0" | "apending e = 0" "asenders e = []" | t ss where "apending e = 0" "asenders e = t # ss"
    by (cases "asenders e") auto
  then show ?thesis
  proof cases
    case 1
    then show ?thesis by (simp add: start pending_put_inv [OF k e])
  next
    case 2
    then show ?thesis using recv_park_inv [OF k r e] by (simp add: start)
  next
    case 3
    define k1 where "k1 = put_endpoint k phys (e\<lparr>asenders := ss\<rparr>)"
    note d = dequeue_sender [OF k e 3(2), folded k1_def]
    obtain th where t: "vT (view k1) t = Some th"
      using d(4) by (auto simp: k1_def view_put_endpoint [OF sched_invD(1) [OF k] e])
    have dead: "sched_inv on (threads_get_mut k1 t (\<lambda>th. th\<lparr>handshake := (handshake th)\<lparr>wait_on := None\<rparr>\<rparr>))"
      by (rule update_inv [OF d(1) t])
        (simp_all add: same_core_def d(2) fewer_repliesI [OF sched_invD(3) [OF d(1)] t])
    show ?thesis
      using 3 t sender_wake_inv [OF k e 3(2) k1_def] dead d(1)
      by (simp add: start unwrap_def k1_def [symmetric] Let_def)
  qed
qed

section \<open>Capabilities in transit\<close>

lemma insert_or_no_cap_cases:
  assumes wf: "cspace_wf n cs"
  obtains (full) "insert_or_no_cap cs cap = (NO_CAP, cs)"
  | (placed) slot cs' where "insert_or_no_cap cs cap = (slot, cs')" "cap_at cs slot = None"
      "cap_at cs' = (cap_at cs)(slot \<mapsto> cap)" "cspace_wf n cs'"
proof (cases rule: cspace_insert_cases [OF wf, of cap])
  case 1
  then show ?thesis by (intro full) (simp add: insert_or_no_cap_def)
next
  case (2 slot)
  obtain cs' where "cspace_insert cs cap = (Ok slot, cs')" using 2(1) by (cases "cspace_insert cs cap") simp
  then show ?thesis
    using 2 cspace_ops_wf(1) [OF wf, of cap] by (intro placed [of slot cs']) (simp_all add: insert_or_no_cap_def)
qed

lemma fewer_replies_put:
  assumes "caps_ok t th" "cspace_wf CSPACE_SLOTS (cspace th')" "outgoing_cap th' = outgoing_cap th"
    "cap_at (cspace th') = (cap_at (cspace th))(s := oc)" "\<And>x. \<not> names_reply oc x"
  shows "fewer_replies t th th'"
  using assms by (auto simp: fewer_replies_def caps_ok_def)

lemma insert_fewer_replies:
  assumes inv: "view_inv on v" and t: "vT v t = Some th" and cap: "\<not> is_reply (Some cap)"
  shows "fewer_replies t th (th\<lparr>cspace := snd (insert_or_no_cap (cspace th) cap)\<rparr>)"
proof -
  note ok = inv_caps [OF inv t]
  have wf: "cspace_wf CSPACE_SLOTS (cspace th)" using ok by (simp add: caps_ok_def)
  show ?thesis
  proof (cases rule: insert_or_no_cap_cases [OF wf, of cap])
    case 1
    then show ?thesis by (intro fewer_repliesI [OF inv t]) simp_all
  next
    case (2 slot cs')
    then show ?thesis
      by (intro fewer_replies_put [OF ok, where s = slot and oc = "Some cap"])
        (use cap in \<open>simp_all add: is_reply_iff\<close>)
  qed
qed

lemma awaiting_alt:
  "awaiting v t \<longleftrightarrow> unqueued v t \<and>
     thr_if v t (\<lambda>th. (hst th = Blocked \<or> hst th = Dead) \<and> \<not> wake_pending (handshake th))"
  by (auto simp: awaiting_def unqueued_def)

lemma mint_inv:
  assumes k: "sched_inv on k" and u: "vT (view k) u = Some th" and aw: "awaiting (view k) t"
    and none: "\<And>w s. \<not> holds_reply (view k) t w s"
  shows "sched_inv on (threads_get_mut k u (\<lambda>x. x\<lparr>cspace := snd (insert_or_no_cap (cspace th) (reply_cap t))\<rparr>))"
proof -
  note inv = sched_invD [OF k]
  have wf: "cspace_wf CSPACE_SLOTS (cspace th)" using inv_caps [OF inv(3) u] by (simp add: caps_ok_def)
  have "view_inv on ((view k)\<lparr>vT := (vT (view k))(u := Some
      (th\<lparr>cspace := snd (insert_or_no_cap (cspace th) (reply_cap t))\<rparr>))\<rparr>)"
  proof (cases rule: insert_or_no_cap_cases [OF wf, of "reply_cap t"])
    case 1
    then show ?thesis
      by (intro inv_update [OF inv(3) u]) (simp_all add: same_core_def fewer_repliesI [OF inv(3) u])
  next
    case (2 slot cs')
    then show ?thesis by (intro inv_mint [OF inv(3) u, where sl = slot and t = t]) (simp_all add: aw none)
  qed
  then show ?thesis using inv u by (intro sched_invI) simp_all
qed

lemma ipc_send_cap_keeps:
  assumes k: "sched_inv on k" and r: "runs on c k" and cap: "\<not> is_reply (Some cap)"
  shows "keeps on (ipc_send_cap c ep data cap k)"
proof (cases "endpoint_of k ep")
  case None
  then show ?thesis using k by (simp add: ipc_send_cap_def tcb_ptr_runs [OF r] set_ipc_aborted_inv)
next
  case (Some pe)
  then obtain phys e where e: "endpoint_of k ep = Some (phys, e)" by (cases pe) simp
  note start = ipc_send_cap_def tcb_ptr_runs [OF r] e asend_def
  show ?thesis
  proof (cases "areceivers e")
    case Nil
    have "keeps on (and_then (park_current c (ep, Sender)
        (\<lambda>th. th\<lparr>mailbox := [data, 0, 0, 0, 0], outgoing_cap := Some cap\<rparr>)
        (put_endpoint k phys (e\<lparr>asenders := asenders e @ [current k c]\<rparr>))) (\<lambda>k1. Ok (True, k1)))"
      by (rule keeps_and_then, rule park_inv [OF k r e]) (use cap in \<open>simp_all add: is_reply_iff\<close>)
    then show ?thesis using Nil by (simp add: start)
  next
    case (Cons t rs)
    define k1 where "k1 = put_endpoint k phys (e\<lparr>areceivers := rs\<rparr>)"
    note d = dequeue_receiver [OF k e Cons, folded k1_def]
    note inv = sched_invD [OF d(1)]
    obtain th where t: "vT (view k1) t = Some th" using d(2) by (auto simp: wakeable_def thr_iff)
    let ?f = "\<lambda>x. x\<lparr>cspace := snd (insert_or_no_cap (cspace th) cap)\<rparr>"
    have fr: "fewer_replies t th (?f th)" by (rule insert_fewer_replies [OF inv(3) t cap])
    have k2: "sched_inv on (threads_get_mut k1 t ?f)"
      by (rule update_inv [OF d(1) t]) (use fr in \<open>simp_all add: same_core_def\<close>)
    moreover have "wakeable (view (threads_get_mut k1 t ?f)) t"
      by (rule wakeable_update [OF inv(1) d(2) t]) (use fr in simp_all)
    ultimately show ?thesis
      using deliver_to_inv Cons t by (simp add: start k1_def [symmetric] unwrap_def split_beta)
  qed
qed

lemma unqueued_get_mut: "tables_ok k \<Longrightarrow> unqueued (view (threads_get_mut k t f)) = unqueued (view k)"
  by (simp add: unqueued_def fun_eq_iff)

lemma ipc_recv_cap_keeps:
  assumes k: "sched_inv on k" and r: "runs on c k"
  shows "keeps on (ipc_recv_cap c ep k)"
proof (cases "endpoint_of k ep")
  case None
  then show ?thesis using k by (simp add: ipc_recv_cap_def tcb_ptr_runs [OF r] set_ipc_aborted_inv)
next
  case (Some pe)
  then obtain phys e where e: "endpoint_of k ep = Some (phys, e)" by (cases pe) simp
  note start = ipc_recv_cap_def tcb_ptr_runs [OF r] e arecv_def
  consider "apending e > 0" | "apending e = 0" "asenders e = []" | t ss where "apending e = 0" "asenders e = t # ss"
    by (cases "asenders e") auto
  then show ?thesis
  proof cases
    case 1
    then show ?thesis by (simp add: start pending_put_inv [OF k e])
  next
    case 2
    then show ?thesis using recv_park_inv [OF k r e] by (simp add: start)
  next
    case 3
    define k1 where "k1 = put_endpoint k phys (e\<lparr>asenders := ss\<rparr>)"
    note d = dequeue_sender [OF k e 3(2), folded k1_def]
    have v1: "view k1 = (view k)\<lparr>vS := (vS (view k))(ep := ss), vR := (vR (view k))(ep := areceivers e)\<rparr>"
      by (simp add: k1_def view_put_endpoint [OF sched_invD(1) [OF k] e])
    obtain th where t: "vT (view k1) t = Some th" "parked_sender ep th" using d(4) by (auto simp: v1)
    obtain m where m: "vT (view k1) (current k c) = Some m" "hst m = Running"
      using r by (rule runsE) (simp add: v1)
    have ne: "current k c \<noteq> t" using t m by (auto simp: parked_sender_def Let_def)
    define k2 where "k2 = threads_get_mut k1 t (\<lambda>th. th\<lparr>outgoing_cap := None\<rparr>)"
    have fr: "fewer_replies t th (th\<lparr>outgoing_cap := None\<rparr>)"
      using inv_caps [OF sched_invD(3) [OF d(1)] t(1)] by (simp add: fewer_replies_def caps_ok_def)
    have k2: "sched_inv on k2" unfolding k2_def
      by (rule update_inv [OF d(1) t(1)]) (use fr in \<open>simp_all add: same_core_def\<close>)
    have nr: "\<not> holds_reply (view k2) t u s" for u s
      using holds_reply_update [OF sched_invD(1) [OF d(1)] t(1), of "\<lambda>th. th\<lparr>outgoing_cap := None\<rparr>"] fr d(3)
      unfolding k2_def by blast
    have v2: "vT (view k2) = (vT (view k1))(t := Some (th\<lparr>outgoing_cap := None\<rparr>))"
      "unqueued (view k2) = unqueued (view k1)"
      using sched_invD(1) [OF d(1)] t(1) by (simp_all add: k2_def unqueued_def fun_eq_iff)
    let ?ins = "\<lambda>cp. threads_get_mut k2 (current k c) (\<lambda>x. x\<lparr>cspace := snd (insert_or_no_cap (cspace m) cp)\<rparr>)"
    have m2: "vT (view k2) (current k c) = Some m" using m ne v2 by simp
    show ?thesis
    proof (cases "is_reply (outgoing_cap th)")
      case True
      then have og: "outgoing_cap th = Some (reply_cap t)"
        using inv_caps [OF sched_invD(3) [OF d(1)] t(1)] by (auto simp: caps_ok_def is_reply_iff)
      have "awaiting (view k2) t"
        using t(2) d(2) v2 by (auto simp: awaiting_alt thr_if_def parked_sender_def Let_def)
      then have "sched_inv on (?ins (reply_cap t))" using nr by (intro mint_inv [OF k2 m2])
      then show ?thesis
        using 3 t m2 True og by (simp add: start k1_def [symmetric] k2_def [symmetric] unwrap_def split_beta Let_def)
    next
      case False
      define k3 where "k3 = (case outgoing_cap th of None \<Rightarrow> k2 | Some cp \<Rightarrow> ?ins cp)"
      have frm: "fewer_replies (current k c) m (m\<lparr>cspace := snd (insert_or_no_cap (cspace m) cp)\<rparr>)"
        if "outgoing_cap th = Some cp" for cp
        by (rule insert_fewer_replies [OF sched_invD(3) [OF k2] m2]) (use False that in simp)
      have k3: "sched_inv on k3"
        using k2 update_inv [OF k2 m2] frm by (auto simp: k3_def same_core_def split: option.split)
      have t3: "vT (view k3) t = Some (th\<lparr>outgoing_cap := None\<rparr>)"
        using sched_invD(1) [OF k2] ne v2 m2 by (simp add: k3_def split: option.split)
      have nr3: "\<not> holds_reply (view k3) t u s" for u s
      proof (cases "outgoing_cap th")
        case None
        then show ?thesis using nr by (simp add: k3_def)
      next
        case (Some cp)
        then have "k3 = ?ins cp" by (simp add: k3_def)
        then show ?thesis
          using holds_reply_update [of k2 "current k c" m
              "\<lambda>x. x\<lparr>cspace := snd (insert_or_no_cap (cspace m) cp)\<rparr>", OF sched_invD(1) [OF k2] m2 frm [OF Some]] nr
          by blast
      qed
      have "unqueued (view k3) t"
        using unqueued_get_mut [OF sched_invD(1) [OF k2]] d(2) v2 by (simp add: k3_def split: option.split)
      then have w: "wakeable (view k3) t" using t3 nr3 by (simp add: wakeable_def thr_Some)
      let ?f = "\<lambda>th. th\<lparr>handshake := serve (handshake th)\<rparr>"
      have fr3: "fewer_replies t (th\<lparr>outgoing_cap := None\<rparr>) (?f (th\<lparr>outgoing_cap := None\<rparr>))"
        by (rule fewer_repliesI [OF sched_invD(3) [OF k3] t3]) simp_all
      have "sched_inv on (threads_get_mut k3 t ?f)"
        by (rule update_inv [OF k3 t3]) (use fr3 in \<open>simp_all add: same_core_def serve_def\<close>)
      moreover have "wakeable (view (threads_get_mut k3 t ?f)) t"
        by (rule wakeable_update [OF sched_invD(1) [OF k3] w t3]) (use fr3 in \<open>simp_all add: serve_def\<close>)
      ultimately have "sched_inv on (wake c t (threads_get_mut k3 t ?f))" by (rule wake_inv)
      then show ?thesis
        using 3 t m2 False
        by (simp add: start k1_def [symmetric] k2_def [symmetric] unwrap_def split_beta Let_def k3_def split: option.splits)
    qed
  qed
qed

section \<open>Call and reply\<close>

text \<open>Updates of two different threads commute, so the caller may be parked before its reply is minted.\<close>

lemma bind_const: "Option.bind x (\<lambda>_. y) = (if x = None then None else y)"
  by (cases x) simp_all

lemma slot_of_get_mut:
  assumes "table_wf t"
  shows "slot_of (table_get_mut t n f) m = slot_of t m"
proof -
  have "slots (table_get_mut t n f) ! i = None \<longleftrightarrow> slots t ! i = None" if "i < length (slots t)" for i
    using that by (cases "slot_of t n = Some i") (auto simp: table_get_mut_def split: option.splits)
  moreover have "gens (table_get_mut t n f) = gens t" by (simp add: table_get_mut_def split: option.splits)
  ultimately show ?thesis
    using table_wfD(1) [OF assms] by (auto simp: slot_of_def slice_get_def bind_const split: prod.splits option.splits)
qed

lemma table_get_mut_commute:
  assumes wf: "table_wf t" and ne: "n \<noteq> m"
  shows "table_get_mut (table_get_mut t n f) m g = table_get_mut (table_get_mut t m g) n f"
proof -
  have ij: "\<forall>i. slot_of t n = Some i \<longrightarrow> slot_of t m \<noteq> Some i"
    using ne slot_of_Some_iff [OF wf] by auto
  show ?thesis
    unfolding table_get_mut_def [of "table_get_mut t n f"] table_get_mut_def [of "table_get_mut t m g"] slot_of_get_mut [OF wf]
    by (cases "slot_of t n"; cases "slot_of t m")
      (use ij in \<open>simp_all add: table_get_mut_def list_update_swap\<close>)
qed

lemma get_mut_commute:
  "tables_ok k \<Longrightarrow> t \<noteq> u \<Longrightarrow>
     threads_get_mut (threads_get_mut k t f) u g = threads_get_mut (threads_get_mut k u g) t f"
  by (simp add: threads_get_mut_def tables_ok_def table_get_mut_commute)

lemma push_runq_get_mut: "push_runq c t (threads_get_mut k u f) = threads_get_mut (push_runq c t k) u f"
  by (simp add: push_runq_def threads_get_mut_def)

lemma wake_commute:
  assumes "tables_ok k" "t \<noteq> u"
  shows "wake c t (threads_get_mut k u f) = threads_get_mut (wake c t k) u f"
  using assms get_mut_commute [OF assms(1), of u t] push_runq_get_mut
  by (auto simp: wake_def Let_def split: option.splits prod.splits)

lemma deliver_to_commute:
  assumes "tables_ok k" "t \<noteq> u"
  shows "deliver_to c t msg (threads_get_mut k u f) = threads_get_mut (deliver_to c t msg k) u f"
  using assms get_mut_commute [OF assms(1), of u t] by (simp add: deliver_to_def wake_commute)

text \<open>The running thread stops without joining a wait queue.\<close>

lemma stop_inv:
  assumes k: "sched_inv on k" and r: "runs on c k" and t: "vT (view k) (current k c) = Some th"
    and f: "hst (f th) = Blocked \<or> hst (f th) = Finished \<or> hst (f th) = Dead"
      "on_cpu (handshake (f th)) = on_cpu (handshake th)" "wake_pending (handshake (f th)) = wake_pending (handshake th)"
      "cspace (f th) = cspace th" "outgoing_cap (f th) = outgoing_cap th"
  shows "sched_inv on (threads_get_mut k (current k c) f)"
proof (rule sched_invI)
  note inv = sched_invD [OF k]
  have r': "c \<in> on" "hst th = Running" "\<And>d. d \<in> on \<Longrightarrow> idle k d \<noteq> Some (current k c)"
    using r t by (auto simp: runs_def)
  have oc: "on_cpu (handshake th)" "\<not> wake_pending (handshake th)"
    using inv_current [OF inv(3) r'(1)] inv_standing [OF inv(3) t] t r' by (auto simp: standing_ok_def)
  have "view_inv on ((view k)\<lparr>vT := (vT (view k))(current k c := Some (f th)),
      vS := vS (view k), vR := vR (view k)\<rparr>)"
    by (rule inv_stop [OF inv(3) r'(1) _ t r'(2)])
      (use r' f oc fewer_repliesI [OF inv(3) t f(4,5)] in simp_all)
  then show "view_inv on (view (threads_get_mut k (current k c) f))"
    using inv(1) t by simp
qed (use sched_invD [OF k] in simp_all)

lemma runs_put_endpoint: "tables_ok k \<Longrightarrow> endpoint_of k n = Some (phys, e) \<Longrightarrow> runs on c (put_endpoint k phys e') = runs on c k"
  by (simp add: runs_def view_put_endpoint)

lemma table_get_mut_comp:
  assumes "table_wf t"
  shows "table_get_mut (table_get_mut t n f) n g = table_get_mut t n (\<lambda>x. g (f x))"
proof (cases "slot_of t n")
  case None
  then show ?thesis
    unfolding table_get_mut_def [of "table_get_mut t n f"] slot_of_get_mut [OF assms] by (simp add: table_get_mut_def)
next
  case (Some i)
  then have "i < length (slots t)" using slot_of_Some_iff [OF assms] by blast
  with Some show ?thesis
    unfolding table_get_mut_def [of "table_get_mut t n f"] slot_of_get_mut [OF assms]
    by (simp add: table_get_mut_def option.map_comp comp_def)
qed

lemma get_mut_comp: "tables_ok k \<Longrightarrow>
    threads_get_mut (threads_get_mut k t f) t g = threads_get_mut k t (\<lambda>x. g (f x))"
  by (simp add: threads_get_mut_def tables_ok_def table_get_mut_comp)

lemma deliver_to_other:
  assumes "tables_ok k"
  shows "u \<noteq> t \<Longrightarrow> vT (view (deliver_to c t msg k)) u = vT (view k) u"
    "current (deliver_to c t msg k) = current k"
  using assms by (simp_all add: deliver_to_def wake_def Let_def split: option.splits prod.splits)

lemma holds_reply_insert:
  assumes ok: "tables_ok k" and u: "vT (view k) u = Some th" and wf: "cspace_wf CSPACE_SLOTS (cspace th)" and ne: "x \<noteq> t"
    and h: "holds_reply (view (threads_get_mut k u (\<lambda>y. y\<lparr>cspace := snd (insert_or_no_cap (cspace th) (reply_cap t))\<rparr>))) x w s"
  shows "holds_reply (view k) x w s"
  using h ok u ne by (cases rule: insert_or_no_cap_cases [OF wf, of "reply_cap t"])
    (auto simp: holds_reply_def thr_Some split: if_splits)

lemma ipc_call_keeps:
  assumes k: "sched_inv on k" and r: "runs on c k"
  shows "keeps on (ipc_call c ep m k)"
proof (cases "endpoint_of k ep")
  case None
  then show ?thesis using k by (simp add: ipc_call_def tcb_ptr_runs [OF r] set_ipc_aborted_inv)
next
  case (Some pe)
  note inv = sched_invD [OF k]
  obtain phys e where e: "endpoint_of k ep = Some (phys, e)" using Some by (cases pe) simp
  note start = ipc_call_def tcb_ptr_runs [OF r] e asend_def
  let ?t = "current k c"
  obtain th where th: "c \<in> on" "vT (view k) ?t = Some th" "hst th = Running"
    using r by (rule runsE)
  show ?thesis
  proof (cases "areceivers e")
    case Nil
    let ?f = "\<lambda>th. th\<lparr>mailbox := [m ! 0, m ! 1, 0, 0, 0], outgoing_cap := Some (reply_cap ?t)\<rparr>"
    let ?k = "put_endpoint k phys (e\<lparr>asenders := asenders e @ [?t]\<rparr>)"
    have "keeps on (and_then (park_current c (ep, AwaitReply) ?f ?k) (\<lambda>k1. Ok (None :: u64 list option, k1)))"
      by (rule keeps_and_then, rule park_inv [OF k r e]) simp_all
    moreover have "park_current c (ep, AwaitReply) (\<lambda>th. th) (threads_get_mut ?k ?t ?f) = park_current c (ep, AwaitReply) ?f ?k"
      using th inv(1) by (simp add: park_current_def view_put_endpoint [OF inv(1) e] unwrap_def get_mut_comp)
    ultimately show ?thesis using Nil th by (simp add: start unwrap_def)
  next
    case (Cons t rs)
    define k1 where "k1 = put_endpoint k phys (e\<lparr>areceivers := rs\<rparr>)"
    note d = dequeue_receiver [OF k e Cons, folded k1_def]
    have v1: "vT (view k1) = vT (view k)" "current k1 = current k"
      by (simp_all add: k1_def view_put_endpoint [OF inv(1) e])
    obtain rh where rh: "vT (view k1) t = Some rh" "hst rh = Blocked"
      using d(3) v1 by (auto simp: parked_receiver_def)
    have ne: "t \<noteq> ?t" using rh th v1 by auto
    let ?h = "(handshake th)\<lparr>state := Blocked, wait_on := Some (ep, AwaitReply), ipc_served := False\<rparr>"
    let ?g = "\<lambda>x. x\<lparr>handshake := ?h\<rparr>"
    let ?ins = "\<lambda>x. x\<lparr>cspace := snd (insert_or_no_cap (cspace rh) (reply_cap ?t))\<rparr>"
    let ?msg = "[m ! 0, fst (insert_or_no_cap (cspace rh) (reply_cap ?t)), m ! 1, 0, 0]"
    define k2 where "k2 = threads_get_mut k1 ?t ?g"
    have k2: "sched_inv on k2" unfolding k2_def
      using stop_inv [OF d(1), of c th ?g] r th v1 by (simp add: runs_put_endpoint [OF inv(1) e] k1_def)
    have v2: "vT (view k2) = (vT (view k1))(?t := Some (?g th))" "unqueued (view k2) = unqueued (view k1)"
      using sched_invD(1) [OF d(1)] th v1 by (simp_all add: k2_def unqueued_def fun_eq_iff)
    have th1: "vT (view k1) ?t = Some th" using th v1 by simp
    have h2: "holds_reply (view k2) = holds_reply (view k1)"
      using th1 v2 by (auto simp: holds_reply_def thr_def fun_eq_iff)
    have "\<not> wake_pending (handshake th)"
      using inv_standing [OF inv(3) th(2)] th(3) by (simp add: standing_ok_def)
    then have aw: "awaiting (view k2) ?t"
      using not_parked_unqueued [OF sched_invD(3) [OF d(1)] th1] th(3) v2 by (simp add: awaiting_alt thr_Some)
    have nr: "\<not> holds_reply (view k2) ?t u s" for u s
      using not_awaiting_no_reply [OF sched_invD(3) [OF d(1)] th1] th(3) h2 by simp
    have rh2: "vT (view k2) t = Some rh" using rh ne v2 by simp
    have k3: "sched_inv on (threads_get_mut k2 t ?ins)" by (rule mint_inv [OF k2 rh2 aw nr])
    have wf: "cspace_wf CSPACE_SLOTS (cspace rh)"
      using inv_caps [OF sched_invD(3) [OF k2] rh2] by (simp add: caps_ok_def)
    have w: "unqueued (view k1) t" "\<not> holds_reply (view k1) t u s" for u s
      using d(2) rh by (simp_all add: wakeable_def thr_Some)
    have "\<not> holds_reply (view (threads_get_mut k2 t ?ins)) t u s" for u s
      using holds_reply_insert [OF sched_invD(1) [OF k2] rh2 wf ne] w(2) h2 by metis
    moreover have "unqueued (view (threads_get_mut k2 t ?ins)) t"
      using w(1) v2 sched_invD(1) [OF k2] unqueued_get_mut by metis
    ultimately have "wakeable (view (threads_get_mut k2 t ?ins)) t"
      using rh2 sched_invD(1) [OF k2] by (simp add: wakeable_def)
    then have fin: "sched_inv on (deliver_to c t ?msg (threads_get_mut k2 t ?ins))"
      by (rule deliver_to_inv [OF k3])
    let ?k3 = "deliver_to c t ?msg (threads_get_mut k1 t ?ins)"
    have "vT (view ?k3) ?t = Some th" "current ?k3 = current k"
      using sched_invD(1) [OF d(1)] ne th1 v1 by (simp_all add: deliver_to_other)
    then have "park_current c (ep, AwaitReply) (\<lambda>th. th) ?k3 = Ok (threads_get_mut ?k3 ?t ?g)"
      using th by (simp add: park_current_def unwrap_def park_def)
    moreover have "threads_get_mut ?k3 ?t ?g = deliver_to c t ?msg (threads_get_mut k2 t ?ins)"
      using sched_invD(1) [OF d(1)] ne by (simp add: deliver_to_commute [symmetric] k2_def get_mut_commute)
    ultimately show ?thesis
      using Cons rh fin by (simp add: start k1_def [symmetric] unwrap_def split_beta Let_def)
  qed
qed

text \<open>Answering a call consumes the reply capability: the two critical sections of the \<open>REPLY\<close> method as one step.\<close>

definition reply_and_consume :: "nat \<Rightarrow> u64 \<Rightarrow> tid \<Rightarrow> u64 list \<Rightarrow> 's sched \<Rightarrow> 's sched" where
  "reply_and_consume c slot caller m k = snd (delete_current_cap c slot (ipc_reply c caller m k))"

lemma delete_fewer_replies:
  assumes "caps_ok t th"
  shows "fewer_replies t th (th\<lparr>cspace := snd (cspace_delete (cspace th) slot)\<rparr>)"
  by (rule fewer_replies_put [OF assms, where s = slot and oc = None])
    (use assms in \<open>simp_all add: caps_ok_def cspace_ops_wf cap_at_delete\<close>)

lemma delete_current_cap_inv:
  assumes k: "sched_inv on k" and t: "vT (view k) (current k c) = Some th"
  shows "sched_inv on (snd (delete_current_cap c slot k))"
proof -
  let ?f = "\<lambda>x. x\<lparr>cspace := snd (cspace_delete (cspace th) slot)\<rparr>"
  have "fewer_replies (current k c) th (?f th)"
    by (rule delete_fewer_replies [OF inv_caps [OF sched_invD(3) [OF k] t]])
  then have "sched_inv on (threads_get_mut k (current k c) ?f)"
    by (intro update_inv [OF k t]) (simp_all add: same_core_def)
  then show ?thesis using t by (simp add: delete_current_cap_def split_beta)
qed

lemma reply_inv:
  assumes k: "sched_inv on k" and r: "runs on c k"
    and cap: "current_cap c slot k = Ok cp" "object cp = Reply_obj caller"
  shows "sched_inv on (reply_and_consume c slot caller m k)"
proof -
  note inv = sched_invD [OF k]
  let ?t = "current k c"
  obtain th where th: "c \<in> on" "vT (view k) ?t = Some th" "hst th = Running" using r by (rule runsE)
  have h: "holds_reply (view k) caller ?t slot"
    using cap th by (simp add: current_cap_def holds_reply_def thr_Some names_reply_def cspace_get_Ok_iff)
  note aw = inv_awaiting [OF inv(3) h]
  have ne: "caller \<noteq> ?t" using aw th by (auto simp: awaiting_alt thr_Some)
  let ?f = "\<lambda>x. x\<lparr>cspace := snd (cspace_delete (cspace th) slot)\<rparr>"
  have fr: "fewer_replies ?t th (?f th)" by (rule delete_fewer_replies [OF inv_caps [OF inv(3) th(2)]])
  have k1: "sched_inv on (threads_get_mut k ?t ?f)"
    by (rule update_inv [OF k th(2)]) (use fr in \<open>simp_all add: same_core_def\<close>)
  show ?thesis
  proof (cases "\<exists>ch n. vT (view k) caller = Some ch \<and> wait_on (handshake ch) = Some (n, AwaitReply)")
    case False
    then have "ipc_reply c caller m k = k"
      by (auto simp: ipc_reply_def split: option.splits prod.splits wait_role.splits)
    then show ?thesis using delete_current_cap_inv [OF k th(2)] by (simp add: reply_and_consume_def)
  next
    case True
    then obtain ch where ch: "vT (view k) caller = Some ch" by blast
    let ?d = "deliver_to c caller [m ! 0, m ! 1, 0, 0, 0]"
    have no: "\<not> holds_reply (view (threads_get_mut k ?t ?f)) caller u s" for u s
    proof
      assume h': "holds_reply (view (threads_get_mut k ?t ?f)) caller u s"
      have "u = ?t \<and> s = slot"
        using inv_unique [OF inv(3) h holds_reply_update [of k ?t th ?f, OF inv(1) th(2) fr h']] by simp
      then show False using h' inv(1) th by (simp add: holds_reply_def thr_Some cap_at_delete)
    qed
    moreover have "unqueued (view (threads_get_mut k ?t ?f)) caller"
      using aw unqueued_get_mut [OF inv(1)] by (simp add: awaiting_alt)
    ultimately have "wakeable (view (threads_get_mut k ?t ?f)) caller"
      using ch ne inv(1) by (simp add: wakeable_def thr_def)
    then have "sched_inv on (?d (threads_get_mut k ?t ?f))" by (rule deliver_to_inv [OF k1])
    moreover have "ipc_reply c caller m k = ?d k" using True by (auto simp: ipc_reply_def)
    ultimately show ?thesis
      using th ne inv(1)
      by (simp add: reply_and_consume_def delete_current_cap_def deliver_to_other deliver_to_commute split_beta)
  qed
qed

section \<open>Interrupts and deaths\<close>

lemma irq_notify_keeps:
  assumes k: "sched_inv on k"
  shows "keeps on (irq_notify c target ep k)"
proof (cases "endpoint_of k ep")
  case None
  then show ?thesis using k by (simp add: irq_notify_def)
next
  case (Some pe)
  then obtain phys e where e: "endpoint_of k ep = Some (phys, e)" by (cases pe) simp
  show ?thesis
  proof (cases "areceivers e")
    case Nil
    then show ?thesis using e pending_put_inv [OF k e] by (simp add: irq_notify_def asignal_def)
  next
    case (Cons t rs)
    define k1 where "k1 = put_endpoint k phys (e\<lparr>areceivers := rs\<rparr>)"
    note d = dequeue_receiver [OF k e Cons, folded k1_def]
    note inv = sched_invD [OF d(1)]
    obtain th where t: "vT (view k1) t = Some th" using d(2) by (auto simp: wakeable_def thr_iff)
    let ?f = "\<lambda>th. th\<lparr>mailbox := [1, 0, 0, 0, 0], handshake := serve (handshake th)\<rparr>"
    have fr: "fewer_replies t th (?f th)" by (rule fewer_repliesI [OF inv(3) t]) simp_all
    have "sched_inv on (threads_get_mut k1 t ?f)"
      by (rule update_inv [OF d(1) t]) (use fr in \<open>simp_all add: same_core_def serve_def\<close>)
    moreover have "wakeable (view (threads_get_mut k1 t ?f)) t"
      by (rule wakeable_update [OF inv(1) d(2) t]) (use fr in \<open>simp_all add: serve_def\<close>)
    ultimately have "sched_inv on (snd (wake_load_aware c target t (threads_get_mut k1 t ?f)))"
      by (rule wake_load_aware_inv)
    then show ?thesis
      using e Cons t by (simp add: irq_notify_def asignal_def k1_def [symmetric] unwrap_def keeps_pair)
  qed
qed

lemma depart_inv:
  assumes k: "sched_inv on k" and r: "runs on c k"
  shows "\<exists>k'. depart c event pc addr k = Ok k' \<and> sched_inv on k'"
proof -
  note inv = sched_invD [OF k]
  let ?t = "current k c"
  obtain th where th: "c \<in> on" "vT (view k) ?t = Some th" "hst th = Running"
    "\<forall>d \<in> on. idle k d \<noteq> Some ?t" using r by (rule runsE)
  show ?thesis
  proof (cases "fault_ep th")
    case None
    have "sched_inv on (threads_get_mut k ?t (\<lambda>th. th\<lparr>handshake := (handshake th)\<lparr>state := Finished\<rparr>\<rparr>))"
      by (rule stop_inv [OF k r th(2)]) simp_all
    then show ?thesis using None th by (simp add: depart_def)
  next
    case fe: (Some ep)
    let ?msg = "[event, ?t, pc, addr, 0]"
    let ?f = "\<lambda>th. th\<lparr>fault_msg := Some ?msg, mailbox := ?msg, handshake := (handshake th)\<lparr>state := Dead\<rparr>\<rparr>"
    define k0 where "k0 = threads_get_mut k ?t ?f"
    have k0: "sched_inv on k0" unfolding k0_def by (rule stop_inv [OF k r th(2)]) simp_all
    have eq: "depart c event pc addr k = deliver_death c ?t ep ?msg k0" using fe th by (simp add: depart_def k0_def Let_def)
    have t0: "vT (view k0) ?t = Some (?f th)" using inv(1) th by (simp add: k0_def)
    show ?thesis
    proof (cases "endpoint_of k ep")
      case None
      then show ?thesis using eq k0 t0 by (simp add: deliver_death_def tcb_ptr_def unwrap_def) (simp add: k0_def)
    next
      case (Some pe)
      then obtain phys e where e: "endpoint_of k ep = Some (phys, e)" by (cases pe) simp
      then have e0: "endpoint_of k0 ep = Some (phys, e)" by (simp add: k0_def)
      note start = eq deliver_death_def tcb_ptr_def unwrap_def asend_def e0
      show ?thesis
      proof (cases "areceivers e")
        case (Cons u rs)
        note d = dequeue_receiver [OF k0 e0 Cons]
        then show ?thesis
          using Cons t0 deliver_to_inv [OF d(1,2), of c ?msg]
          by (auto simp: start view_put_endpoint [OF sched_invD(1) [OF k0] e0])
      next
        case Nil
        let ?e = "e\<lparr>asenders := asenders e @ [?t]\<rparr>"
        let ?g = "\<lambda>th. th\<lparr>handshake := (handshake th)\<lparr>wait_on := Some (ep, Sender)\<rparr>\<rparr>"
        have oc: "on_cpu (handshake th)" "\<not> wake_pending (handshake th)"
          using inv_current [OF inv(3) th(1)] inv_standing [OF inv(3) th(2)] th by (auto simp: standing_ok_def)
        have caps: "fewer_replies ?t th (?g (?f th))" by (rule fewer_repliesI [OF inv(3) th(2)]) simp_all
        have "view_inv on ((view k)\<lparr>vT := (vT (view k))(?t := Some (?g (?f th))),
            vS := (vS (view k))(ep := asenders e @ [?t]), vR := (vR (view k))(ep := areceivers e)\<rparr>)"
          by (rule inv_stop [OF inv(3) th(1) _ th(2,3) _ _ _ _ caps, where n = ep])
            (use th oc fe endpoint_of_view [OF e] in \<open>simp_all add: parked_sender_def Let_def fun_upd_idem\<close>)
        moreover have "view k0 = (view k)\<lparr>vT := (vT (view k))(?t := Some (?f th))\<rparr>"
          using inv(1) th by (simp add: k0_def)
        ultimately have "sched_inv on (threads_get_mut (put_endpoint k0 phys ?e) ?t ?g)"
          using sched_invD [OF k0]
          by (intro sched_invI) (simp_all add: view_put_endpoint [OF sched_invD(1) [OF k0] e0] view_reorder)
        then show ?thesis using Nil t0 by (simp add: start)
      qed
    qed
  qed
qed

section \<open>The switch\<close>

lemma switch_to_keeps:
  assumes k: "sched_inv on k" and c: "c \<in> on" "switched_from k c = None" "t = current k c"
    and t: "vT (view k) t = Some th" and u: "vT (view k) u = Some uh" and ne: "u \<noteq> t"
    and src: "hst uh = Ready \<and> runq k c = u # q \<or> idle_state uh \<and> idle k c = Some u \<and> runq k c = q"
  shows "keeps on (switch_to c t (hst th = Running) u (k\<lparr>runq := (runq k)(c := q)\<rparr>))"
proof -
  note inv = sched_invD [OF k]
  let ?k2 = "k\<lparr>runq := (runq k)(c := q)\<rparr>"
  have v2: "view ?k2 = (view k)\<lparr>vQ := (runq k)(c := q)\<rparr>" "tables_ok ?k2"
    using inv(1) view_same [of ?k2 k] by (simp_all add: tables_ok_def)
  have off: "\<not> on_cpu (handshake uh)" "\<not> wake_pending (handshake uh)"
    using fetch_off_cpu [OF inv(3) c(1) _ u] inv_standing [OF inv(3) u] ne c src
    by (auto simp: standing_ok_def)
  let ?uh = "uh\<lparr>handshake := (handshake uh)\<lparr>state := Running, on_cpu := True\<rparr>\<rparr>"
  define pre where "pre \<longleftrightarrow> hst th = Running \<and> idle k c \<noteq> Some t"
  let ?th = "if pre then th\<lparr>handshake := (handshake th)\<lparr>state := Ready\<rparr>\<rparr> else th"
  let ?q = "if pre then q @ [t] else q"
  have oc: "on_cpu (handshake th)" "wake_pending (handshake th) \<Longrightarrow> hst th = Blocked"
    using inv_current [OF inv(3) c(1)] inv_standing [OF inv(3) t] c t by (auto simp: standing_ok_def)
  have one: "d = c" if d: "d \<in> on" "idle k d = Some u" for d
  proof -
    have "u \<notin> placed (view k) c" using inv_idle_unplaced [OF inv(3), of d u] d by simp
    then have "idle k c = Some u" using src by (auto simp: placed_def)
    then show ?thesis using inv(2) c(1) d unfolding idles_ok_def by (metis (full_types))
  qed
  have fin: "view_inv on (switched c ?q t ?th u ?uh (view k))"
  proof (rule inv_switch [OF inv(3) c(1) _ _ t u ne, where q = q])
    show "?th = th \<and> ?q = q \<and> (hst th = Running \<longrightarrow> vidle (view k) c = Some t) \<or>
      hst th = Running \<and> vidle (view k) c \<noteq> Some t \<and> hst ?th = Ready \<and> on_cpu (handshake ?th) \<and>
        \<not> wake_pending (handshake ?th) \<and> ?q = q @ [t]"
      using oc by (cases pre) (auto simp: pre_def)
  qed (use c src one off in simp_all)
  define k3 where "k3 = (if pre then push_runq c t (threads_get_mut ?k2 t
      (\<lambda>x. x\<lparr>handshake := (handshake th)\<lparr>state := Ready\<rparr>\<rparr>)) else ?k2)"
  have v3: "view k3 = (view k)\<lparr>vQ := (runq k)(c := ?q), vT := (vT (view k))(t := Some ?th)\<rparr>"
    "tables_ok k3" "idles_ok on k3" "current k3 = current k" "switched_from k3 = switched_from k"
    "runq k3 = (runq k)(c := ?q)" "inbox k3 = inbox k" "idle k3 = idle k"
  proof -
    have "(vT (view k))(t := Some th) = vT (view k)" using t by auto
    then show "view k3 = (view k)\<lparr>vQ := (runq k)(c := ?q), vT := (vT (view k))(t := Some ?th)\<rparr>"
      using v2 t by (cases pre; intro view.equality) (simp_all add: k3_def)
    show "tables_ok k3" using v2 by (simp add: k3_def)
    show "idles_ok on k3" "current k3 = current k" "switched_from k3 = switched_from k"
      "runq k3 = (runq k)(c := ?q)" "inbox k3 = inbox k" "idle k3 = idle k"
      using inv(2) by (simp_all add: k3_def idles_ok_def push_runq_def)
  qed
  define k' where "k' = (threads_get_mut k3 u (\<lambda>x. x\<lparr>handshake := (handshake uh)\<lparr>state := Running, on_cpu := True\<rparr>\<rparr>))
      \<lparr>current := (current k3)(c := u), switched_from := (switched_from k3)(c := Some t)\<rparr>"
  have u3: "vT (view k3) u = Some uh" using u ne v3 by simp
  have "switch_to c t (hst th = Running) u ?k2 = and_then (Ok k3) (\<lambda>k1. unwrap (threads_get k1 u) ''unwrap'' (\<lambda>t'.
      and_then (switch_in (handshake t')) (\<lambda>h. Ok (True, (threads_get_mut k1 u (\<lambda>th. th\<lparr>handshake := h\<rparr>))
        \<lparr>current := (current k1)(c := u), switched_from := (switched_from k1)(c := Some t)\<rparr>))))"
    using ne t v2 by (auto simp: switch_to_def k3_def pre_def unwrap_def preempt_def rust_assert_def)
  also have "\<dots> = Ok (True, k')"
    using u3 off src by (auto simp: unwrap_def switch_in_def rust_assert_def k'_def)
  finally have sw: "switch_to c t (hst th = Running) u ?k2 = Ok (True, k')" .
  have "view k' = switched c ?q t ?th u ?uh (view k)"
    using view_same [of k' "threads_get_mut k3 u (\<lambda>x. x\<lparr>handshake := (handshake uh)\<lparr>state := Running, on_cpu := True\<rparr>\<rparr>)"] v3 u ne
    by (intro view.equality) (simp_all add: k'_def switched_def)
  moreover have "tables_ok k'" "idles_ok on k'"
    using v3 tables_threads_get_mut [OF v3(2)] by (simp_all add: k'_def tables_ok_def idles_ok_def)
  ultimately show ?thesis using sw fin by (simp add: sched_inv_def)
qed

lemma schedule_keeps:
  assumes k: "sched_inv on k" and c: "c \<in> on" "switched_from k c = None"
  shows "keeps on (schedule c k)"
proof -
  let ?t = "current k c"
  obtain th where th: "vT (view k) ?t = Some th" using inv_current [OF sched_invD(3) [OF k] c(1)] by auto
  define k1 where "k1 = (if killed th \<and> hst th = Running
    then threads_get_mut k ?t (\<lambda>th. th\<lparr>handshake := (handshake th)\<lparr>state := Finished\<rparr>\<rparr>) else k)"
  have k1: "sched_inv on k1"
  proof (cases "killed th \<and> hst th = Running")
    case True
    have "idle k d \<noteq> Some ?t" if "d \<in> on" for d
      using inv_idle [OF sched_invD(3) [OF k] that, of ?t] th True by auto
    then have "runs on c k" using th c True by (simp add: runs_def)
    then have "sched_inv on (threads_get_mut k ?t (\<lambda>th. th\<lparr>handshake := (handshake th)\<lparr>state := Finished\<rparr>\<rparr>))"
      by (rule stop_inv [OF k _ th]) simp_all
    then show ?thesis using True by (simp add: k1_def)
  next
    case False
    then have "k1 = k" by (auto simp: k1_def)
    then show ?thesis using k by simp
  qed
  note inv = sched_invD [OF k1]
  have f1: "current k1 = current k" "switched_from k1 = switched_from k" by (simp_all add: k1_def)
  obtain t1 where t1: "vT (view k1) ?t = Some t1" "hst t1 \<noteq> Ready"
    using inv_current [OF inv(3) c(1)] f1 by auto
  note start = schedule_def k1_def [symmetric] th Let_def
  have eq: "(case Some th of None \<Rightarrow> k | Some t \<Rightarrow> if killed t \<and> hst t = Running
      then threads_get_mut k ?t (\<lambda>th. th\<lparr>handshake := (handshake th)\<lparr>state := Finished\<rparr>\<rparr>) else k) = k1"
    by (simp add: k1_def)
  show ?thesis
  proof (cases "runq k1 c")
    case (Cons u q)
    obtain uh where u: "vT (view k1) u = Some uh" "hst uh = Ready"
      using inv_placed [OF inv(3), of u c] Cons by (auto simp: placed_def)
    have "u \<noteq> ?t" using u t1 by auto
    then have "keeps on (switch_to c ?t (hst t1 = Running) u (k1\<lparr>runq := (runq k1)(c := q)\<rparr>))"
      by (intro switch_to_keeps [OF k1 c(1) _ _ t1(1) u(1)]) (use c f1 u Cons in simp_all)
    then show ?thesis using th t1 Cons eq by (simp add: schedule_def Let_def)
  next
    case Nil
    obtain i where i: "idle k1 c = Some i" using inv(2) c(1) by (auto simp: idles_ok_def)
    then obtain ih where ih: "vT (view k1) i = Some ih" "idle_state ih" using inv_idle [OF inv(3) c(1)] by auto
    show ?thesis
    proof (cases "hst t1 = Running")
      case True
      then show ?thesis using th t1 Nil eq k1 by (simp add: schedule_def Let_def)
    next
      case False
      then have ne: "i \<noteq> ?t" using ih t1 by auto
      have "k1 = k1\<lparr>runq := (runq k1)(c := [])\<rparr>" using Nil by (simp add: fun_upd_idem)
      then have "keeps on (switch_to c ?t (hst t1 = Running) i k1)"
        using switch_to_keeps [OF k1 c(1) _ _ t1(1) ih(1) ne, of "[]"] c f1 ih i Nil by simp
      then show ?thesis using th t1 Nil eq i False ne by (simp add: schedule_def Let_def)
    qed
  qed
qed

lemma view_threads_remove:
  assumes "tables_ok k"
  shows "view (threads_remove k t) = (view k)\<lparr>vT := (vT (view k))(t := None)\<rparr>" "tables_ok (threads_remove k t)"
    "idles_ok on (threads_remove k t) = idles_ok on k"
proof -
  have wf: "table_wf (threads k)" using assms by (simp add: tables_ok_def)
  have g: "table_get (snd (table_remove (threads k) t)) = (table_get (threads k))(t := None)"
    "table_wf (snd (table_remove (threads k) t))"
    using table_get_remove(2) [OF wf prod.collapse [symmetric]] table_remove_wf [OF wf prod.collapse [symmetric]]
    by (auto simp: fun_eq_iff)
  show "view (threads_remove k t) = (view k)\<lparr>vT := (vT (view k))(t := None)\<rparr>"
  proof (cases "threads_get k t")
    case None
    then have "(vT (view k))(t := None) = vT (view k)" by auto
    then show ?thesis using None by (simp add: threads_remove_def)
  next
    case (Some th)
    then show ?thesis
      by (subst view_parts [where k = k]) (simp_all add: threads_remove_def Let_def g view_def threads_get_def [abs_def])
  qed
  show "tables_ok (threads_remove k t)"
    using assms g(2) by (simp add: threads_remove_def tables_ok_def Let_def split: option.split)
  show "idles_ok on (threads_remove k t) = idles_ok on k"
    by (simp add: threads_remove_def idles_ok_def Let_def split: option.split)
qed

lemma finish_switch_inv:
  assumes k: "sched_inv on k" and c: "c \<in> on"
  shows "sched_inv on (sched_finish_switch c k)"
proof (cases "switched_from k c")
  case None
  then show ?thesis using k by (simp add: sched_finish_switch_def)
next
  case (Some t)
  note inv = sched_invD [OF k]
  obtain th where t: "vT (view k) t = Some th"
    using inv_switched [OF inv(3) c] Some by auto
  let ?k0 = "k\<lparr>switched_from := (switched_from k)(c := None)\<rparr>"
  have v0: "view ?k0 = (view k)\<lparr>vsw := (switched_from k)(c := None)\<rparr>" "tables_ok ?k0" "idles_ok on ?k0"
    using inv view_same [of ?k0 k] by (simp_all add: tables_ok_def idles_ok_def)
  let ?h = "(handshake th)\<lparr>on_cpu := False, wake_pending := False\<rparr>"
  let ?off = "threads_get_mut ?k0 t (\<lambda>x. x\<lparr>handshake := ?h\<rparr>)"
  have "view_inv on ((view k)\<lparr>vT := (vT (view k))(t := Some (th\<lparr>handshake := ?h\<rparr>)), vsw := (vsw (view k))(c := None)\<rparr>)"
    by (rule inv_leave [OF inv(3) c _ t]) (use Some in simp_all)
  moreover have "view ?off = (view k)\<lparr>vT := (vT (view k))(t := Some (th\<lparr>handshake := ?h\<rparr>)), vsw := (vsw (view k))(c := None)\<rparr>"
    using v0 t by (intro view.equality) simp_all
  ultimately have off: "sched_inv on ?off" using v0 by (intro sched_invI) simp_all
  have to: "vT (view ?off) t = Some (th\<lparr>handshake := ?h\<rparr>)" using v0 t by simp
  note start = sched_finish_switch_def Some v0 t finish_switch_def
  consider "hst th = Finished" | "hst th \<noteq> Finished" "wake_pending (handshake th)"
    | "hst th \<noteq> Finished" "\<not> wake_pending (handshake th)" by blast
  then show ?thesis
  proof cases
    case 1
    have "view_inv on ((view ?off)\<lparr>vT := (vT (view ?off))(t := None)\<rparr>)"
    proof (rule inv_remove [OF sched_invD(3) [OF off]])
      show "unqueued (view ?off) t"
        by (rule not_parked_unqueued [OF sched_invD(3) [OF off] to]) (use 1 in simp_all)
      show "t \<notin> placed (view ?off) d" for d
        using inv_placed [OF sched_invD(3) [OF off], of t d] to 1 by auto
      show "vcur (view ?off) d \<noteq> t \<and> vsw (view ?off) d \<noteq> Some t \<and> vidle (view ?off) d \<noteq> Some t" if "d \<in> on" for d
      proof (intro conjI)
        show "vcur (view ?off) d \<noteq> t" using inv_current [OF sched_invD(3) [OF off] that] to by auto
        show "vsw (view ?off) d \<noteq> Some t"
          using inv_cores(2) [OF sched_invD(3) [OF off] that, of t] to by (auto simp: thr_Some)
        show "vidle (view ?off) d \<noteq> Some t"
          using inv_idle [OF sched_invD(3) [OF off] that, of t] to 1 by auto
      qed
    qed
    then have "sched_inv on (threads_remove ?k0 t)"
      using v0 by (intro sched_invI) (simp_all add: view_threads_remove)
    then show ?thesis using 1 by (simp add: start)
  next
    case 2
    then have b: "hst th = Blocked" using inv_standing [OF inv(3) t] by (simp add: standing_ok_def)
    let ?h' = "(handshake th)\<lparr>on_cpu := False, wake_pending := False, state := Ready, wait_on := None\<rparr>"
    have u: "unqueued (view k) t"
      using inv_sender [OF inv(3), of t] inv_receiver [OF inv(3), of t] t 2
      by (auto simp: unqueued_def parked_sender_def parked_receiver_def Let_def)
    have nr: "\<not> holds_reply (view k) t u s" for u s
      using inv_awaiting [OF inv(3), of t u s] t 2 by (auto simp: awaiting_alt thr_Some)
    have "sched_inv on (place_on c c t (threads_get_mut ?off t (\<lambda>x. x\<lparr>handshake := ?h'\<rparr>)))"
    proof (rule place_inv [OF off to])
      show "unqueued (view ?off) t" using u v0 by (simp add: unqueued_get_mut) (simp add: unqueued_def)
      show "\<not> holds_reply (view ?off) t u s" for u s
        using nr [of u s] v0 t by (auto simp: holds_reply_def thr_def split: if_splits)
    qed (use b fewer_repliesI [OF sched_invD(3) [OF off] to] in simp_all)
    then show ?thesis using 2 v0(2) by (simp add: start Let_def get_mut_comp place_on_def)
  next
    case 3
    then have h: "(handshake th)\<lparr>on_cpu := False\<rparr> = ?h" by (cases "handshake th") simp
    show ?thesis using 3 off by (simp add: start Let_def h [symmetric])
  qed
qed

section \<open>Capability tables\<close>

lemma snd_insert_or_no_cap: "snd (insert_or_no_cap cs cap) = snd (cspace_insert cs cap)"
  by (simp add: insert_or_no_cap_def split: prod.splits sum.splits)

lemma insert_at_fewer_replies:
  assumes ok: "caps_ok t th" and cap: "\<not> is_reply (Some cap)"
  shows "fewer_replies t th (th\<lparr>cspace := snd (cspace_insert_at (cspace th) slot cap)\<rparr>)"
proof (cases "slice_get (cs_slots (cspace th)) (unat slot) = Some None")
  case True
  then have lt: "unat slot < length (cs_slots (cspace th))" by (simp add: slice_get_def split: if_splits)
  have "snd (cspace_insert_at (cspace th) slot cap) =
      (cspace th)\<lparr>cs_slots := (cs_slots (cspace th))[unat slot := Some cap]\<rparr>"
    unfolding cspace_insert_at_def True by simp
  then show ?thesis
    using ok cap cap_at_update [OF lt] by (intro fewer_replies_put [OF ok, where s = slot and oc = "Some cap"])
      (simp_all add: caps_ok_def cspace_wf_def is_reply_iff)
next
  case False
  then have "snd (cspace_insert_at (cspace th) slot cap) = cspace th"
    by (auto simp: cspace_insert_at_def split: option.splits)
  then show ?thesis using ok by (simp add: fewer_replies_def)
qed

lemma cspace_update_inv:
  assumes k: "sched_inv on k" and t: "vT (view k) t = Some th"
    and "fewer_replies t th (th\<lparr>cspace := cs\<rparr>)"
  shows "sched_inv on (threads_get_mut k t (\<lambda>x. x\<lparr>cspace := cs\<rparr>))"
  by (rule update_inv [OF k t]) (use assms in \<open>simp_all add: same_core_def\<close>)

lemma grant_inv:
  assumes k: "sched_inv on k" and cap: "\<not> is_reply (Some cap)"
  shows "sched_inv on (snd (grant c cap k))" "sched_inv on (snd (grant_at c slot cap k))"
proof -
  note inv = sched_invD [OF k]
  show "sched_inv on (snd (grant c cap k))"
    using k cspace_update_inv [OF k] insert_fewer_replies [OF inv(3) _ cap]
    by (auto simp: grant_def snd_insert_or_no_cap split_beta split: option.split)
  show "sched_inv on (snd (grant_at c slot cap k))"
    using k cspace_update_inv [OF k] insert_at_fewer_replies [OF inv_caps [OF inv(3)] cap]
    by (auto simp: grant_at_def split_beta split: option.split)
qed

text \<open>A change of every thread at once that touches only capability tables and kill marks.\<close>

lemma inv_map:
  assumes inv: "view_inv on v"
    and f: "\<And>th. handshake (f th) = handshake th" "\<And>th. fault_ep (f th) = fault_ep th"
    and caps: "\<And>t th. vT v t = Some th \<Longrightarrow> fewer_replies t th (f th)"
    and kill: "\<And>c t th. c \<in> on \<Longrightarrow> vidle v c = Some t \<Longrightarrow> vT v t = Some th \<Longrightarrow> \<not> killed th \<Longrightarrow> \<not> killed (f th)"
  shows "view_inv on (v\<lparr>vT := \<lambda>t. map_option f (vT v t)\<rparr>)"
proof -
  let ?v = "v\<lparr>vT := \<lambda>t. map_option f (vT v t)\<rparr>"
  have eq: "thr ?v x P = thr v x (\<lambda>th. P (f th))" "thr_if ?v x P = thr_if v x (\<lambda>th. P (f th))" for x P
    by (simp_all add: thr_def thr_if_def option.case_eq_if option.map_sel)
  have sk: "standing_ok on ?v x (f th) = standing_ok on v x th" for x th by (simp add: standing_ok_def f)
  have ps: "parked_sender n (f th) = parked_sender n th" for n th by (simp add: parked_sender_def f)
  have "queues_ok ?v" "runqs_ok on ?v"
    using inv by (simp_all add: view_inv_def queues_ok_def runqs_ok_def placed_def eq f ps)
  moreover have "cores_ok on ?v"
  proof (rule cores_okI)
    show "thr_if ?v x (standing_ok on ?v x)" for x
      using inv_standing [OF inv, of x] by (simp add: eq sk) (simp add: thr_if_def split: option.split)
    show "thr ?v i (\<lambda>th. idle_state th \<and> \<not> killed th \<and>
         (on_cpu (handshake th) \<longrightarrow> vcur ?v c = i \<or> vsw ?v c = Some i))" if "c \<in> on" "vidle ?v c = Some i" for c i
      using inv_idle [OF inv that(1), of i] that kill [of c i] by (auto simp: eq thr_iff f)
  qed (use inv_cores [OF inv] inv_distinct(4) [OF inv] in \<open>simp_all add: eq f\<close>)
  moreover have "replies_ok ?v"
  proof -
    have h: "holds_reply v x u s" if "holds_reply ?v x u s" for x u s
      using that caps by (auto simp: holds_reply_def eq thr_iff fewer_replies_def)
    have "awaiting ?v x = awaiting v x" for x by (simp add: awaiting_def eq f)
    then have "awaiting ?v x" if "holds_reply ?v x u s" for x u s using inv_awaiting [OF inv h [OF that]] by simp
    moreover have "u = u' \<and> s = s'" if "holds_reply ?v x u s" "holds_reply ?v x u' s'" for x u s u' s'
      using inv_unique [OF inv h [OF that(1)] h [OF that(2)]] by simp
    moreover have "thr_if ?v u (caps_ok u)" for u
      using caps [of u] by (simp add: eq) (simp add: thr_if_def fewer_replies_def split: option.split)
    ultimately show ?thesis unfolding replies_ok_def by blast
  qed
  ultimately show ?thesis by (simp add: view_inv_def)
qed

lemma iter_mut_inv:
  assumes k: "sched_inv on k"
    and f: "\<And>th. handshake (f th) = handshake th" "\<And>th. fault_ep (f th) = fault_ep th"
    and caps: "\<And>t th. vT (view k) t = Some th \<Longrightarrow> fewer_replies t th (f th)"
    and kill: "\<And>c t th. c \<in> on \<Longrightarrow> idle k c = Some t \<Longrightarrow> vT (view k) t = Some th \<Longrightarrow> \<not> killed th \<Longrightarrow> \<not> killed (f th)"
  shows "sched_inv on (k\<lparr>threads := table_iter_mut (threads k) f\<rparr>)"
proof (rule sched_invI)
  let ?k = "k\<lparr>threads := table_iter_mut (threads k) f\<rparr>"
  note inv = sched_invD [OF k]
  have wf: "table_wf (threads k)" using inv(1) by (simp add: tables_ok_def)
  have "view ?k = (view k)\<lparr>vT := \<lambda>t. map_option f (vT (view k) t)\<rparr>"
    by (subst view_parts [where k = k]) (simp_all add: view_def threads_get_def [abs_def] table_get_iter_mut [OF wf] fun_eq_iff)
  then show "view_inv on (view ?k)" using inv_map [OF inv(3) f caps] kill by simp
  show "tables_ok ?k" "idles_ok on ?k"
    using inv by (simp_all add: tables_ok_def idles_ok_def table_get_iter_mut(1))
qed

lemma delete_object_caps:
  "cspace_wf n cs \<Longrightarrow> cspace_wf n (delete_object target cs)"
  "cap_at (delete_object target cs) s = cap_at cs s \<or> cap_at (delete_object target cs) s = None"
proof -
  let ?step = "\<lambda>cs slot. case cspace_get cs slot of
         Ok c \<Rightarrow> if object c = target then snd (cspace_delete cs slot) else cs
       | Err _ \<Rightarrow> cs"
  have one: "cspace_wf n cs \<Longrightarrow> cspace_wf n (?step cs slot)"
    "cap_at (?step cs slot) s = cap_at cs s \<or> cap_at (?step cs slot) s = None" for cs slot
    by (auto simp: cspace_ops_wf cap_at_delete split: sum.split)
  have "cspace_wf n cs \<longrightarrow> cspace_wf n (foldl ?step cs xs)"
    "cap_at (foldl ?step cs xs) s = cap_at cs s \<or> cap_at (foldl ?step cs xs) s = None" for xs
  proof (induction xs arbitrary: cs)
    case (Cons x xs)
    { case 1 then show ?case using Cons(1) one(1) by (simp del: foldl_Cons add: foldl_Cons) }
    { case 2 then show ?case using Cons(2) [of "?step cs x"] one(2) [of cs x] by auto }
  qed simp_all
  then show "cspace_wf n cs \<Longrightarrow> cspace_wf n (delete_object target cs)"
    "cap_at (delete_object target cs) s = cap_at cs s \<or> cap_at (delete_object target cs) s = None"
    by (simp_all add: delete_object_def)
qed

lemma fewer_replies_sub:
  assumes "caps_ok t th" "cspace_wf CSPACE_SLOTS (cspace th')" "outgoing_cap th' = outgoing_cap th"
    and "\<And>s. cap_at (cspace th') s = cap_at (cspace th) s \<or> cap_at (cspace th') s = None"
  shows "fewer_replies t th th'"
  using assms unfolding fewer_replies_def caps_ok_def by (metis names_reply_simps(2))

lemma delete_frame_caps_inv:
  assumes k: "sched_inv on k"
  shows "sched_inv on (delete_frame_caps phys k)"
  unfolding delete_frame_caps_def
proof (rule iter_mut_inv [OF k])
  fix t th assume "vT (view k) t = Some th"
  then have ok: "caps_ok t th" by (rule inv_caps [OF sched_invD(3) [OF k]])
  show "fewer_replies t th (th\<lparr>cspace := delete_object (Frame_obj phys) (cspace th)\<rparr>)"
    by (rule fewer_replies_sub [OF ok])
      (use ok delete_object_caps in \<open>simp_all add: caps_ok_def\<close>)
qed simp_all

section \<open>Threads and endpoints under construction\<close>

text \<open>Naming a new thread, from whichever page: the table gains one name that was dead.\<close>

lemma insert_thread:
  assumes ok: "tables_ok k" and ins: "threads_insert_from_page k page f = (Some t, k')"
  shows "vT (view k) t = None" "view k' = (view k)\<lparr>vT := (vT (view k))(t := Some ((f t)\<lparr>tcb_page := page\<rparr>))\<rparr>"
    "tables_ok k'" "idles_ok on k' = idles_ok on k"
proof -
  have wf: "table_wf (threads k)" using ok by (simp add: tables_ok_def)
  obtain th where th: "table_insert_with (threads k) (\<lambda>t. (f t)\<lparr>tcb_page := page\<rparr>) = (Some t, th)"
    and k': "k' = k\<lparr>threads := th\<rparr>"
    using ins by (auto simp: threads_insert_from_page_def split: prod.splits)
  note g = table_get_insert_with [OF wf th]
  show "tables_ok k'" "idles_ok on k' = idles_ok on k"
    using ok table_insert_with_wf [OF wf th] table_length(2) [of "threads k" "\<lambda>t. (f t)\<lparr>tcb_page := page\<rparr>"] th
    by (simp_all add: tables_ok_def idles_ok_def k')
  have T: "vT (view k) = table_get (threads k)" by (simp add: view_def threads_get_def [abs_def])
  show "vT (view k) t = None" using g(1) T by simp
  have "table_get th = (vT (view k))(t := Some ((f t)\<lparr>tcb_page := page\<rparr>))" using g(2) T by (simp add: fun_eq_iff)
  then show "view k' = (view k)\<lparr>vT := (vT (view k))(t := Some ((f t)\<lparr>tcb_page := page\<rparr>))\<rparr>"
    using view_parts [of k' k] by (simp add: view_def k')
qed

lemma insert_full: "threads_insert_from_page k page f = (None, k') \<Longrightarrow> k' = k"
  by (auto simp: threads_insert_from_page_def table_insert_with_def Let_def split: prod.splits option.splits)

definition unclaimed :: "'s sched \<Rightarrow> tid option \<Rightarrow> bool" where
  "unclaimed k name \<longleftrightarrow> (\<forall>t u s. name = Some t \<longrightarrow> \<not> holds_reply (view k) t u s)"

lemma create_tcb_inv:
  assumes k: "sched_inv on k" and fresh: "unclaimed k (fst (create_tcb_at region page k))"
  shows "sched_inv on (snd (create_tcb_at region page k))"
proof -
  note inv = sched_invD [OF k]
  let ?f = "\<lambda>_ :: tid. thread_embryo\<lparr>tcb_region := Some region\<rparr> :: 's thread"
  obtain r k' where ins: "threads_insert_from_page k page ?f = (r, k')" by fastforce
  show ?thesis
  proof (cases r)
    case None
    then show ?thesis using ins insert_full k by (force simp: create_tcb_at_def)
  next
    case (Some t)
    note n = insert_thread [OF inv(1) ins [unfolded Some]]
    have "view_inv on (view k')" unfolding n(2)
    proof (rule inv_new [OF inv(3) n(1)])
      show "\<not> holds_reply (view k) t u s" for u s
        using fresh ins Some by (simp add: unclaimed_def create_tcb_at_def)
    qed (simp_all add: thread_embryo_def embryo_def caps_ok_def cspace_wf_new CSPACE_SLOTS_def)
    then show ?thesis using n ins inv by (intro sched_invI) (simp_all add: create_tcb_at_def)
  qed
qed

lemma embryo_off_cpu:
  assumes "view_inv on v" "vT v t = Some th" "hst th = Embryo"
  shows "\<not> on_cpu (handshake th)" "\<not> wake_pending (handshake th)" "unqueued v t" "\<not> holds_reply v t u s"
proof -
  have "vcur v c \<noteq> t" "vsw v c \<noteq> Some t" if "c \<in> on" for c
    using inv_cores(1,2) [OF assms(1) that] assms(2,3) by (auto simp: thr_Some)
  then show "\<not> on_cpu (handshake th)" "\<not> wake_pending (handshake th)"
    using inv_standing [OF assms(1,2)] assms(3) by (auto simp: standing_ok_def)
  show "unqueued v t" "\<not> holds_reply v t u s"
    using not_parked_unqueued [OF assms(1,2)] not_awaiting_no_reply [OF assms(1,2)] assms(3) by simp_all
qed

lemma tcb_insert_cap_inv:
  assumes k: "sched_inv on k" and cap: "\<not> is_reply (Some cap)"
  shows "sched_inv on (snd (tcb_insert_cap t cap target k))"
  using k cspace_update_inv [OF k] insert_at_fewer_replies [OF inv_caps [OF sched_invD(3) [OF k]] cap]
    insert_fewer_replies [OF sched_invD(3) [OF k] _ cap]
  by (auto simp: tcb_insert_cap_def snd_insert_or_no_cap split_beta split: option.split)

lemma configure_tcb_inv:
  assumes k: "sched_inv on k"
  shows "sched_inv on (snd (configure_tcb t ent sp s k))"
  using k update_inv [OF k] fewer_repliesI [OF sched_invD(3) [OF k]]
  by (auto simp: configure_tcb_def same_core_def split: option.split)

lemma fewer_replies_same:
  "fewer_replies t th th2 \<Longrightarrow> cspace th3 = cspace th2 \<Longrightarrow> outgoing_cap th3 = outgoing_cap th2 \<Longrightarrow> fewer_replies t th th3"
  unfolding fewer_replies_def caps_ok_def by metis

lemma start_tcb_inv:
  assumes k: "sched_inv on k"
  shows "sched_inv on (snd (start_tcb c armed target t args k))"
proof (cases "vT (view k) t")
  case None
  then show ?thesis using k by (simp add: start_tcb_def)
next
  case (Some th)
  note inv = sched_invD [OF k]
  define th2 where "th2 = (case cspace_get (cspace th) FAULT_EP_SLOT of
      Ok cp \<Rightarrow> (case object cp of
          Endpoint_obj ep \<Rightarrow> th\<lparr>fault_ep := Some ep, cspace := snd (cspace_delete (cspace th) FAULT_EP_SLOT)\<rparr>
        | _ \<Rightarrow> th)
    | Err _ \<Rightarrow> th)\<lparr>start_args := args\<rparr>"
  have same: "handshake th2 = handshake th" "killed th2 = killed th"
    by (simp_all add: th2_def split: sum.split kobject.split)
  have ok: "caps_ok t th" by (rule inv_caps [OF inv(3) Some])
  have fr: "fewer_replies t th th2"
  proof (rule fewer_replies_sub [OF ok])
    show "cspace_wf CSPACE_SLOTS (cspace th2)"
      using ok by (simp add: th2_def caps_ok_def cspace_ops_wf split: sum.split kobject.split)
    show "cap_at (cspace th2) s = cap_at (cspace th) s \<or> cap_at (cspace th2) s = None" for s
      by (simp add: th2_def cap_at_delete split: sum.split kobject.split)
  qed (simp add: th2_def split: sum.split kobject.split)
  show ?thesis
  proof (cases "hst th = Embryo \<and> space th \<noteq> None \<and> fst (entry th) \<noteq> 0")
    case False
    then show ?thesis using Some k by (auto simp: start_tcb_def)
  next
    case True
    then have e: "hst th = Embryo" by simp
    have eq: "start_tcb c armed target t args k =
        (if \<not> armed then (Err OutOfMemory, threads_get_mut k t (\<lambda>_. th2))
         else (Ok (), place_on c target t (threads_get_mut k t (\<lambda>_. th2\<lparr>handshake := (handshake th2)\<lparr>state := Ready\<rparr>\<rparr>))))"
      using Some True by (simp add: start_tcb_def th2_def Let_def)
    note off = embryo_off_cpu [OF inv(3) Some e]
    have "sched_inv on (threads_get_mut k t (\<lambda>_. th2))"
      by (rule update_inv [OF k Some]) (use fr same e in \<open>simp_all add: same_core_def\<close>)
    moreover have "sched_inv on (place_on c target t (threads_get_mut k t (\<lambda>_. th2\<lparr>handshake := (handshake th2)\<lparr>state := Ready\<rparr>\<rparr>)))"
      by (rule place_inv [OF k Some])
        (use off same e fewer_replies_same [OF fr] in simp_all)
    ultimately show ?thesis by (simp add: eq)
  qed
qed

lemma create_endpoint_inv:
  assumes k: "sched_inv on k" and fresh: "\<And>n phys. page = Some phys \<Longrightarrow> table_get (endpoints k) n \<noteq> Some phys"
  shows "sched_inv on (snd (create_endpoint_at page k))"
proof (cases "table_len (endpoints k) \<ge> MAX_ENDPOINTS \<or> page = None")
  case True
  then show ?thesis using k by (auto simp: create_endpoint_at_def)
next
  case False
  note inv = sched_invD [OF k]
  obtain phys where p: "page = Some phys" "\<not> table_len (endpoints k) \<ge> MAX_ENDPOINTS" using False by auto
  have wf: "table_wf (endpoints k)" using inv(1) by (simp add: tables_ok_def)
  let ?k1 = "put_endpoint k phys aep_new"
  obtain r es where ins: "table_insert_with (endpoints k) (\<lambda>_. phys) = (r, es)" by fastforce
  have eq: "snd (create_endpoint_at page k) = ?k1\<lparr>endpoints := es\<rparr>"
    using p ins by (simp add: create_endpoint_at_def Let_def put_endpoint_def split: option.split)
  have get: "table_get es n = (if r = Some n then Some phys else table_get (endpoints k) n)"
    "r = Some n \<Longrightarrow> table_get (endpoints k) n = None" for n
  proof -
    show "table_get es n = (if r = Some n then Some phys else table_get (endpoints k) n)"
    proof (cases r)
      case None
      from ins have "es = endpoints k" by (cases rule: table_insert_withE) (use None in auto)
      then show ?thesis using None by simp
    next
      case (Some m)
      then show ?thesis using table_get_insert_with(2) [OF wf ins [unfolded Some], of n] by auto
    qed
    show "r = Some n \<Longrightarrow> table_get (endpoints k) n = None"
      using table_get_insert_with(1) [OF wf, of "\<lambda>_. phys" n es] ins by simp
  qed
  have ep: "endpoint_of (?k1\<lparr>endpoints := es\<rparr>) n = (if r = Some n then Some (phys, aep_new) else endpoint_of k n)" for n
    using get [of n] fresh [OF p(1), of n] by (cases "table_get (endpoints k) n") (auto simp: endpoint_of_def put_endpoint_def)
  moreover have "endpoint_of k n = None" if "r = Some n" for n using get(2) [OF that] by (simp add: endpoint_of_def)
  ultimately have "vS (view (?k1\<lparr>endpoints := es\<rparr>)) = vS (view k)" "vR (view (?k1\<lparr>endpoints := es\<rparr>)) = vR (view k)"
    by (auto simp: view_def fun_eq_iff)
  then have "view (?k1\<lparr>endpoints := es\<rparr>) = view k"
    by (intro view.equality) (simp_all, simp_all add: view_def put_endpoint_def threads_get_def [abs_def])
  moreover have "n = m" if "table_get es n = Some q" "table_get es m = Some q" for n m q
  proof -
    have "\<forall>n m p. table_get (endpoints k) n = Some p \<longrightarrow> table_get (endpoints k) m = Some p \<longrightarrow> n = m"
      using inv(1) by (simp add: tables_ok_def)
    then show ?thesis using that get(1) [of n] get(1) [of m] fresh [OF p(1), of n] fresh [OF p(1), of m]
      by (cases "r = Some n"; cases "r = Some m") auto
  qed
  then have "tables_ok (?k1\<lparr>endpoints := es\<rparr>)"
    using inv(1) table_insert_with_wf [OF wf ins] unfolding tables_ok_def put_endpoint_def by simp
  ultimately show ?thesis
    using inv by (intro sched_invI) (simp_all add: eq idles_ok_def put_endpoint_def)
qed

end
