(* ===== verification/SchedReap.thy ===== *)
theory SchedReap
  imports SchedOps
begin

text \<open>
  The teardown of a region, \<open>reap_region_objects\<close> of \<open>src/kernel/src/sched.rs\<close>: it keeps the
  scheduler's invariant, and what it leaves behind of the region is stated exactly.
\<close>


lemma remove_endpoint_inv:
  assumes k: "sched_inv on k" and e: "vS (view k) n = []" "vR (view k) n = []"
  shows "sched_inv on (k\<lparr>endpoints := snd (table_remove (endpoints k) n)\<rparr>)"
proof (rule sched_invI)
  let ?k = "k\<lparr>endpoints := snd (table_remove (endpoints k) n)\<rparr>"
  note inv = sched_invD [OF k]
  have wf: "table_wf (endpoints k)" using inv(1) by (simp add: tables_ok_def)
  have g: "table_get (snd (table_remove (endpoints k) n)) m = (if m = n then None else table_get (endpoints k) m)" for m
    by (rule table_get_remove(2) [OF wf prod.collapse [symmetric]])
  have "endpoint_of ?k m = (if m = n then None else endpoint_of k m)" for m by (simp add: endpoint_of_def g)
  then have "vS (view ?k) = vS (view k)" "vR (view ?k) = vR (view k)"
    using e by (auto simp: view_def fun_eq_iff)
  then have "view ?k = view k"
    by (intro view.equality) (simp_all, simp_all add: view_def threads_get_def [abs_def])
  then show "view_inv on (view ?k)" using inv(3) by simp
  show "tables_ok ?k"
    using inv(1) table_remove_wf [OF wf prod.collapse [symmetric]] g by (auto simp: tables_ok_def split: if_splits)
  show "idles_ok on ?k" using inv(2) by (simp add: idles_ok_def)
qed

text \<open>Nothing in the endpoint phase moves a thread to another page.\<close>

text \<open>A waiter off every queue may be aborted and woken; the step leaves the queues and tables of all alone.\<close>

definition same_pages :: "'s sched \<Rightarrow> 's sched \<Rightarrow> bool" where
  "same_pages k k' \<longleftrightarrow> idle k' = idle k \<and> (\<forall>u. map_option tcb_page (vT (view k') u) = map_option tcb_page (vT (view k) u))"

lemma same_pages_refl: "same_pages k k"
  by (simp add: same_pages_def)

lemma same_pages_endpoints: "same_pages k (k'\<lparr>endpoints := e\<rparr>) = same_pages k k'"
  by (simp add: same_pages_def view_def threads_get_def [abs_def])

lemma same_pages_trans [trans]: "same_pages k k1 \<Longrightarrow> same_pages k1 k2 \<Longrightarrow> same_pages k k2"
  by (simp add: same_pages_def)

definition detached :: "'s sched \<Rightarrow> tid \<Rightarrow> bool" where
  "detached k t \<longleftrightarrow> vT (view k) t \<noteq> None \<and> unqueued (view k) t \<and> (\<forall>u s. \<not> holds_reply (view k) t u s)"

lemma wake_keeps:
  assumes "tables_ok k"
  shows "vS (view (wake c t k)) = vS (view k)" "vR (view (wake c t k)) = vR (view k)"
    "endpoints (wake c t k) = endpoints k"
    "map_option cspace (vT (view (wake c t k)) u) = map_option cspace (vT (view k) u)"
    "same_pages k (wake c t k)"
proof -
  show "endpoints (wake c t k) = endpoints k"
    by (simp add: wake_def Let_def push_runq_def threads_get_mut_def split: option.split prod.split)
  show "same_pages k (wake c t k)"
    using assms by (auto simp: same_pages_def wake_def Let_def split: option.split prod.split)
qed (use assms in \<open>auto simp: wake_def Let_def split: option.split prod.split\<close>)

lemma abort_step:
  assumes k: "sched_inv on k" and t: "detached k t" and k'_def: "k' = wake c t (set_ipc_aborted k t)"
  shows "sched_inv on k'" "detached k' u = detached k u" "endpoints k' = endpoints k"
    "vS (view k') = vS (view k)" "vR (view k') = vR (view k)" "same_pages k k'"
proof -
  note inv = sched_invD [OF k]
  let ?k1 = "set_ipc_aborted k t"
  have k1: "sched_inv on ?k1" by (rule set_ipc_aborted_inv [OF k])
  obtain th where th: "vT (view k) t = Some th" using t by (auto simp: detached_def)
  have v1: "vT (view ?k1) = (vT (view k))(t := Some (th\<lparr>handshake := abort (handshake th)\<rparr>))"
    "vS (view ?k1) = vS (view k)" "vR (view ?k1) = vR (view k)"
    using inv(1) th by (simp_all add: set_ipc_aborted_def)
  have cs: "holds_reply v = holds_reply w" if "\<And>u. map_option cspace (vT v u) = map_option cspace (vT w u)" for v w :: "'a view"
  proof (intro ext)
    fix x u s
    show "holds_reply v x u s = holds_reply w x u s"
      using that [of u] by (cases "vT v u"; cases "vT w u") (auto simp: holds_reply_def thr_def)
  qed
  have h1: "holds_reply (view ?k1) = holds_reply (view k)" by (rule cs) (use th v1 in auto)
  have "wakeable (view ?k1) t"
    using t v1 h1 by (simp add: wakeable_def thr_def detached_def unqueued_def)
  then show "sched_inv on k'" unfolding k'_def by (rule wake_inv [OF k1])
  have v': "vS (view k') = vS (view k)" "vR (view k') = vR (view k)" "endpoints k' = endpoints k"
    "map_option cspace (vT (view k') u) = map_option cspace (vT (view k) u)" for u
    using wake_keeps [OF sched_invD(1) [OF k1]] v1 th
    by (auto simp: k'_def) (simp add: set_ipc_aborted_def threads_get_mut_def)
  show "vS (view k') = vS (view k)" "vR (view k') = vR (view k)" "endpoints k' = endpoints k" by (fact v')+
  have "same_pages k ?k1"
    using inv(1) by (auto simp: same_pages_def set_ipc_aborted_def option.map_comp comp_def)
  also have "same_pages ?k1 k'" unfolding k'_def by (rule wake_keeps [OF sched_invD(1) [OF k1]])
  finally show "same_pages k k'" .
  have "holds_reply (view k') = holds_reply (view k)" by (rule cs [OF v'(4)])
  moreover have "vT (view k') u = None \<longleftrightarrow> vT (view k) u = None" using v'(4) [of u] by (metis option.map_disc_iff)
  ultimately show "detached k' u = detached k u" using v' by (simp add: detached_def unqueued_def)
qed

lemma abort_waiters_inv:
  assumes "sched_inv on k" "\<And>t. t \<in> set ws \<Longrightarrow> detached k t"
  shows "sched_inv on (abort_waiters c ws k) \<and> endpoints (abort_waiters c ws k) = endpoints k \<and>
    vS (view (abort_waiters c ws k)) = vS (view k) \<and> vR (view (abort_waiters c ws k)) = vR (view k) \<and>
    same_pages k (abort_waiters c ws k)"
  using assms
proof (induction ws arbitrary: k)
  case Nil
  then show ?case by (simp add: abort_waiters_def same_pages_refl)
next
  case (Cons t ws)
  let ?k = "wake c t (set_ipc_aborted k t)"
  note st = abort_step [OF Cons.prems(1) _ refl, of t]
  have "abort_waiters c (t # ws) k = abort_waiters c ws ?k" by (simp add: abort_waiters_def)
  then show ?case using Cons.IH [of ?k] Cons.prems(2) st same_pages_trans [of k ?k] by simp
qed

lemma reap_endpoint_inv:
  assumes k: "sched_inv on k"
  shows "\<exists>k'. reap_endpoint c n k = Ok k' \<and> sched_inv on k' \<and> endpoints k' = snd (table_remove (endpoints k) n) \<and>
    same_pages k k'"
proof (cases "endpoint_of k n")
  case None
  then have "vS (view k) n = []" "vR (view k) n = []" by (simp_all add: view_def)
  then show ?thesis using None remove_endpoint_inv [OF k] by (simp add: reap_endpoint_def same_pages_endpoints same_pages_refl)
next
  case (Some pe)
  then obtain phys e where e: "endpoint_of k n = Some (phys, e)" by (cases pe) simp
  note inv = sched_invD [OF k]
  let ?ws = "asenders e @ areceivers e"
  define k1 where "k1 = put_endpoint k phys (e\<lparr>asenders := [], areceivers := []\<rparr>)"
  have k1: "sched_inv on k1" unfolding k1_def by (rule dequeue_inv [OF k e]) simp_all
  note q = endpoint_of_view [OF e]
  have v1: "view k1 = (view k)\<lparr>vS := (vS (view k))(n := []), vR := (vR (view k))(n := [])\<rparr>"
    by (simp add: k1_def view_put_endpoint [OF inv(1) e])
  have live: "\<exists>th. vT (view k) t = Some th" if "t \<in> set ?ws" for t
    using that inv_sender [OF inv(3), of t n] inv_receiver [OF inv(3), of t n] q by auto
  have "detached k1 t" if t: "t \<in> set ?ws" for t
  proof -
    have qt: "t \<in> set (vS (view k) n) \<or> t \<in> set (vR (view k) n)" using t q by auto
    have "unqueued (view k1) t"
      using qt queued_once [OF inv(3), of t] by (auto simp: v1 unqueued_def)
    moreover have "\<not> holds_reply (view k1) t u s" for u s
      using queued_no_reply [OF inv(3) qt] by (simp add: v1 holds_reply_def)
    ultimately show ?thesis using live [OF t] by (simp add: detached_def v1)
  qed
  then have a: "sched_inv on (abort_waiters c ?ws k1) \<and> endpoints (abort_waiters c ?ws k1) = endpoints k1 \<and>
      vS (view (abort_waiters c ?ws k1)) = vS (view k1) \<and> vR (view (abort_waiters c ?ws k1)) = vR (view k1) \<and>
      same_pages k1 (abort_waiters c ?ws k1)"
    by (intro abort_waiters_inv [OF k1])
  have ep: "endpoints k1 = endpoints k" by (simp add: k1_def put_endpoint_def)
  have "same_pages k k1" using v1 by (simp add: same_pages_def) (simp add: k1_def)
  then have sp: "same_pages k (abort_waiters c ?ws k1)" using a same_pages_trans by blast
  have "distinct ?ws"
    using inv_distinct(1,2) [OF inv(3), of n] queued_once(3) [OF inv(3), of _ n n] q by auto
  then have "length ?ws \<le> MAX_THREADS"
    using live_names_bound [of "threads k" ?ws] live inv(1)
    by (simp add: tables_ok_def view_def threads_get_def [abs_def])
  then show ?thesis
    using e a remove_endpoint_inv [of on "abort_waiters c ?ws k1" n] v1 ep sp
    by (simp add: reap_endpoint_def k1_def [symmetric] rust_assert_def Let_def same_pages_endpoints) 
qed

lemma table_remove_len:
  assumes wf: "table_wf t" and get: "table_get t n \<noteq> None"
  shows "table_len (snd (table_remove t n)) < table_len t"
proof -
  obtain r t' where rem: "table_remove t n = (r, t')" by fastforce
  then show ?thesis
  proof (cases rule: table_removeE [OF wf rem])
    case 1
    then show ?thesis using get by simp
  next
    case (2 slot v)
    have "length (filter (\<lambda>s. s \<noteq> None) (slots t)) > 0"
      using 2(1,3) nth_mem [of slot "slots t"] by (auto simp: filter_empty_conv)
    then show ?thesis using 2 rem table_wfD(4) [OF wf] by (simp add: table_len_def)
  qed
qed

lemma reap_endpoints_inv:
  assumes "sched_inv on k" "table_len (endpoints k) \<le> fuel"
  shows "\<exists>k'. reap_endpoints fuel c lo hi k = Some (Ok k') \<and> sched_inv on k' \<and>
    (\<forall>n phys. table_get (endpoints k') n = Some phys \<longrightarrow> \<not> in_span lo hi phys) \<and> same_pages k k'"
  using assms
proof (induction fuel arbitrary: k)
  case 0
  then have wf: "table_wf (endpoints k)" by (simp add: sched_inv_def tables_ok_def)
  have "table_iter (endpoints k) = []" using table_iter_exact(3) [OF wf] 0 by simp
  moreover have "table_get (endpoints k) n = None" for n
    using table_iter_exact(1) [OF wf] calculation by (cases "table_get (endpoints k) n") auto
  ultimately show ?case using 0 by (simp add: same_pages_refl)
next
  case (Suc fuel)
  then have wf: "table_wf (endpoints k)" by (simp add: sched_inv_def tables_ok_def)
  note it = table_iter_exact(1) [OF wf]
  show ?case
  proof (cases "find (\<lambda>(name, phys). in_span lo hi phys) (table_iter (endpoints k))")
    case None
    then have "\<not> in_span lo hi phys" if "table_get (endpoints k) n = Some phys" for n phys
      using that it by (auto simp: find_None_iff)
    then show ?thesis using None Suc.prems by (auto simp: same_pages_refl)
  next
    case (Some np)
    then have "np \<in> set (table_iter (endpoints k))" by (metis find_Some_iff nth_mem)
    then obtain n phys where f: "np = (n, phys)" "table_get (endpoints k) n = Some phys" using it by auto
    obtain k1 where k1: "reap_endpoint c n k = Ok k1" "sched_inv on k1"
      "endpoints k1 = snd (table_remove (endpoints k) n)" "same_pages k k1"
      using reap_endpoint_inv [OF Suc.prems(1)] by blast
    have "table_len (endpoints k1) \<le> fuel"
      using table_remove_len [OF wf, of n] f Suc.prems(2) k1(3) by simp
    then obtain k2 where "reap_endpoints fuel c lo hi k1 = Some (Ok k2)" "sched_inv on k2" "same_pages k1 k2"
      "\<forall>n phys. table_get (endpoints k2) n = Some phys \<longrightarrow> \<not> in_span lo hi phys"
      using Suc.IH [OF k1(2)] by blast
    then show ?thesis using Some f k1(1,4) same_pages_trans by auto
  qed
qed

lemma arm_kills_inv:
  assumes k: "sched_inv on k"
    and idle: "\<And>d t th. d \<in> on \<Longrightarrow> idle k d = Some t \<Longrightarrow> vT (view k) t = Some th \<Longrightarrow> \<not> resident lo hi th"
  shows "sched_inv on (arm_kills lo hi k)"
  unfolding arm_kills_def
proof (rule iter_mut_inv [OF k])
  fix t th assume "vT (view k) t = Some th"
  then show "fewer_replies t th (if resident lo hi th \<and> thread_verdict th = RefuseAndArm then th\<lparr>killed := True\<rparr> else th)"
    by (intro fewer_repliesI [OF sched_invD(3) [OF k]]) simp_all
qed (use idle in auto)

text \<open>A resident that the refuse phase lets through: no longer live, and no core stands on its stack.\<close>

definition reapable :: "'s sched \<Rightarrow> tid \<Rightarrow> bool" where
  "reapable k t \<longleftrightarrow> thr (view k) t (\<lambda>th. thread_verdict th = ReapIt)"

lemma reapable_iff: "thread_verdict th = ReapIt \<longleftrightarrow>
    (hst th = Embryo \<or> hst th = Finished \<or> hst th = Dead) \<and> \<not> on_cpu (handshake th)"
  by (cases "hst th") (auto simp: thread_verdict_def region_reap_verdict_def)

lemma unlink_corpse_inv:
  assumes k: "sched_inv on k" and t: "vT (view k) t = Some th" "thread_verdict th = ReapIt"
  shows "sched_inv on (unlink_corpse t k)" "unqueued (view (unlink_corpse t k)) t"
    "vT (view (unlink_corpse t k)) = vT (view k)" "endpoints (unlink_corpse t k) = endpoints k"
proof -
  note inv = sched_invD [OF k]
  have r: "t \<notin> set (vR (view k) n)" "t \<in> set (vS (view k) n) \<Longrightarrow> hst th = Dead \<and> fault_ep th = Some n" for n
    using inv_receiver [OF inv(3), of t n] inv_sender [OF inv(3), of t n] t
    by (auto simp: parked_receiver_def parked_sender_def Let_def reapable_iff)
  have "sched_inv on (unlink_corpse t k) \<and> unqueued (view (unlink_corpse t k)) t \<and>
    vT (view (unlink_corpse t k)) = vT (view k) \<and> endpoints (unlink_corpse t k) = endpoints k"
  proof (cases "\<exists>ep phys e. hst th = Dead \<and> fault_ep th = Some ep \<and> endpoint_of k ep = Some (phys, e)")
    case True
    then obtain ep phys e where e: "hst th = Dead" "fault_ep th = Some ep" "endpoint_of k ep = Some (phys, e)" by blast
    let ?e = "e\<lparr>asenders := filter (\<lambda>s. s \<noteq> t) (asenders e)\<rparr>"
    have "sched_inv on (put_endpoint k phys ?e)"
      by (rule dequeue_inv [OF k e(3)])
        (use inv_distinct(1,2) [OF inv(3), of ep] endpoint_of_view [OF e(3)] in auto)
    moreover have "unqueued (view (put_endpoint k phys ?e)) t"
      using r r(1) [of ep] e(2) endpoint_of_view [OF e(3)] by (auto simp: view_put_endpoint [OF inv(1) e(3)] unqueued_def)
    ultimately show ?thesis
      using t(1) e by (simp add: unlink_corpse_def view_put_endpoint [OF inv(1) e(3)]) (simp add: put_endpoint_def)
  next
    case False
    then have "unlink_corpse t k = k" using t(1) by (auto simp: unlink_corpse_def split: option.split)
    moreover have "t \<notin> set (vS (view k) n)" for n
    proof (cases "endpoint_of k n")
      case None
      then show ?thesis by (simp add: view_def)
    next
      case (Some pe)
      then show ?thesis using r(2) [of n] False by (cases pe) auto
    qed
    ultimately show ?thesis using k r(1) by (simp add: unqueued_def)
  qed
  then show "sched_inv on (unlink_corpse t k)" "unqueued (view (unlink_corpse t k)) t"
    "vT (view (unlink_corpse t k)) = vT (view k)" "endpoints (unlink_corpse t k) = endpoints k" by simp_all
qed

lemma remove_resident_inv:
  assumes k: "sched_inv on k" and t: "reapable k t"
  shows "sched_inv on (threads_remove (unlink_corpse t k) t)"
    "vT (view (threads_remove (unlink_corpse t k) t)) = (vT (view k))(t := None)"
    "endpoints (threads_remove (unlink_corpse t k) t) = endpoints k"
proof -
  obtain th where th: "vT (view k) t = Some th" "thread_verdict th = ReapIt" using t by (auto simp: reapable_def thr_iff)
  note u = unlink_corpse_inv [OF k th]
  note inv = sched_invD [OF u(1)]
  have th1: "vT (view (unlink_corpse t k)) t = Some th" using th u(3) by simp
  note st = th(2) [unfolded reapable_iff]
  have "view_inv on ((view (unlink_corpse t k))\<lparr>vT := (vT (view (unlink_corpse t k)))(t := None)\<rparr>)"
  proof (rule inv_remove [OF inv(3) u(2)])
    show "t \<notin> placed (view (unlink_corpse t k)) c" for c
      using inv_placed [OF inv(3), of t c] th1 st by auto
    show "vcur (view (unlink_corpse t k)) c \<noteq> t \<and> vsw (view (unlink_corpse t k)) c \<noteq> Some t \<and>
        vidle (view (unlink_corpse t k)) c \<noteq> Some t" if "c \<in> on" for c
    proof (intro conjI)
      show "vcur (view (unlink_corpse t k)) c \<noteq> t" using inv_current [OF inv(3) that] th1 st by auto
      show "vsw (view (unlink_corpse t k)) c \<noteq> Some t" using inv_cores(2) [OF inv(3) that, of t] th1 st by (auto simp: thr_Some)
      show "vidle (view (unlink_corpse t k)) c \<noteq> Some t" using inv_idle [OF inv(3) that, of t] th1 st by auto
    qed
  qed
  then show "sched_inv on (threads_remove (unlink_corpse t k) t)"
    using inv by (intro sched_invI) (simp_all add: view_threads_remove)
  show "vT (view (threads_remove (unlink_corpse t k) t)) = (vT (view k))(t := None)"
    using inv(1) u(3) by (simp add: view_threads_remove)
  show "endpoints (threads_remove (unlink_corpse t k) t) = endpoints k"
    using u(4) by (simp add: threads_remove_def Let_def split: option.split)
qed

lemma remove_all_inv:
  assumes "sched_inv on k" "distinct ts" "\<And>t. t \<in> set ts \<Longrightarrow> reapable k t"
  shows "sched_inv on (fold (\<lambda>t k. threads_remove (unlink_corpse t k) t) ts k) \<and>
    endpoints (fold (\<lambda>t k. threads_remove (unlink_corpse t k) t) ts k) = endpoints k \<and>
    vT (view (fold (\<lambda>t k. threads_remove (unlink_corpse t k) t) ts k)) = (\<lambda>t. if t \<in> set ts then None else vT (view k) t)"
  using assms
proof (induction ts arbitrary: k)
  case (Cons t ts)
  let ?k = "threads_remove (unlink_corpse t k) t"
  note st = remove_resident_inv [OF Cons.prems(1), of t]
  have "reapable ?k u" if "u \<in> set ts" for u
    using Cons.prems that st(2) by (auto simp: reapable_def thr_def)
  then show ?case using Cons.IH [of ?k] Cons.prems st by (auto simp: fun_eq_iff)
qed simp

lemma table_values_iff:
  assumes "table_wf t"
  shows "v \<in> set (table_values t) \<longleftrightarrow> (\<exists>n. table_get t n = Some v)"
proof -
  have "v \<in> set (table_values t) \<longleftrightarrow> Some v \<in> set (slots t)"
    by (force simp: table_values_def map_filter_def)
  then show ?thesis
    using table_get_Some_iff [OF assms] by (auto simp: in_set_conv_nth)
qed

lemma reap_region_inv:
  assumes k: "sched_inv on k"
    and idle: "\<And>d t th. d \<in> on \<Longrightarrow> idle k d = Some t \<Longrightarrow> vT (view k) t = Some th \<Longrightarrow> \<not> resident lo hi th"
  shows "\<exists>r k'. reap_region_objects c lo hi k = Some (Ok (r, k')) \<and> sched_inv on k' \<and>
    (\<forall>n phys. table_get (endpoints k') n = Some phys \<longrightarrow> \<not> in_span lo hi phys) \<and>
    (if r = Ok () then \<forall>t th. vT (view k') t = Some th \<longrightarrow> \<not> resident lo hi th
     else \<exists>t th. vT (view k') t = Some th \<and> resident lo hi th \<and> (on_cpu (handshake th) \<or> killed th))"
proof -
  obtain k1 where k1: "reap_endpoints (table_len (endpoints k)) c lo hi k = Some (Ok k1)" "sched_inv on k1"
    "\<forall>n phys. table_get (endpoints k1) n = Some phys \<longrightarrow> \<not> in_span lo hi phys" "same_pages k k1"
    using reap_endpoints_inv [OF k order.refl] by blast
  have "\<not> resident lo hi th" if i: "d \<in> on" "idle k1 d = Some t" "vT (view k1) t = Some th" for d t th
  proof -
    obtain th0 where "vT (view k) t = Some th0" "tcb_page th0 = tcb_page th"
      using k1(4) i(3) unfolding same_pages_def by (metis (no_types, lifting) map_option_eq_Some option.simps(9))
    then show ?thesis using idle [of d t th0] i k1(4) by (simp add: same_pages_def resident_def)
  qed
  then have k2: "sched_inv on (arm_kills lo hi k1)" by (rule arm_kills_inv [OF k1(2)])
  let ?k = "arm_kills lo hi k1"
  note inv = sched_invD [OF k2]
  have wf: "table_wf (threads ?k)" using inv(1) by (simp add: tables_ok_def)
  have get: "table_get (threads ?k) = vT (view ?k)" by (simp add: view_def threads_get_def [abs_def])
  have ep: "endpoints ?k = endpoints k1" by (simp add: arm_kills_def)
  have ref: "region_refuses lo hi ?k \<longleftrightarrow> (\<exists>t th. vT (view ?k) t = Some th \<and> resident lo hi th \<and> thread_verdict th \<noteq> ReapIt)"
    unfolding region_refuses_def list_ex_iff Bex_def table_values_iff [OF wf] get by blast
  show ?thesis
  proof (cases "region_refuses lo hi ?k")
    case True
    then obtain t th where th: "vT (view ?k) t = Some th" "resident lo hi th" "thread_verdict th \<noteq> ReapIt" using ref by blast
    define f where "f = (\<lambda>th :: 'a thread. if resident lo hi th \<and> thread_verdict th = RefuseAndArm
      then th\<lparr>killed := True\<rparr> else th)"
    have v: "vT (view ?k) t = map_option f (vT (view k1) t)"
      using sched_invD(1) [OF k1(2)]
      by (simp add: arm_kills_def f_def view_def threads_get_def [abs_def] table_get_iter_mut tables_ok_def)
    obtain th0 where "th = f th0" using th(1) unfolding v by auto
    then have "on_cpu (handshake th) \<or> killed th"
      using th(2,3) by (cases "resident lo hi th0 \<and> thread_verdict th0 = RefuseAndArm")
        (auto simp: f_def thread_verdict_def region_reap_verdict_def split: if_splits)
    then show ?thesis using True k1 k2 ep th by (auto simp: reap_region_objects_def Let_def)
  next
    case False
    let ?ts = "map fst (filter (\<lambda>(t, th). resident lo hi th) (table_iter (threads ?k)))"
    have ts: "set ?ts = {t. \<exists>th. vT (view ?k) t = Some th \<and> resident lo hi th}"
      using table_iter_exact(1) [OF wf] get by (force simp: image_iff)
    have "distinct ?ts" using table_iter_exact(2) [OF wf] by (simp add: distinct_map_filter)
    moreover have "reapable ?k t" if "t \<in> set ?ts" for t
      using that False ref unfolding ts by (auto simp: reapable_def thr_iff)
    ultimately have r: "sched_inv on (remove_residents lo hi ?k)" "endpoints (remove_residents lo hi ?k) = endpoints ?k"
      "vT (view (remove_residents lo hi ?k)) = (\<lambda>t. if t \<in> set ?ts then None else vT (view ?k) t)"
      using remove_all_inv [OF k2, of ?ts] by (simp_all add: remove_residents_def)
    have "\<not> resident lo hi th" if "vT (view (remove_residents lo hi ?k)) t = Some th" for t th
      using that unfolding r(3) ts by (auto split: if_splits)
    then show ?thesis using False k1 ep r(1,2) by (auto simp: reap_region_objects_def Let_def)
  qed
qed

end
