(* ===== verification/SchedSteps.thy ===== *)
theory SchedSteps
  imports SchedReap
begin

section \<open>Boot and new threads\<close>

lemma view_recycled [simp]: "view (k\<lparr>recycled := x\<rparr>) = view k"
  by (simp add: view_def threads_get_def [abs_def] endpoint_of_def)

lemma inv_recycled [simp]: "tables_ok (k\<lparr>recycled := x\<rparr>) = tables_ok k" "idles_ok on (k\<lparr>recycled := x\<rparr>) = idles_ok on k"
  "sched_inv on (k\<lparr>recycled := x\<rparr>) = sched_inv on k"
  by (simp_all add: sched_inv_def tables_ok_def idles_ok_def)

lemma view_current: "view (k\<lparr>current := x\<rparr>) = (view k)\<lparr>vcur := x\<rparr>"
  and view_idle: "view (k\<lparr>idle := y\<rparr>) = (view k)\<lparr>vidle := y\<rparr>"
  by (simp_all add: view_def threads_get_def [abs_def] endpoint_of_def)

lemmas fresh_threads = thread_boot_def thread_adopt_current_def thread_spawned_def on_cpu_now_def ready_def
  caps_ok_def cspace_wf_new CSPACE_SLOTS_def

lemma insert_with_Some:
  "threads_insert_with k page f = (Some t, k') \<longleftrightarrow> (\<exists>p. page = Some p \<and> threads_insert_from_page k p f = (Some t, k'))"
  by (auto simp: threads_insert_with_def split: option.splits prod.splits)

lemma sched_new_inv: "tables_ok (sched_new :: 's sched)" "view_inv {} (view (sched_new :: 's sched))" "vT (view (sched_new :: 's sched)) t = None"
proof -
  have "table_wf (table_new MAX_THREADS)" "table_wf (table_new MAX_ENDPOINTS)"
    by (simp_all add: table_wf_new MAX_THREADS_def MAX_ENDPOINTS_def)
  then show "tables_ok (sched_new :: 's sched)"
    by (simp add: tables_ok_def sched_new_def) (simp add: table_new_def)
  have v: "vT (view (sched_new :: 's sched)) = (\<lambda>_. None)" "vS (view (sched_new :: 's sched)) = (\<lambda>_. [])" "vR (view (sched_new :: 's sched)) = (\<lambda>_. [])"
    by (simp_all add: view_def sched_new_def threads_get_def [abs_def] endpoint_of_def fun_eq_iff)
  moreover have "runq (sched_new :: 's sched) c = []" "inbox (sched_new :: 's sched) c = []" for c by (simp_all add: sched_new_def)
  ultimately show "view_inv {} (view (sched_new :: 's sched))" "vT (view (sched_new :: 's sched)) t = None"
    by (simp_all add: view_inv_def queues_ok_def runqs_ok_def cores_ok_def replies_ok_def placed_def thr_def
        thr_if_def holds_reply_def)
qed

lemma room_in_table:
  assumes "table_wf t" "live t < length (slots t)"
  obtains n t' where "table_insert_with t f = (Some n, t')" "live t' = live t + 1"
proof -
  have "None \<in> set (slots t)"
  proof (rule ccontr)
    assume "None \<notin> set (slots t)"
    then have "\<forall>s \<in> set (slots t). s \<noteq> None" by (metis (full_types))
    then have "filter (\<lambda>s. s \<noteq> None) (slots t) = slots t" by (rule filter_True)
    then show False using assms by (simp add: table_wf_def)
  qed
  then have "fst (table_insert_with t f) \<noteq> None" by (simp add: table_insert_with_None_iff)
  then obtain n t' where n: "table_insert_with t f = (Some n, t')" by (cases "table_insert_with t f") auto
  then have "live t' = live t + 1" by (cases rule: table_insert_withE) simp_all
  with n show ?thesis by (rule that)
qed

lemma insert_with_room:
  assumes "tables_ok k" "live (threads k) < MAX_THREADS"
  obtains t k' where "threads_insert_from_page k p f = (Some t, k')" "live (threads k') = live (threads k) + 1"
    "current k' = current k" "idle k' = idle k" "switched_from k' = switched_from k" "runq k' = runq k" "inbox k' = inbox k"
proof -
  obtain n t' where n: "table_insert_with (threads k) (\<lambda>t. (f t)\<lparr>tcb_page := p\<rparr>) = (Some n, t')"
    "live t' = live (threads k) + 1"
    using room_in_table [of "threads k"] assms by (auto simp: tables_ok_def)
  show ?thesis by (rule that [of n "k\<lparr>threads := t'\<rparr>"]) (use n in \<open>simp_all add: threads_insert_from_page_def\<close>)
qed

lemma empty_boot:
  assumes k: "tables_ok k" "view_inv {} (view k)" "\<And>t. vT (view k) t = None" "live (threads k) = 0"
    and c: "switched_from k c = None" "idle k c = None"
  obtains b k1 where "threads_insert_from_page k p (\<lambda>_. thread_boot) = (Some b, k1)" "live (threads k1) = 1"
    "tables_ok (k1\<lparr>current := (current k1)(c := b)\<rparr>)" "view_inv {c} (view (k1\<lparr>current := (current k1)(c := b)\<rparr>))"
    "\<And>t. t \<noteq> b \<Longrightarrow> vT (view k1) t = None"
    "\<And>t u s. \<not> holds_reply (view (k1\<lparr>current := (current k1)(c := b)\<rparr>)) t u s"
proof -
  have "live (threads k) < MAX_THREADS" using k(4) by (simp add: MAX_THREADS_def)
  from insert_with_room [OF k(1) this, of p "\<lambda>_. thread_boot"]
  obtain b k1 where b: "threads_insert_from_page k p (\<lambda>_. thread_boot) = (Some b, k1)"
    "live (threads k1) = live (threads k) + 1" "current k1 = current k"
    by blast
  note v1 = insert_thread [OF k(1) b(1)]
  have ok: "tables_ok (k1\<lparr>current := (current k1)(c := b)\<rparr>)" using v1(3) by (simp add: tables_ok_def)
  have inv: "view_inv {c} (view (k1\<lparr>current := (current k1)(c := b)\<rparr>))"
    unfolding view_current v1(2) b(3)
  proof -
    have "view_inv (insert c {}) ((view k)\<lparr>vT := (vT (view k))(b := Some (thread_boot\<lparr>tcb_page := p\<rparr>)), vcur := (vcur (view k))(c := b)\<rparr>)"
      by (rule inv_enter [OF k(2) k(3)]) (use c k(3) in \<open>simp_all add: fresh_threads holds_reply_def thr_def\<close>)
    then show "view_inv {c} ((view k)\<lparr>vT := (vT (view k))(b := Some (thread_boot\<lparr>tcb_page := p\<rparr>)), vcur := (current k)(c := b)\<rparr>)"
      by simp
  qed
  have none: "\<not> holds_reply (view (k1\<lparr>current := (current k1)(c := b)\<rparr>)) t u s" for t u s
    unfolding view_current v1(2) using k(3) by (simp add: holds_reply_def thr_def fresh_threads)
  show ?thesis by (rule that [OF b(1) _ ok inv _ none]) (simp_all add: b(2) v1(2) k(3,4))
qed

lemma idle_thread_inv:
  assumes k: "tables_ok k" "view_inv {c} (view k)" "\<And>t u s. \<not> holds_reply (view k) t u s"
    and n: "threads_insert_from_page k q (\<lambda>_. thread_spawned) = (Some i, k2)"
  shows "sched_inv {c} (k2\<lparr>idle := (idle k2)(c := Some i)\<rparr>)"
proof (rule sched_invI)
  note v = insert_thread [OF k(1) n]
  let ?th = "thread_spawned\<lparr>tcb_page := q\<rparr>"
  show "tables_ok (k2\<lparr>idle := (idle k2)(c := Some i)\<rparr>)" "idles_ok {c} (k2\<lparr>idle := (idle k2)(c := Some i)\<rparr>)"
    using v(3) by (simp_all add: tables_ok_def idles_ok_def)
  have i: "vT (view k2) i = Some ?th" by (simp add: v(2))
  have inv2: "view_inv {c} (view k2)"
    unfolding v(2) by (rule inv_new [OF k(2) v(1)]) (simp_all add: fresh_threads k(3))
  have unpl: "i \<notin> placed (view k2) d" for d
    using inv_placed [OF k(2), of i d] v(1) by (auto simp: v(2) placed_def)
  have "view_inv {c} ((view k2)\<lparr>vidle := (vidle (view k2))(c := Some i)\<rparr>)"
    by (rule inv_set_idle [OF inv2 _ i]) (use unpl in \<open>simp_all add: fresh_threads\<close>)
  then show "view_inv {c} (view (k2\<lparr>idle := (idle k2)(c := Some i)\<rparr>))" by (simp add: view_idle)
qed

lemma sched_init_inv: "\<exists>k :: 's sched. sched_init c (Some p) True (Some q) = Ok k \<and> sched_inv {c} k"
proof -
  have new: "live (threads (sched_new :: 's sched)) = 0" "switched_from (sched_new :: 's sched) c = None"
    "idle (sched_new :: 's sched) c = None" by (simp_all add: sched_new_def table_new_def)
  obtain b k1 where b: "threads_insert_from_page (sched_new :: 's sched) p (\<lambda>_. thread_boot) = (Some b, k1)"
    "live (threads k1) = 1" and ok: "tables_ok (k1\<lparr>current := (current k1)(c := b)\<rparr>)"
    "view_inv {c} (view (k1\<lparr>current := (current k1)(c := b)\<rparr>))"
    "\<And>t u s. \<not> holds_reply (view (k1\<lparr>current := (current k1)(c := b)\<rparr>)) t u s"
    by (rule empty_boot [OF sched_new_inv new]) blast
  define k where "k = k1\<lparr>current := (current k1)(c := b)\<rparr>"
  have room: "live (threads k) < MAX_THREADS" using b(2) by (simp add: k_def MAX_THREADS_def)
  obtain i k2 where i: "threads_insert_from_page k q (\<lambda>_. thread_spawned) = (Some i, k2)"
    by (rule insert_with_room [OF ok(1) [folded k_def] room])
  have "sched_init c (Some p) True (Some q) = Ok (k2\<lparr>idle := (idle k2)(c := Some i)\<rparr>)"
    using b(1) i by (simp add: sched_init_def threads_insert_with_def unwrap_def rust_assert_def k_def)
  then show ?thesis using idle_thread_inv [OF ok [folded k_def] i] by blast
qed

lemma sched_init_ok:
  fixes k :: "'s sched"
  assumes "sched_init c (Some p) True (Some q) = Ok k"
  shows "sched_inv {c} k"
proof -
  obtain k' :: "'s sched" where "sched_init c (Some p) True (Some q) = Ok k'" "sched_inv {c} k'"
    using sched_init_inv by blast
  then show ?thesis using assms by simp
qed

lemma adopt_inv:
  assumes k: "sched_inv on k" and c: "c \<notin> on" "switched_from k c = None" "idle k c = None"
    and fresh: "unclaimed k (fst (threads_insert_with k page (\<lambda>_. thread_adopt_current)))"
    and r: "adopt_secondary_idle c page k = Ok k'"
  shows "sched_inv (insert c on) k'"
proof -
  note inv = sched_invD [OF k]
  obtain p i k1 where n: "page = Some p" "threads_insert_from_page k p (\<lambda>_. thread_adopt_current) = (Some i, k1)"
    and k': "k' = k1\<lparr>current := (current k1)(c := i), idle := (idle k1)(c := Some i)\<rparr>"
    using r by (auto simp: adopt_secondary_idle_def unwrap_def threads_insert_with_def split: option.splits prod.splits)
  note v = insert_thread [OF inv(1) n(2)]
  have un: "\<not> holds_reply (view k) i u s" for u s using fresh n by (simp add: unclaimed_def threads_insert_with_def)
  define w where "w = (view k)\<lparr>vT := (vT (view k))(i := Some (thread_adopt_current\<lparr>tcb_page := p\<rparr>)),
    vcur := (vcur (view k))(c := i)\<rparr>"
  have w: "view_inv (insert c on) w" unfolding w_def
    by (rule inv_enter [OF inv(3) v(1) c(1)]) (use c un in \<open>simp_all add: fresh_threads\<close>)
  have unpl: "i \<notin> placed w d" for d
    using inv_placed [OF inv(3), of i d] v(1) by (auto simp: w_def placed_def)
  have "view_inv (insert c on) (w\<lparr>vidle := (vidle w)(c := Some i)\<rparr>)"
    by (rule inv_set_idle [OF w, where th = "thread_adopt_current\<lparr>tcb_page := p\<rparr>"])
      (use unpl in \<open>simp_all add: fresh_threads w_def\<close>)
  moreover have same: "current k1 = current k" "idle k1 = idle k"
    using n(2) by (auto simp: threads_insert_from_page_def split: prod.splits)
  have "view k' = w\<lparr>vidle := (vidle w)(c := Some i)\<rparr>"
    unfolding k' view_idle view_current v(2) w_def by (simp add: same)
  moreover have "idles_ok (insert c on) k'"
  proof -
    have "idle k d \<noteq> Some i" if "d \<in> on" for d using inv_idle [OF inv(3) that, of i] v(1) by auto
    then show ?thesis using inv(2) c(1) same by (auto simp: idles_ok_def k')
  qed
  moreover have "tables_ok k'" using v(3) by (simp add: k' tables_ok_def)
  ultimately show ?thesis by (intro sched_invI) simp_all
qed

section \<open>Spawning, stealing and the sweeps\<close>

lemma insert_in_place_None:
  assumes k: "sched_inv on k" and n: "threads_insert_in_place k page built f = (None, k')"
  shows "sched_inv on k'"
proof (cases page)
  case None
  then show ?thesis using n k by (simp add: threads_insert_in_place_def)
next
  case (Some p)
  obtain r k1 where ins: "threads_insert_from_page k p f = (r, k1)" by fastforce
  note inv = sched_invD [OF k]
  show ?thesis
  proof (cases r)
    case None
    then show ?thesis using ins insert_full [of k p f k1] n k Some by (auto simp: threads_insert_in_place_def)
  next
    case (Some t)
    note v = insert_thread [OF inv(1) ins [unfolded Some]]
    have k': "k' = k1\<lparr>threads := snd (table_remove (threads k1) t), recycled := p # recycled k1\<rparr>"
      using ins Some n \<open>page = Some p\<close> by (simp add: threads_insert_in_place_def split: if_splits)
    obtain x y where rm: "table_remove (threads k1) t = (x, y)" by fastforce
    have wf: "table_wf (threads k1)" using v(3) by (simp add: tables_ok_def)
    have "table_get y = (vT (view k1))(t := None)"
      using tbl.del_get [OF wf rm] by (simp add: view_def threads_get_def [abs_def])
    also have "\<dots> = vT (view k)" using v(1,2) by (simp add: fun_upd_idem)
    finally have "table_get y = vT (view k)" .
    moreover have "view (k1\<lparr>threads := y\<rparr>) = (view k1)\<lparr>vT := table_get y\<rparr>"
      by (subst view_parts [where k = k1]) (simp_all add: view_def)
    ultimately have "view (k1\<lparr>threads := y\<rparr>) = view k" using v(2) by simp
    moreover have "tables_ok (k1\<lparr>threads := y\<rparr>)" "idles_ok on (k1\<lparr>threads := y\<rparr>)"
      using v(3,4) inv(2) tbl.del_ok [OF wf rm] table_length(3) [of "threads k1" t] rm
      by (simp_all add: tables_ok_def idles_ok_def)
    ultimately show ?thesis using inv(3) rm by (simp add: k' sched_inv_def)
  qed
qed

lemma spawn_on_keeps:
  assumes k: "sched_inv on k" and fresh: "unclaimed k (fst (threads_insert_in_place k page stack (\<lambda>_. thread_spawned)))"
  shows "keeps on (spawn_on c target page stack k)"
proof (cases "threads_insert_in_place k page stack (\<lambda>_. thread_spawned)")
  case (Pair r k1)
  note inv = sched_invD [OF k]
  show ?thesis
  proof (cases r)
    case None
    then show ?thesis using Pair insert_in_place_None [OF k, of page stack] by (simp add: spawn_on_def)
  next
    case (Some t)
    then obtain p where p: "threads_insert_from_page k p (\<lambda>_. thread_spawned) = (Some t, k1)"
      using Pair by (auto simp: threads_insert_in_place_def split: option.splits prod.splits if_splits)
    note v = insert_thread [OF inv(1) p]
    let ?th = "thread_spawned\<lparr>tcb_page := p\<rparr> :: 'a thread"
    let ?e = "?th\<lparr>handshake := embryo\<rparr>"
    let ?v = "(view k)\<lparr>vT := (vT (view k))(t := Some ?e)\<rparr>"
    have un: "\<not> holds_reply (view k) t u s" for u s using fresh Pair Some by (simp add: unclaimed_def)
    have e: "view_inv on ?v"
      by (rule inv_new [OF inv(3) v(1)]) (use un in \<open>simp_all add: fresh_threads embryo_def\<close>)
    have nr: "\<not> holds_reply ?v t u s" for u s
      using un by (simp add: holds_reply_def fresh_threads)
    have uq: "unqueued ?v t"
      by (rule not_parked_unqueued [OF e, of t ?e]) (simp_all add: embryo_def)
    let ?Q = "if target = c then (runq k)(c := runq k c @ [t]) else runq k"
    let ?X = "if target = c then inbox k else (inbox k)(target := inbox k target @ [t])"
    have "view_inv on (?v\<lparr>vT := (vT ?v)(t := Some ?th), vQ := ?Q, vX := ?X\<rparr>)"
      by (rule inv_make_ready [OF e _ uq nr, of ?e ?th _ target])
        (simp_all add: fresh_threads embryo_def fewer_replies_def)
    moreover have "runq k1 = runq k" "inbox k1 = inbox k"
      using p by (auto simp: threads_insert_from_page_def split: prod.splits)
    ultimately have "view_inv on (view (place_on c target t k1))"
      by (cases "target = c") (simp_all add: view_place_on v(2))
    then have "sched_inv on (place_on c target t k1)" using inv(2) v(3,4) by (intro sched_invI) simp_all
    moreover have "threads_get k1 t \<noteq> None" by (simp add: v(2))
    ultimately show ?thesis using Pair Some by (auto simp: spawn_on_def tcb_ptr_def unwrap_def)
  qed
qed

lemma steal_inv:
  assumes k: "sched_inv on k" and r: "r \<noteq> c" "switched_from k c = None"
  shows "sched_inv on (serve_steal_request c r k)"
proof (cases "runq k c")
  case Nil
  then show ?thesis using k by (simp add: serve_steal_request_def)
next
  case (Cons t q)
  note inv = sched_invD [OF k]
  have "view (serve_steal_request c r k) = (view k)\<lparr>vQ := (runq k)(c := q), vX := (inbox k)(r := inbox k r @ [t])\<rparr>"
    using Cons by (subst view_same [where k = k]) (simp_all add: serve_steal_request_def view_def)
  moreover have "view_inv on ((view k)\<lparr>vQ := (vQ (view k))(c := q), vX := (vX (view k))(r := vX (view k) r @ [t])\<rparr>)"
    by (rule inv_steal [OF inv(3)]) (use Cons r in simp_all)
  ultimately show ?thesis
    using inv Cons by (intro sched_invI) (simp_all add: serve_steal_request_def tables_ok_def idles_ok_def)
qed

lemma drain_inv:
  assumes k: "sched_inv on k"
  shows "sched_inv on (drain_inbox c k)"
proof -
  note inv = sched_invD [OF k]
  have "view (drain_inbox c k) = (view k)\<lparr>vQ := (runq k)(c := runq k c @ inbox k c), vX := (inbox k)(c := [])\<rparr>"
    by (subst view_same [where k = k]) (simp_all add: drain_inbox_def view_def)
  then show ?thesis using inv_drain [OF inv(3), of c] inv
    by (intro sched_invI) (simp_all add: drain_inbox_def tables_ok_def idles_ok_def)
qed

lemma delete_others_inv:
  assumes "sched_inv on k"
  shows "sched_inv on (delete_device_frame_caps_from_others c phys k)"
proof -
  let ?step = "\<lambda>k t. if t = current k c then k
    else threads_get_mut k t (\<lambda>th. th\<lparr>cspace := delete_object (DeviceFrame_obj phys) (cspace th)\<rparr>)"
  have step: "sched_inv on (?step k t)" if k: "sched_inv on k" for k :: "'a sched" and t
  proof (cases "vT (view k) t")
    case None
    then have "(vT (view k))(t := None) = vT (view k)" by auto
    then have "view (threads_get_mut k t f) = view k" for f using sched_invD(1) [OF k] None by simp
    then show ?thesis using sched_invD [OF k] by (simp add: sched_inv_def)
  next
    case (Some th)
    let ?f = "\<lambda>th. th\<lparr>cspace := delete_object (DeviceFrame_obj phys) (cspace th)\<rparr>"
    note ok = inv_caps [OF sched_invD(3) [OF k] Some]
    have "fewer_replies t th (?f th)"
      by (rule fewer_replies_sub [OF ok]) (use ok delete_object_caps in \<open>simp_all add: caps_ok_def\<close>)
    then have "sched_inv on (threads_get_mut k t ?f)"
      by (intro update_inv [OF k Some]) (simp_all add: same_core_def)
    then show ?thesis using k by simp
  qed
  have "sched_inv on (foldl ?step k ts)" for ts
    using assms by (induction ts arbitrary: k) (simp_all add: step del: if_split)
  then show ?thesis by (simp add: delete_device_frame_caps_from_others_def)
qed

lemma kill_thread_inv:
  assumes k: "sched_inv on k" and i: "\<forall>d \<in> on. idle k d \<noteq> Some t"
  shows "sched_inv on (snd (kill_thread t k))"
  using k update_inv [OF k] fewer_repliesI [OF sched_invD(3) [OF k]] i
  by (auto simp: kill_thread_def same_core_def split: option.split)

lemma take_aborted_inv:
  assumes k: "sched_inv on k"
  shows "sched_inv on (snd (take_ipc_aborted c k))"
  using k update_inv [OF k] fewer_repliesI [OF sched_invD(3) [OF k]]
  by (auto simp: take_ipc_aborted_def take_aborted_def same_core_def split: option.split)

section \<open>The scheduler as a transition system\<close>

text \<open>
  One critical section of the scheduler: what a core may do next, and the guard under which the
  kernel's own call sites do it. An operation on behalf of the running thread is done while that
  thread runs (\<open>runs\<close>), so that a thread that has parked does nothing before \<open>schedule\<close>; a capability
  granted, sent or inserted by a call site is not a reply capability (SEND_CAP needs GRANT, which
  \<open>reply_cap\<close> lacks); a thread is not created under a name for which a reply capability is still held;
  an endpoint's page does not host another endpoint; the idle threads are on the kernel's pages, not
  in a region that is torn down.
\<close>

datatype 's sched_op =
    Send_op ep_id "u64 list"
  | Recv_op ep_id
  | SendCap_op ep_id u64 kcap
  | RecvCap_op ep_id
  | Call_op ep_id "u64 list"
  | Reply_op u64 tid "u64 list"
  | TakeAborted_op
  | Exit_op
  | Fault_op u64 u64
  | IrqNotify_op nat ep_id
  | Schedule_op
  | FinishSwitch_op
  | DrainInbox_op
  | ServeSteal_op nat
  | DeleteCap_op u64
  | Grant_op kcap
  | GrantAt_op u64 kcap
  | DeleteFrameCaps_op u64
  | DeleteDeviceCaps_op u64
  | CreateTcb_op u64 u64
  | TcbInsertCap_op tid kcap "u64 option"
  | ConfigureTcb_op tid u64 u64 's
  | StartTcb_op bool nat tid "u64 list"
  | CreateEndpoint_op "u64 option"
  | Spawn_op nat "u64 option" bool
  | Kill_op tid
  | Reap_op u64 u64

fun sched_step :: "nat \<Rightarrow> 's sched_op \<Rightarrow> 's sched \<Rightarrow> 's sched checked option" where
  "sched_step c (Send_op ep m) k = Some (map_sum id snd (ipc_send c ep m k))"
| "sched_step c (Recv_op ep) k = Some (map_sum id snd (ipc_recv c ep k))"
| "sched_step c (SendCap_op ep d cap) k = Some (map_sum id snd (ipc_send_cap c ep d cap k))"
| "sched_step c (RecvCap_op ep) k = Some (map_sum id snd (ipc_recv_cap c ep k))"
| "sched_step c (Call_op ep m) k = Some (map_sum id snd (ipc_call c ep m k))"
| "sched_step c (Reply_op slot caller m) k = Some (Ok (reply_and_consume c slot caller m k))"
| "sched_step c TakeAborted_op k = Some (Ok (snd (take_ipc_aborted c k)))"
| "sched_step c Exit_op k = Some (exit_current c k)"
| "sched_step c (Fault_op pc addr) k = Some (fault_current c pc addr k)"
| "sched_step c (IrqNotify_op target ep) k = Some (map_sum id snd (irq_notify c target ep k))"
| "sched_step c Schedule_op k = Some (map_sum id snd (schedule c k))"
| "sched_step c FinishSwitch_op k = Some (Ok (sched_finish_switch c k))"
| "sched_step c DrainInbox_op k = Some (Ok (drain_inbox c k))"
| "sched_step c (ServeSteal_op r) k = Some (Ok (serve_steal_request c r k))"
| "sched_step c (DeleteCap_op slot) k = Some (Ok (snd (delete_current_cap c slot k)))"
| "sched_step c (Grant_op cap) k = Some (Ok (snd (grant c cap k)))"
| "sched_step c (GrantAt_op slot cap) k = Some (Ok (snd (grant_at c slot cap k)))"
| "sched_step c (DeleteFrameCaps_op phys) k = Some (Ok (delete_frame_caps phys k))"
| "sched_step c (DeleteDeviceCaps_op phys) k = Some (Ok (delete_device_frame_caps_from_others c phys k))"
| "sched_step c (CreateTcb_op region page) k = Some (Ok (snd (create_tcb_at region page k)))"
| "sched_step c (TcbInsertCap_op t cap target) k = Some (Ok (snd (tcb_insert_cap t cap target k)))"
| "sched_step c (ConfigureTcb_op t ent sp s) k = Some (Ok (snd (configure_tcb t ent sp s k)))"
| "sched_step c (StartTcb_op armed target t args) k = Some (Ok (snd (start_tcb c armed target t args k)))"
| "sched_step c (CreateEndpoint_op page) k = Some (Ok (snd (create_endpoint_at page k)))"
| "sched_step c (Spawn_op target page stack) k = Some (map_sum id snd (spawn_on c target page stack k))"
| "sched_step c (Kill_op t) k = Some (Ok (snd (kill_thread t k)))"
| "sched_step c (Reap_op lo hi) k = map_option (map_sum id snd) (reap_region_objects c lo hi k)"

definition no_reply_for :: "tid option \<Rightarrow> 's sched \<Rightarrow> bool" where
  "no_reply_for name k \<longleftrightarrow>
     (case name of
        None \<Rightarrow> True
      | Some t \<Rightarrow> list_all (\<lambda>th. list_all (\<lambda>oc. case oc of None \<Rightarrow> True | Some cp \<Rightarrow> object cp \<noteq> Reply_obj t)
          (cs_slots (cspace th))) (table_values (threads k)))"

definition unhosted :: "u64 option \<Rightarrow> 's sched \<Rightarrow> bool" where
  "unhosted page k \<longleftrightarrow> (case page of None \<Rightarrow> True | Some phys \<Rightarrow> \<not> List.member (table_values (endpoints k)) phys)"

definition idles_outside :: "nat set \<Rightarrow> u64 \<Rightarrow> u64 \<Rightarrow> 's sched \<Rightarrow> bool" where
  "idles_outside on lo hi k \<longleftrightarrow>
     (\<forall>d \<in> on. case Option.bind (idle k d) (threads_get k) of None \<Rightarrow> True | Some th \<Rightarrow> \<not> resident lo hi th)"

fun allowed :: "nat set \<Rightarrow> nat \<Rightarrow> 's sched_op \<Rightarrow> 's sched \<Rightarrow> bool" where
  "allowed on c (Send_op ep m) k = runs on c k"
| "allowed on c (Recv_op ep) k = runs on c k"
| "allowed on c (SendCap_op ep d cap) k = (runs on c k \<and> \<not> is_reply (Some cap))"
| "allowed on c (RecvCap_op ep) k = runs on c k"
| "allowed on c (Call_op ep m) k = runs on c k"
| "allowed on c (Reply_op slot caller m) k =
     (runs on c k \<and> (case current_cap c slot k of Ok cp \<Rightarrow> object cp = Reply_obj caller | Err _ \<Rightarrow> False))"
| "allowed on c Exit_op k = runs on c k"
| "allowed on c (Fault_op pc addr) k = runs on c k"
| "allowed on c Schedule_op k = (c \<in> on \<and> switched_from k c = None)"
| "allowed on c FinishSwitch_op k = (c \<in> on)"
| "allowed on c (ServeSteal_op r) k = (r \<noteq> c \<and> switched_from k c = None)"
| "allowed on c (DeleteCap_op slot) k = (c \<in> on)"
| "allowed on c (Grant_op cap) k = (\<not> is_reply (Some cap))"
| "allowed on c (GrantAt_op slot cap) k = (\<not> is_reply (Some cap))"
| "allowed on c (CreateTcb_op region page) k = no_reply_for (fst (create_tcb_at region page k)) k"
| "allowed on c (TcbInsertCap_op t cap target) k = (\<not> is_reply (Some cap))"
| "allowed on c (CreateEndpoint_op page) k = unhosted page k"
| "allowed on c (Spawn_op target page stack) k =
     no_reply_for (fst (threads_insert_in_place k page stack (\<lambda>_. thread_spawned))) k"
| "allowed on c (Kill_op t) k = (\<forall>d \<in> on. idle k d \<noteq> Some t)"
| "allowed on c (Reap_op lo hi) k = idles_outside on lo hi k"
| "allowed on c _ k = True"

inductive sched_reach :: "nat set \<Rightarrow> 's sched \<Rightarrow> bool" where
  boot: "sched_init c boot_page stack idle_page = Ok k \<Longrightarrow> sched_reach {c} k"
| online: "sched_reach on k \<Longrightarrow> c \<notin> on \<Longrightarrow> switched_from k c = None \<Longrightarrow> idle k c = None \<Longrightarrow>
    no_reply_for (fst (threads_insert_with k page (\<lambda>_. thread_adopt_current))) k \<Longrightarrow>
    adopt_secondary_idle c page k = Ok k' \<Longrightarrow> sched_reach (insert c on) k'"
| step: "sched_reach on k \<Longrightarrow> allowed on c x k \<Longrightarrow> sched_step c x k = Some (Ok k') \<Longrightarrow> sched_reach on k'"

definition step_keeps :: "nat set \<Rightarrow> 's sched checked option \<Rightarrow> bool" where
  "step_keeps on r \<longleftrightarrow> (\<exists>k. r = Some (Ok k) \<and> sched_inv on k)"

lemma step_keepsI [intro]:
  "sched_inv on k \<Longrightarrow> step_keeps on (Some (Ok k))"
  "keeps on m \<Longrightarrow> step_keeps on (Some (map_sum id snd m))"
  "\<exists>k'. m' = Ok k' \<and> sched_inv on k' \<Longrightarrow> step_keeps on (Some m')"
  by (auto simp: step_keeps_def keeps_def)

lemma no_reply_unclaimed:
  assumes "tables_ok k" "no_reply_for name k"
  shows "unclaimed k name"
proof -
  have wf: "table_wf (threads k)" using assms(1) by (simp add: tables_ok_def)
  have "object cp \<noteq> Reply_obj t"
    if t: "name = Some t" and u: "vT (view k) u = Some th" and c: "cap_at (cspace th) s = Some cp" for t u th s cp
  proof -
    have "table_get (threads k) u = Some th" using u by (simp add: view_def threads_get_def [abs_def])
    then have "th \<in> set (table_values (threads k))" by (auto simp: table_values_iff [OF wf])
    moreover have "Some cp \<in> set (cs_slots (cspace th))"
      using c by (fastforce simp: cap_at_alt in_set_conv_nth split: if_splits)
    ultimately show ?thesis using assms(2) t by (force simp: no_reply_for_def list_all_iff)
  qed
  then show ?thesis by (auto simp: unclaimed_def holds_reply_def thr_iff names_reply_def)
qed

lemma step_inv:
  assumes k: "sched_inv on k" and a: "allowed on c x k"
  shows "step_keeps on (sched_step c x k)"
proof (cases x)
  case (Reply_op slot caller m)
  with a obtain cp where "runs on c k" "current_cap c slot k = Ok cp" "object cp = Reply_obj caller"
    by (auto split: sum.splits)
  then have "sched_inv on (reply_and_consume c slot caller m k)" by (rule reply_inv [OF k])
  then show ?thesis using Reply_op by auto
next
  case Exit_op
  then show ?thesis using depart_inv [OF k] a by (auto simp: exit_current_def intro: step_keepsI(3))
next
  case (Fault_op pc addr)
  then show ?thesis using depart_inv [OF k] a by (auto simp: fault_current_def intro: step_keepsI(3))
next
  case (DeleteCap_op slot)
  then obtain th where "vT (view k) (current k c) = Some th"
    using inv_current [OF sched_invD(3) [OF k], of c] a by auto
  then show ?thesis using DeleteCap_op delete_current_cap_inv [OF k] by auto
next
  case (CreateEndpoint_op page)
  have "table_wf (endpoints k)" using sched_invD(1) [OF k] by (simp add: tables_ok_def)
  then have "\<And>n phys. page = Some phys \<Longrightarrow> table_get (endpoints k) n \<noteq> Some phys"
    using a CreateEndpoint_op by (auto simp: unhosted_def table_values_iff)
  then show ?thesis using CreateEndpoint_op create_endpoint_inv [OF k] by auto
next
  case (Reap_op lo hi)
  have "\<not> resident lo hi th" if "d \<in> on" "idle k d = Some t" "vT (view k) t = Some th" for d t th
    using a Reap_op that by (force simp: idles_outside_def)
  then have "\<exists>r k'. reap_region_objects c lo hi k = Some (Ok (r, k')) \<and> sched_inv on k'"
    using reap_region_inv [OF k, of lo hi c] by blast
  then show ?thesis using Reap_op by (auto simp: step_keeps_def)
qed (use a k in \<open>simp_all add: step_keepsI ipc_send_keeps ipc_recv_keeps ipc_send_cap_keeps ipc_recv_cap_keeps
    ipc_call_keeps take_aborted_inv irq_notify_keeps schedule_keeps finish_switch_inv drain_inv steal_inv
    grant_inv delete_frame_caps_inv delete_others_inv create_tcb_inv tcb_insert_cap_inv configure_tcb_inv
    start_tcb_inv spawn_on_keeps kill_thread_inv no_reply_unclaimed sched_invD(1)\<close>)

lemma init_page: "sched_init c boot_page stack idle_page = Ok k \<Longrightarrow>
    \<exists>p q. boot_page = Some p \<and> stack \<and> idle_page = Some q"
  by (auto simp: sched_init_def unwrap_def rust_assert_def Let_def threads_insert_with_def
      split: option.splits prod.splits if_splits)

lemma reach_inv: "sched_reach on k \<Longrightarrow> sched_inv on k"
proof (induction rule: sched_reach.induct)
  case (boot c boot_page stack idle_page k)
  obtain p q where pq: "boot_page = Some p" "stack" "idle_page = Some q" using init_page [OF boot] by blast
  show ?case by (rule sched_init_ok) (use boot pq in simp)
next
  case (online on k c page k')
  then show ?case
    using adopt_inv [OF online.IH online(2-4) no_reply_unclaimed [OF sched_invD(1) [OF online.IH] online(5)] online(6)] by simp
next
  case (step on k c x k')
  then show ?case using step_inv [of on k c x] by (auto simp: step_keeps_def)
qed

text \<open>A run of guarded steps, executable: None when a guard fails or a step does not return a state.\<close>

fun sched_exec :: "nat set \<Rightarrow> (nat \<times> 's sched_op) list \<Rightarrow> 's sched \<Rightarrow> 's sched option" where
  "sched_exec on [] k = Some k"
| "sched_exec on ((c, x) # xs) k =
     (if allowed on c x k
      then (case sched_step c x k of Some (Ok k') \<Rightarrow> sched_exec on xs k' | _ \<Rightarrow> None) else None)"

lemma exec_reach: "sched_exec on xs k = Some k' \<Longrightarrow> sched_reach on k \<Longrightarrow> sched_reach on k'"
  by (induction on xs k rule: sched_exec.induct)
    (auto split: if_splits option.splits sum.splits intro: sched_reach.step)

definition booted :: "unit sched" where
  "booted = (case sched_init 0 (Some 0x1000) True (Some 0x2000) of Ok k \<Rightarrow> k | Err _ \<Rightarrow> sched_new)"

lemma booted_reach: "sched_reach {0} booted"
proof -
  obtain k :: "unit sched" where k: "sched_init 0 (Some 0x1000) True (Some 0x2000) = Ok k"
    using sched_init_inv by blast
  then have "booted = k" by (simp add: booted_def)
  then show ?thesis using sched_reach.boot [OF k] by simp
qed

end
