(* ===== verification/SchedClaims.thy ===== *)
theory SchedClaims
  imports SchedSteps
begin

text \<open>
  What the invariant says of the scheduler's reachable states, in the terms of the source: no
  assertion fires, the queues hold only parked or ready threads, a core stands alone on a stack, a
  reply capability is used once, a region is torn down completely, and what a switch, a send and a
  placement do. The last theorem is a run that shows a capability escaping.
\<close>

section \<open>Reading the invariant\<close>

lemma reach_view: "sched_reach on k \<Longrightarrow> view_inv on (view k)"
  using reach_inv sched_invD(3) by blast

lemma reach_queue:
  assumes "sched_reach on k" "endpoint_of k ep = Some (phys, e)"
  shows "distinct (asenders e @ areceivers e)"
    and "t \<in> set (asenders e) \<Longrightarrow> \<exists>th. vT (view k) t = Some th \<and> parked_sender ep th"
    and "t \<in> set (areceivers e) \<Longrightarrow> \<exists>th. vT (view k) t = Some th \<and> parked_receiver ep (handshake th)"
proof -
  note inv = reach_view [OF assms(1)]
  note q = endpoint_of_view [OF assms(2)]
  show "t \<in> set (asenders e) \<Longrightarrow> \<exists>th. vT (view k) t = Some th \<and> parked_sender ep th"
    "t \<in> set (areceivers e) \<Longrightarrow> \<exists>th. vT (view k) t = Some th \<and> parked_receiver ep (handshake th)"
    using inv_sender [OF inv, of t ep] inv_receiver [OF inv, of t ep] q by simp_all
  show "distinct (asenders e @ areceivers e)"
    using inv_distinct(1,2) [OF inv, of ep] queued_once(3) [OF inv, of _ ep ep] q by auto
qed

lemma reach_placed:
  assumes r: "sched_reach on k" and t: "t \<in> set (runq k c @ inbox k c)"
  shows "\<exists>th. vT (view k) t = Some th \<and> hst th = Ready \<and> (on_cpu (handshake th) \<longrightarrow> switched_from k c = Some t)"
proof -
  note inv = reach_view [OF r]
  have p: "t \<in> placed (view k) c" using t by (simp add: placed_def)
  then obtain th where th: "vT (view k) t = Some th" "hst th = Ready" using inv_placed [OF inv] by blast
  have "switched_from k c = Some t" if oc: "on_cpu (handshake th)"
  proof -
    obtain d where "vsw (view k) d = Some t" "t \<in> set (vQ (view k) d)"
      using inv_standing [OF inv th(1)] th(2) oc unfolding standing_ok_def by blast
    then show ?thesis using inv_distinct(5) [OF inv p, of d] by (simp add: placed_def)
  qed
  then show ?thesis using th by blast
qed

lemma reach_placed_apart:
  assumes "sched_reach on k"
  shows "distinct (runq k c @ inbox k c)"
    and "d \<noteq> c \<Longrightarrow> set (runq k c @ inbox k c) \<inter> set (runq k d @ inbox k d) = {}"
proof -
  note inv = reach_view [OF assms]
  show "distinct (runq k c @ inbox k c)" using inv_distinct(3) [OF inv, of c] by simp
  show "d \<noteq> c \<Longrightarrow> set (runq k c @ inbox k c) \<inter> set (runq k d @ inbox k d) = {}"
    using inv_distinct(5) [OF inv, of _ c d] by (auto simp: placed_def)
qed

text \<open>What a switch does to the core's own state, from the code.\<close>

lemma schedule_head:
  assumes "schedule c k = Ok (r, k')" "runq k c = u # q"
  shows "r" "current k' = (current k)(c := u)" "switched_from k' = (switched_from k)(c := Some (current k c))"
    "inbox k' = inbox k" "set (runq k' c) \<subseteq> insert (current k c) (set q)"
  using assms
  by (auto simp: schedule_def switch_to_def Let_def and_then_def unwrap_def push_runq_def threads_get_mut_def
      split: option.splits if_splits sum.splits)

lemma endpoint_of_push [simp]: "endpoint_of (push_runq c t k) = endpoint_of k"
  by (simp add: push_runq_def endpoint_of_def fun_eq_iff)

lemma view_switched: "view (k\<lparr>current := x, switched_from := y\<rparr>) = (view k)\<lparr>vcur := x, vsw := y\<rparr>"
  by (simp add: view_def threads_get_def [abs_def] endpoint_of_def)

lemma switch_to_runs:
  assumes "tables_ok k" "switch_to c cur r u k = Ok (b, k')"
  shows "\<exists>th. vT (view k') u = Some th \<and> hst th = Running \<and> on_cpu (handshake th)"
  using assms
  by (auto simp: switch_to_def and_then_def unwrap_def view_switched switch_in_def rust_assert_def
      split: if_splits sum.splits option.splits)

lemma schedule_head_runs:
  assumes "tables_ok k" "schedule c k = Ok (r, k')" "runq k c = u # q"
  shows "\<exists>th. vT (view k') u = Some th \<and> hst th = Running \<and> on_cpu (handshake th)"
    and "runq k' c = q \<or> runq k' c = q @ [current k c]"
proof -
  define k1 where "k1 = (case threads_get k (current k c) of None \<Rightarrow> k | Some t \<Rightarrow>
    if killed t \<and> hst t = Running
    then threads_get_mut k (current k c) (\<lambda>th. th\<lparr>handshake := (handshake th)\<lparr>state := Finished\<rparr>\<rparr>) else k)"
  define b where "b = (map_option hst (threads_get k1 (current k c)) = Some Running)"
  have k1: "tables_ok k1" "switch_to c (current k c) b u (k1\<lparr>runq := (runq k1)(c := q)\<rparr>) = Ok (r, k')"
    "runq k1 = runq k"
  proof -
    show same: "runq k1 = runq k" by (simp add: k1_def split: option.split)
    show "tables_ok k1" using assms(1) by (simp add: k1_def split: option.split)
    have "schedule c k = switch_to c (current k c) b u (k1\<lparr>runq := (runq k1)(c := q)\<rparr>)"
      unfolding schedule_def Let_def k1_def [symmetric] b_def [symmetric] using same assms(3) by simp
    then show "switch_to c (current k c) b u (k1\<lparr>runq := (runq k1)(c := q)\<rparr>) = Ok (r, k')" using assms(2) by simp
  qed
  have ok: "tables_ok (k1\<lparr>runq := (runq k1)(c := q)\<rparr>)" using k1(1) by (simp add: tables_ok_def)
  show "\<exists>th. vT (view k') u = Some th \<and> hst th = Running \<and> on_cpu (handshake th)"
    by (rule switch_to_runs [OF ok k1(2)])
  show "runq k' c = q \<or> runq k' c = q @ [current k c]"
    using k1(2,3) by (auto simp: switch_to_def and_then_def unwrap_def split: if_splits sum.splits option.splits)
qed

lemma deliver_parked:
  assumes ok: "tables_ok k" and r: "vT (view k) r = Some rh" "parked_receiver ep (handshake rh)"
  shows "\<exists>th. vT (view (deliver_to c r msg k)) r = Some th \<and> mailbox th = msg \<and>
    endpoint_of (deliver_to c r msg k) = endpoint_of k \<and>
    (if on_cpu (handshake th) then hst th = Blocked \<and> wake_pending (handshake th)
     else hst th = Ready \<and> runq (deliver_to c r msg k) c = runq k c @ [r])"
  using assms
  by (auto simp: deliver_to_def wake_def Let_def try_wake_def serve_def delivered_def parked_receiver_def
      )

lemma wake_fold:
  "let (t, l) = foldl (\<lambda>(best, best_load) c.
       if c = here then (best, best_load)
       else if runnable k c < best_load then (c, runnable k c) else (best, best_load)) (b, load) online
   in load = runnable k b \<longrightarrow> l = runnable k t \<and> t \<in> insert b (set online) \<and> l \<le> load \<and> (t = b \<or> l < load) \<and>
     (\<forall>c \<in> set online. c \<noteq> here \<longrightarrow> l \<le> runnable k c)"
proof (induction online arbitrary: b load)
  case (Cons a online)
  show ?case
    using Cons.IH [of b load] Cons.IH [of a "runnable k a"] by (auto simp: split_beta Let_def)
qed simp

section \<open>Concrete runs\<close>

text \<open>
  One core, from boot. The boot thread is named 0, the idle thread 1 and a spawned one 2; the first
  endpoint is named 0.
\<close>

definition with_peer :: "(nat \<times> unit sched_op) list" where
  "with_peer = [(0, CreateEndpoint_op (Some 0x10000)), (0, CreateEndpoint_op (Some 0x11000)),
     (0, Spawn_op 0 (Some 0x3000) True)]"

definition switching :: "(nat \<times> unit sched_op) list" where
  "switching = [(0, Schedule_op), (0, FinishSwitch_op)]"

definition peered :: "unit sched" where
  "peered = the (sched_exec {0} with_peer booted)"

definition receiver_waits :: "unit sched" where
  "receiver_waits = the (sched_exec {0} (with_peer @ (0, Recv_op 0) # switching) booted)"

definition call_served :: "unit sched" where
  "call_served = the (sched_exec {0} (with_peer @ (0, Call_op 0 [7, 8, 9]) # switching @ [(0, RecvCap_op 0)]) booted)"

definition offered_elsewhere :: "(nat \<times> unit sched_op) list" where
  "offered_elsewhere = with_peer @ (0, SendCap_op 0 7 (frame_cap 0x5000 RIGHTS_READ)) # switching @
     (0, Recv_op 0) # switching"

lemma exec_reach_the: "sched_exec on xs k \<noteq> None \<Longrightarrow> sched_reach on k \<Longrightarrow> sched_reach on (the (sched_exec on xs k))"
  by (auto intro: exec_reach)

lemma peered_reach: "sched_reach {0} peered"
proof -
  have "sched_exec {0} with_peer booted \<noteq> None" by code_simp
  then show ?thesis unfolding peered_def by (rule exec_reach_the [OF _ booted_reach])
qed

lemma receiver_waits_reach: "sched_reach {0} receiver_waits"
proof -
  have "sched_exec {0} (with_peer @ (0, Recv_op 0) # switching) booted \<noteq> None" by code_simp
  then show ?thesis unfolding receiver_waits_def by (rule exec_reach_the [OF _ booted_reach])
qed

lemma call_served_reach: "sched_reach {0} call_served"
proof -
  have "sched_exec {0} (with_peer @ (0, Call_op 0 [7, 8, 9]) # switching @ [(0, RecvCap_op 0)]) booted \<noteq> None"
    by code_simp
  then show ?thesis unfolding call_served_def by (rule exec_reach_the [OF _ booted_reach])
qed

lemma receiver_waits_endpoint:
  "endpoint_of receiver_waits 0 = Some (0x10000, \<lparr>asenders = [], areceivers = [0], apending = 0\<rparr>)"
  by code_simp

section \<open>Properties\<close>



text \<open>C6. The wait queues of every live endpoint are sound in every reachable state: nobody is queued
  twice, everybody queued is a live thread parked on this very endpoint, in the role of its queue,
  and is blocked (or a corpse whose death message waits for its supervisor).\<close>

theorem wait_queues_sound:
  assumes "sched_reach on k" and "endpoint_of k ep = Some (phys, e)"
  shows "distinct (asenders e @ areceivers e) \<and>
    (\<forall>t \<in> set (asenders e). \<exists>th. threads_get k t = Some th \<and>
       (state (handshake th) = Blocked \<or> state (handshake th) = Dead \<and> fault_ep th = Some ep) \<and>
       (wait_on (handshake th) = Some (ep, Sender) \<or> wait_on (handshake th) = Some (ep, AwaitReply))) \<and>
    (\<forall>t \<in> set (areceivers e). \<exists>th. threads_get k t = Some th \<and>
       state (handshake th) = Blocked \<and> wait_on (handshake th) = Some (ep, Receiver))"
  using reach_queue [OF assms] by (fastforce simp: parked_sender_def parked_receiver_def Let_def)

theorem wait_queues_sound_witness:
  "sched_reach {0} receiver_waits \<and>
   endpoint_of receiver_waits 0 = Some (0x10000, \<lparr>asenders = [], areceivers = [0], apending = 0\<rparr>) \<and>
   (\<exists>th. threads_get receiver_waits 0 = Some th \<and>
      state (handshake th) = Blocked \<and> wait_on (handshake th) = Some (0, Receiver))"
  using wait_queues_sound [OF receiver_waits_reach receiver_waits_endpoint] receiver_waits_reach receiver_waits_endpoint
  by simp

text \<open>C7. The run queues and inboxes are sound in every reachable state: a thread is on at most one of
  them and once, it is alive and ready, and if its last core still stands on its stack then that core
  is the one that holds it and is between its switch decision and \<open>finish_switch\<close>.\<close>

theorem run_queues_sound:
  assumes "sched_reach on k"
  shows "distinct (runq k c @ inbox k c) \<and>
    (\<forall>d. d \<noteq> c \<longrightarrow> set (runq k c @ inbox k c) \<inter> set (runq k d @ inbox k d) = {}) \<and>
    (\<forall>t \<in> set (runq k c @ inbox k c). \<exists>th. threads_get k t = Some th \<and> state (handshake th) = Ready \<and>
       (on_cpu (handshake th) \<longrightarrow> switched_from k c = Some t))"
  using reach_placed [OF assms] reach_placed_apart [OF assms] by (auto simp del: set_append)

theorem run_queues_sound_witness:
  "sched_reach {0} peered \<and> runq peered 0 = [2] \<and>
   (\<exists>th. threads_get peered 2 = Some th \<and> state (handshake th) = Ready \<and> distinct (runq peered 0 @ inbox peered 0))"
proof -
  have q: "runq peered 0 = [2]" by code_simp
  have "2 \<in> set (runq peered 0 @ inbox peered 0)" using q by simp
  then show ?thesis using run_queues_sound [OF peered_reach, of 0] peered_reach q by blast
qed

text \<open>C8. Two cores never run the same thread, and the thread a core runs is alive, is marked as on a
  CPU and waits in no run queue or inbox.\<close>

theorem one_core_per_thread:
  assumes "sched_reach on k" and "c \<in> on"
  shows "(\<forall>d \<in> on. current k d = current k c \<longrightarrow> d = c) \<and>
    (\<exists>th. threads_get k (current k c) = Some th \<and> on_cpu (handshake th)) \<and>
    (\<forall>d. current k c \<notin> set (runq k d @ inbox k d))"
proof -
  note inv = reach_view [OF assms(1)]
  obtain th where th: "vT (view k) (current k c) = Some th" "on_cpu (handshake th)" "hst th \<noteq> Ready"
    using inv_current [OF inv assms(2)] by auto
  have "current k c \<notin> set (runq k d @ inbox k d)" for d
    using reach_placed [OF assms(1), of "current k c" d] th by auto
  then show ?thesis using inv_distinct(4) [OF inv] assms(2) th by (auto simp: inj_on_def)
qed

theorem one_core_per_thread_witness:
  "sched_reach {0} peered \<and> (\<exists>th. threads_get peered (current peered 0) = Some th \<and> on_cpu (handshake th)) \<and>
   current peered 0 \<notin> set (runq peered 0 @ inbox peered 0)"
  using one_core_per_thread [OF peered_reach, of 0] peered_reach by blast



text \<open>C17. Tearing down a region always returns, and leaves no endpoint of the region. When it succeeds
  no thread of the region is left either, so that its pages may be reused; when it refuses, some thread
  of the region is still on a CPU or has been marked for death.\<close>

theorem region_teardown_complete:
  assumes "sched_reach on k" and "idles_outside on lo hi k"
  shows "\<exists>r k'. reap_region_objects c lo hi k = Some (Ok (r, k')) \<and>
    (\<forall>n phys. table_get (endpoints k') n = Some phys \<longrightarrow> \<not> in_span lo hi phys) \<and>
    (if r = Ok () then \<forall>t th. threads_get k' t = Some th \<longrightarrow> \<not> resident lo hi th
     else \<exists>t th. threads_get k' t = Some th \<and> resident lo hi th \<and> (on_cpu (handshake th) \<or> killed th))"
proof -
  have "\<not> resident lo hi th" if "d \<in> on" "idle k d = Some t" "vT (view k) t = Some th" for d t th
    using assms(2) that by (force simp: idles_outside_def)
  then show ?thesis using reap_region_inv [OF reach_inv [OF assms(1)], of lo hi c] unfolding threads_get_view by blast
qed


theorem region_teardown_complete_witness:
  "sched_reach {0} peered \<and> idles_outside {0} 0x10000 0x12000 peered \<and>
   (\<exists>n phys. table_get (endpoints peered) n = Some phys \<and> in_span 0x10000 0x12000 phys) \<and>
   (\<exists>r k'. reap_region_objects 0 0x10000 0x12000 peered = Some (Ok (r, k')) \<and> table_get (endpoints k') 0 \<noteq> Some 0x10000)"
proof -
  have o: "idles_outside {0} 0x10000 0x12000 peered" by code_simp
  have e: "table_get (endpoints peered) 0 = Some 0x10000 \<and> in_span 0x10000 0x12000 0x10000" by code_simp
  show ?thesis
    using region_teardown_complete [OF peered_reach o, of 0] peered_reach o e by blast
qed

text \<open>C27. Scheduling is first in, first out: when the core's run queue is not empty, \<open>schedule\<close> switches
  to its head, which then runs and is marked as on a CPU; the thread it leaves is remembered for
  \<open>finish_switch\<close>, and the rest of the queue keeps its order, with the preempted thread at most added
  at the end.\<close>

theorem schedule_runs_queue_head:
  assumes "sched_reach on k" and "c \<in> on" and "switched_from k c = None" and "runq k c = u # q"
  shows "\<exists>k' th. schedule c k = Ok (True, k') \<and> current k' c = u \<and> switched_from k' c = Some (current k c) \<and>
    threads_get k' u = Some th \<and> state (handshake th) = Running \<and> on_cpu (handshake th) \<and>
    (runq k' c = q \<or> runq k' c = q @ [current k c])"
proof -
  obtain r k' where s: "schedule c k = Ok (r, k')"
    using schedule_keeps [OF reach_inv [OF assms(1)] assms(2,3)] by (auto simp: keeps_def)
  show ?thesis using s schedule_head [OF s assms(4)] schedule_head_runs [OF sched_invD(1) [OF reach_inv [OF assms(1)]] s assms(4)]
    by auto
qed

theorem schedule_runs_queue_head_witness:
  "sched_reach {0} peered \<and> switched_from peered 0 = None \<and> runq peered 0 = [2] \<and>
   (\<exists>k'. schedule 0 peered = Ok (True, k') \<and> current k' 0 = 2)"
proof -
  have q: "runq peered 0 = [2]" "switched_from peered 0 = None" by code_simp+
  show ?thesis using schedule_runs_queue_head [OF peered_reach _ q(2,1)] peered_reach q by auto
qed

text \<open>C26. A send to a waiting receiver delivers: the first receiver in the queue, and only that one,
  leaves the queue with the message in its mailbox; it is made ready on the sender's core, or, when
  another core has not yet left its stack, its wake is left to that core. The sender does not block.\<close>

theorem send_delivers:
  assumes "sched_reach on k" and "runs on c k" and "endpoint_of k ep = Some (phys, e)" and "areceivers e = r # rs"
  shows "\<exists>k' th. ipc_send c ep m k = Ok (False, k') \<and> threads_get k' r = Some th \<and> mailbox th = wide m \<and>
    endpoint_of k' ep = Some (phys, e\<lparr>areceivers := rs\<rparr>) \<and>
    (if on_cpu (handshake th) then state (handshake th) = Blocked \<and> wake_pending (handshake th)
     else state (handshake th) = Ready \<and> runq k' c = runq k c @ [r])"
proof -
  note ok = sched_invD(1) [OF reach_inv [OF assms(1)]]
  obtain rh where rh: "vT (view k) r = Some rh" "parked_receiver ep (handshake rh)"
    using reach_queue(3) [OF assms(1,3), of r] assms(4) by auto
  let ?k1 = "put_endpoint k phys (e\<lparr>areceivers := rs\<rparr>)"
  have k1: "tables_ok ?k1" "vT (view ?k1) r = Some rh" "runq ?k1 = runq k"
    "endpoint_of ?k1 ep = Some (phys, e\<lparr>areceivers := rs\<rparr>)"
    using ok rh(1) assms(3) by (simp_all add: view_put_endpoint [OF ok assms(3)])
      (auto simp: endpoint_of_def put_endpoint_def)
  have "ipc_send c ep m k = Ok (False, deliver_to c r (wide m) ?k1)"
    using assms(3,4) k1(2) by (simp add: ipc_send_def tcb_ptr_runs [OF assms(2)] asend_def unwrap_def)
  then show ?thesis using deliver_parked [OF k1(1,2) rh(2), of c "wide m"] k1 by auto
qed

theorem send_delivers_witness:
  "sched_reach {0} receiver_waits \<and> runs {0} 0 receiver_waits \<and>
   (\<exists>k' th. ipc_send 0 0 [1, 2, 3] receiver_waits = Ok (False, k') \<and> threads_get k' 0 = Some th \<and>
      mailbox th = [1, 2, 3, 0, 0])"
proof -
  have r: "runs {0} 0 receiver_waits" by code_simp
  have "areceivers \<lparr>asenders = [], areceivers = [0], apending = 0\<rparr> = [0 :: tid]" by simp
  from send_delivers [OF receiver_waits_reach r receiver_waits_endpoint this, of "[1, 2, 3]"]
  show ?thesis using receiver_waits_reach r by (auto simp: wide_def)
qed

text \<open>C39. The core chosen for an interrupt's wake is this one or an online one, no online core has less
  load, and a core other than this one is chosen only when it has strictly less load.\<close>

theorem wake_target_lightest:
  "let t = pick_wake_target here online k in
     t \<in> insert here (set online) \<and> (\<forall>c. c \<in> insert here (set online) \<longrightarrow> runnable k t \<le> runnable k c) \<and>
     (t = here \<or> runnable k t < runnable k here)"
  using wake_fold [where here = here and online = online and k = k and b = here and load = "runnable k here"] by (auto simp: pick_wake_target_def Let_def)

theorem wake_target_lightest_witness:
  "pick_wake_target 0 [0, 1] peered = 1 \<and> runnable peered 1 < runnable peered 0"
proof -
  have t: "pick_wake_target 0 [0, 1] peered = 1" by code_simp
  show ?thesis using wake_target_lightest [of 0 "[0, 1]" peered] t by (simp add: Let_def)
qed

text \<open>C18. A capability escapes. A thread that blocks in SEND_CAP keeps the capability it offered in
  \<open>outgoing_cap\<close>, and only RECV_CAP clears it: when a plain RECV collects the message, it stays. From
  boot there is a run to a state in which the boot thread runs and its peer holds no capability, the
  boot thread does a plain SEND of data on another endpoint, and the peer's RECV_CAP there returns a
  slot with the frame capability that the boot thread offered once, elsewhere.\<close>

theorem stale_outgoing_cap_leaks:
  "\<exists>k0 k1 slot k2. sched_reach {0} k0 \<and> current k0 0 = 0 \<and>
     sched_exec {0} ((0, Send_op 1 [1, 2, 3]) # switching) k0 = Some k1 \<and> current k1 0 = 2 \<and>
     map_option cspace (threads_get k1 2) = Some (cspace_new CSPACE_SLOTS) \<and>
     ipc_recv_cap 0 1 k1 = Ok (Some [1, slot, 2], k2) \<and>
     current_cap 0 slot k2 = Ok (frame_cap 0x5000 RIGHTS_READ)"
proof -
  have "(case sched_exec {0} offered_elsewhere booted of None \<Rightarrow> False | Some k0 \<Rightarrow> current k0 0 = 0 \<and>
      (case sched_exec {0} ((0, Send_op 1 [1, 2, 3]) # switching) k0 of None \<Rightarrow> False | Some k1 \<Rightarrow>
         current k1 0 = 2 \<and> map_option cspace (threads_get k1 2) = Some (cspace_new CSPACE_SLOTS) \<and>
         (case ipc_recv_cap 0 1 k1 of Err _ \<Rightarrow> False | Ok (r, k2) \<Rightarrow>
            r = Some [1, the r ! 1, 2] \<and> current_cap 0 (the r ! 1) k2 = Ok (frame_cap 0x5000 RIGHTS_READ))))"
    by code_simp
  then obtain k0 k1 r k2 where k: "sched_exec {0} offered_elsewhere booted = Some k0" "current k0 0 = 0"
    "sched_exec {0} ((0, Send_op 1 [1, 2, 3]) # switching) k0 = Some k1" "current k1 0 = 2"
    "map_option cspace (threads_get k1 2) = Some (cspace_new CSPACE_SLOTS)" "ipc_recv_cap 0 1 k1 = Ok (r, k2)"
    "r = Some [1, the r ! 1, 2]" "current_cap 0 (the r ! 1) k2 = Ok (frame_cap 0x5000 RIGHTS_READ)"
    by (simp only: split: option.splits sum.splits prod.splits) blast+
  show ?thesis using exec_reach [OF k(1) booted_reach] k(2-6,8) k(7) by metis
qed

end
