(* ===== verification/Glob.thy ===== *)
theory Glob
  imports Prelude
begin

text \<open>
  The shell's pattern matcher, \<open>src/crates/glob/src/lib.rs\<close>: a pattern and a name, both byte strings,
  and one answer. The first part is the source, with indices as natural numbers: every index that is
  read is checked against the length. The second part is what a pattern means: a list of elements, a
  star or a test of one byte, and the naive recursive matcher on it.
\<close>

section \<open>The source\<close>

datatype dot = Special | Ordinary

datatype elem = Star | Any nat | Byte u8 nat | Class bool nat

abbreviation STAR :: u8 where "STAR \<equiv> 42"
abbreviation QUESTION :: u8 where "QUESTION \<equiv> 63"
abbreviation BACKSLASH :: u8 where "BACKSLASH \<equiv> 92"
abbreviation OPEN :: u8 where "OPEN \<equiv> 91"
abbreviation CLOSE :: u8 where "CLOSE \<equiv> 93"
abbreviation BANG :: u8 where "BANG \<equiv> 33"
abbreviation CARET :: u8 where "CARET \<equiv> 94"
abbreviation HYPHEN :: u8 where "HYPHEN \<equiv> 45"
abbreviation PERIOD :: u8 where "PERIOD \<equiv> 46"

text \<open>The loop of \<open>class_at\<close>, from index \<open>k\<close>.\<close>

function class_loop :: "u8 list \<Rightarrow> u8 \<Rightarrow> bool \<Rightarrow> nat \<Rightarrow> bool \<Rightarrow> bool \<Rightarrow> nat \<Rightarrow> (bool \<times> nat) option \<times> nat" where
  "class_loop p c negated k hit at_start scanned =
     (case slice_get p k of
        None \<Rightarrow> (None, scanned)
      | Some byte \<Rightarrow>
          let scanned = scanned + 1 in
          if byte = CLOSE \<and> \<not> at_start then (Some (hit \<noteq> negated, k + 1), scanned)
          else
            let escaped = (byte = BACKSLASH \<and> k + 1 < length p);
                lo = (if escaped then p ! (k + 1) else byte);
                after_lo = (if escaped then k + 2 else k + 1);
                scanned = (if escaped then scanned + 1 else scanned);
                ranged = (slice_get p after_lo = Some HYPHEN \<and>
                  (case slice_get p (after_lo + 1) of Some b \<Rightarrow> b \<noteq> CLOSE | None \<Rightarrow> False))
            in if ranged
               then
                 let start = after_lo + 1;
                     escaped_hi = (p ! start = BACKSLASH \<and> start + 1 < length p);
                     hi = (if escaped_hi then p ! (start + 1) else p ! start);
                     after_hi = (if escaped_hi then start + 2 else start + 1)
                 in class_loop p c negated after_hi (hit \<or> lo \<le> c \<and> c \<le> hi) False (scanned + (after_hi - after_lo))
               else class_loop p c negated after_lo (hit \<or> lo = c) False scanned)"
  by pat_completeness auto
termination
  by (relation "measure (\<lambda>(p, c, negated, k, hit, at_start, scanned). length p - k)")
    (auto simp: slice_get_def split: if_splits)

declare class_loop.simps [simp del]

definition class_at :: "u8 list \<Rightarrow> nat \<Rightarrow> u8 \<Rightarrow> (bool \<times> nat) option \<times> nat" where
  "class_at p open_at c =
     (let k = open_at + 1;
          negated = (slice_get p k = Some BANG \<or> slice_get p k = Some CARET)
      in if negated then class_loop p c negated (k + 1) False True 2
         else class_loop p c negated k False True 1)"

definition decode :: "u8 list \<Rightarrow> nat \<Rightarrow> u8 \<Rightarrow> (elem \<times> nat) option" where
  "decode p j c =
     (case slice_get p j of
        None \<Rightarrow> None
      | Some byte \<Rightarrow> Some (
          if byte = STAR then (Star, 1)
          else if byte = QUESTION then (Any (j + 1), 1)
          else if byte = BACKSLASH then
            (case slice_get p (j + 1) of
               Some escaped \<Rightarrow> (Byte escaped (j + 2), 2)
             | None \<Rightarrow> (Byte BACKSLASH (j + 1), 1))
          else if byte = OPEN then
            (case class_at p j c of
               (Some (hit, next), scanned) \<Rightarrow> (Class hit next, scanned)
             | (None, scanned) \<Rightarrow> (Byte OPEN (j + 1), scanned))
          else (Byte byte (j + 1), 1)))"

definition opens_with_a_literal_dot :: "u8 list \<Rightarrow> bool" where
  "opens_with_a_literal_dot p = (case decode p 0 0 of Some (Byte b _, _) \<Rightarrow> b = PERIOD | _ \<Rightarrow> False)"

section \<open>Where an element ends\<close>

text \<open>One member of a bracket expression at \<open>k\<close>: its two ends and where the next one starts.\<close>

definition class_item :: "u8 list \<Rightarrow> nat \<Rightarrow> u8 \<times> u8 \<times> nat" where
  "class_item p k =
     (let escaped = (p ! k = BACKSLASH \<and> k + 1 < length p);
          lo = (if escaped then p ! (k + 1) else p ! k);
          after = (if escaped then k + 2 else k + 1)
      in if after + 1 < length p \<and> p ! after = HYPHEN \<and> p ! (after + 1) \<noteq> CLOSE
         then (let s = after + 1 in
           if p ! s = BACKSLASH \<and> s + 1 < length p then (lo, p ! (s + 1), s + 2) else (lo, p ! s, s + 1))
         else (lo, lo, after))"

lemma class_item_next: "k < length p \<Longrightarrow> class_item p k = (lo, hi, n) \<Longrightarrow> k < n \<and> n \<le> length p"
  by (auto simp: class_item_def Let_def split: if_splits)

lemma class_loop_item:
  "class_loop p c negated k hit at_start scanned =
     (if length p \<le> k then (None, scanned)
      else if p ! k = CLOSE \<and> \<not> at_start then (Some (hit \<noteq> negated, k + 1), scanned + 1)
      else (case class_item p k of (lo, hi, n) \<Rightarrow>
        class_loop p c negated n (hit \<or> lo \<le> c \<and> c \<le> hi) False (scanned + (n - k))))"
proof (cases "length p \<le> k \<or> p ! k = CLOSE \<and> \<not> at_start")
  case True
  then show ?thesis by (subst class_loop.simps) (auto simp: slice_get_def Let_def)
next
  case False
  have one: "(lo = c) = (lo \<le> c \<and> c \<le> lo)" for lo :: u8 by auto
  show ?thesis
    using False by (subst class_loop.simps)
      (auto simp: slice_get_def Let_def class_item_def one numeral_2_eq_2 Suc_diff_le)
qed

lemma class_loop_bounds:
  "class_loop p c negated k hit at_start scanned = (Some (h, n), m) \<Longrightarrow> k < n \<and> n \<le> length p"
proof (induction "length p - k" arbitrary: k hit at_start scanned rule: less_induct)
  case less
  show ?case
  proof (cases "length p \<le> k \<or> p ! k = CLOSE \<and> \<not> at_start")
    case True
    then show ?thesis using less.prems by (auto simp: class_loop_item [of p c negated k] split: if_splits)
  next
    case False
    obtain lo hi n' where it: "class_item p k = (lo, hi, n')" by (cases "class_item p k") auto
    have "k < n'" "n' \<le> length p" using class_item_next [OF _ it] False by auto
    moreover have "n' < n \<and> n \<le> length p"
      by (rule less.hyps [of n' "hit \<or> lo \<le> c \<and> c \<le> hi" False "scanned + (n' - k)"])
        (use False less.prems it \<open>k < n'\<close> in \<open>auto simp: class_loop_item [of p c negated k]\<close>)
    ultimately show ?thesis by simp
  qed
qed

definition elem_next :: "nat \<Rightarrow> elem \<Rightarrow> nat" where
  "elem_next j e = (case e of Star \<Rightarrow> j + 1 | Any n \<Rightarrow> n | Byte _ n \<Rightarrow> n | Class _ n \<Rightarrow> n)"

lemma decode_next:
  assumes "decode p j c = Some (e, m)"
  shows "j < length p" "j < elem_next j e" "elem_next j e \<le> length p"
proof -
  have "j + 1 < n \<and> n \<le> length p" if "class_at p j c = (Some (h, n), m)" for h n
    using that class_loop_bounds by (fastforce simp: class_at_def Let_def split: if_splits)
  then show "j < length p" "j < elem_next j e" "elem_next j e \<le> length p"
    using assms by (auto simp: decode_def elem_next_def slice_get_def split: if_splits option.splits prod.splits)
qed

section \<open>The matcher\<close>

function skip_stars :: "u8 list \<Rightarrow> nat \<Rightarrow> nat \<Rightarrow> nat \<times> nat" where
  "skip_stars p j steps = (if slice_get p j = Some STAR then skip_stars p (j + 1) (steps + 1) else (j, steps))"
  by pat_completeness auto
termination by (relation "measure (\<lambda>(p, j, steps). length p - j)") auto

text \<open>
  The loop of \<open>match_steps\<close>. \<open>try_elem\<close> is its \<open>advanced\<close>: the new positions and backtrack point when
  the element applies.
\<close>

definition try_elem ::
  "u8 list \<Rightarrow> nat \<Rightarrow> nat \<Rightarrow> nat option \<Rightarrow> nat \<Rightarrow> elem \<Rightarrow> (nat \<times> nat \<times> nat option \<times> nat) option" where
  "try_elem name i j star_next star_absorbed e =
     (case e of
        Star \<Rightarrow> Some (i, j + 1, Some (j + 1), i)
      | Any next \<Rightarrow> Some (i + 1, next, star_next, star_absorbed)
      | Byte byte next \<Rightarrow> if byte = name ! i then Some (i + 1, next, star_next, star_absorbed) else None
      | Class hit next \<Rightarrow> if hit then Some (i + 1, next, star_next, star_absorbed) else None)"

function match_loop :: "u8 list \<Rightarrow> u8 list \<Rightarrow> nat \<Rightarrow> nat \<Rightarrow> nat option \<Rightarrow> nat \<Rightarrow> nat \<Rightarrow> bool \<times> nat" where
  "match_loop p name i j star_next star_absorbed steps =
     (if length name \<le> i
      then (case skip_stars p j steps of (j, steps) \<Rightarrow> (j = length p, steps))
      else
        let decoded = decode p j (name ! i);
            steps = (case decoded of None \<Rightarrow> steps | Some (_, scanned) \<Rightarrow> steps + scanned);
            advanced = (case decoded of None \<Rightarrow> None
              | Some (e, _) \<Rightarrow> try_elem name i j star_next star_absorbed e)
        in case advanced of
             Some (i', j', star_next', star_absorbed') \<Rightarrow> match_loop p name i' j' star_next' star_absorbed' steps
           | None \<Rightarrow>
               (case star_next of
                  Some resume \<Rightarrow>
                    match_loop p name (star_absorbed + 1) resume star_next (star_absorbed + 1) (steps + 1)
                | None \<Rightarrow> (False, steps)))"
  by pat_completeness auto

lemma try_elem_cases:
  assumes "try_elem name i j sn sa e = Some (i', j', sn', sa')" "decode p j c = Some (e, m)" "i < length name"
  shows "i' \<le> length name" "j' \<le> length p" "i + j < i' + j'"
    "i' = i \<and> j' = j + 1 \<and> sn' = Some (j + 1) \<and> sa' = i \<or> i' = i + 1 \<and> sn' = sn \<and> sa' = sa"
  using assms(1,3) decode_next [OF assms(2)]
  by (auto simp: try_elem_def elem_next_def split: elem.splits if_splits)

definition match_rel :: "((u8 list \<times> u8 list \<times> nat \<times> nat \<times> nat option \<times> nat \<times> nat) \<times>
    (u8 list \<times> u8 list \<times> nat \<times> nat \<times> nat option \<times> nat \<times> nat)) set" where
  "match_rel = measures [\<lambda>(p, name, i, j, sn, sa, steps). if i < sa then 1 else 0,
     \<lambda>(p, name, i, j, sn, sa, steps). length name - sa,
     \<lambda>(p, name, i, j, sn, sa, steps). length name + length p - (i + j)]"

lemma match_rel_advance:
  assumes "\<not> length name \<le> i"
    and "(case decode p j (name ! i) of None \<Rightarrow> None | Some (e, _) \<Rightarrow> try_elem name i j sn sa e) = Some (i', j', sn', sa')"
  shows "((p, name, i', j', sn', sa', x), (p, name, i, j, sn, sa, y)) \<in> match_rel"
proof -
  obtain e m where d: "decode p j (name ! i) = Some (e, m)" and t: "try_elem name i j sn sa e = Some (i', j', sn', sa')"
    using assms(2) by (auto split: option.splits)
  show ?thesis
    using try_elem_cases [OF t d] decode_next(1) [OF d] assms(1) by (auto simp: match_rel_def)
qed

termination match_loop
proof (relation match_rel, goal_cases)
  case 1
  then show ?case by (simp add: match_rel_def)
next
  case 2
  then show ?case by (auto simp: match_rel_def)
next
  case 3
  then show ?case using match_rel_advance by auto
qed

declare match_loop.simps [simp del] skip_stars.simps [simp del]

definition match_steps :: "u8 list \<Rightarrow> u8 list \<Rightarrow> dot \<Rightarrow> bool \<times> nat" where
  "match_steps p name d =
     (if d = Special \<and> slice_get name 0 = Some PERIOD \<and> \<not> opens_with_a_literal_dot p then (False, 0)
      else match_loop p name 0 0 None 0 0)"

definition matches :: "u8 list \<Rightarrow> u8 list \<Rightarrow> bool" where
  "matches p name = fst (match_steps p name Special)"

definition matches_with :: "u8 list \<Rightarrow> u8 list \<Rightarrow> dot \<Rightarrow> bool" where
  "matches_with p name d = fst (match_steps p name d)"

function has_magic_from :: "u8 list \<Rightarrow> nat \<Rightarrow> bool" where
  "has_magic_from p j =
     (case decode p j 0 of
        None \<Rightarrow> False
      | Some (e, _) \<Rightarrow> (case e of Byte _ next \<Rightarrow> has_magic_from p next | _ \<Rightarrow> True))"
  by pat_completeness auto
termination
  by (relation "measure (\<lambda>(p, j). length p - j)") (use decode_next in \<open>fastforce simp: elem_next_def\<close>)+

definition has_magic :: "u8 list \<Rightarrow> bool" where
  "has_magic p = has_magic_from p 0"

text \<open>\<open>literal\<close> into a buffer of \<open>cap\<close> bytes: the bytes written, or None.\<close>

function literal_from :: "u8 list \<Rightarrow> nat \<Rightarrow> nat \<Rightarrow> u8 list \<Rightarrow> u8 list option" where
  "literal_from p cap j out =
     (case decode p j 0 of
        None \<Rightarrow> Some out
      | Some (e, _) \<Rightarrow>
          (case e of
             Byte byte next \<Rightarrow> if length out < cap then literal_from p cap next (out @ [byte]) else None
           | _ \<Rightarrow> None))"
  by pat_completeness auto
termination
  by (relation "measure (\<lambda>(p, cap, j, out). length p - j)") (use decode_next in \<open>fastforce simp: elem_next_def\<close>)+

definition literal :: "u8 list \<Rightarrow> nat \<Rightarrow> u8 list option" where
  "literal p cap = literal_from p cap 0 []"

text \<open>\<open>usize\<close> arithmetic that saturates.\<close>

definition USIZE_MAX :: nat where
  "USIZE_MAX = 2 ^ 64 - 1"

definition sat_add :: "nat \<Rightarrow> nat \<Rightarrow> nat" where
  "sat_add a b = min (a + b) USIZE_MAX"

definition sat_mul :: "nat \<Rightarrow> nat \<Rightarrow> nat" where
  "sat_mul a b = min (a * b) USIZE_MAX"

definition cost_bound :: "nat \<Rightarrow> nat \<Rightarrow> nat" where
  "cost_bound pattern_len name_len =
     (let iterations = sat_mul (sat_add name_len 2) (sat_add (sat_add name_len pattern_len) 1)
      in sat_add (sat_add (sat_mul iterations (sat_add (sat_mul pattern_len 2) 2)) pattern_len) 2)"

section \<open>What a pattern means\<close>

text \<open>
  The reference: the members of a bracket expression as a list of ranges, a pattern as a list of
  elements (None for a star, Some test for one byte), and the matcher that tries every split at a
  star.
\<close>

function class_items :: "u8 list \<Rightarrow> nat \<Rightarrow> bool \<Rightarrow> ((u8 \<times> u8) list \<times> nat) option" where
  "class_items p k at_start =
     (if length p \<le> k then None
      else if p ! k = CLOSE \<and> \<not> at_start then Some ([], k + 1)
      else (case class_item p k of (lo, hi, n) \<Rightarrow>
        map_option (\<lambda>(xs, m). ((lo, hi) # xs, m)) (class_items p n False)))"
  by pat_completeness auto
termination
  by (relation "measure (\<lambda>(p, k, at_start). length p - k)")
    (auto simp: not_le dest!: class_item_next [OF _ sym])

declare class_items.simps [simp del]

definition negated_at :: "u8 list \<Rightarrow> nat \<Rightarrow> bool" where
  "negated_at p k \<longleftrightarrow> k < length p \<and> (p ! k = BANG \<or> p ! k = CARET)"

definition bracket :: "u8 list \<Rightarrow> nat \<Rightarrow> ((u8 \<Rightarrow> bool) \<times> nat) option" where
  "bracket p j =
     map_option (\<lambda>(xs, n). (\<lambda>c. list_ex (\<lambda>(lo, hi). lo \<le> c \<and> c \<le> hi) xs \<noteq> negated_at p (j + 1), n))
       (class_items p (if negated_at p (j + 1) then j + 2 else j + 1) True)"

definition element_at :: "u8 list \<Rightarrow> nat \<Rightarrow> ((u8 \<Rightarrow> bool) option \<times> nat) option" where
  "element_at p j =
     (if length p \<le> j then None
      else Some (
        if p ! j = STAR then (None, j + 1)
        else if p ! j = QUESTION then (Some (\<lambda>_. True), j + 1)
        else if p ! j = BACKSLASH \<and> j + 1 < length p then (Some (\<lambda>c. c = p ! (j + 1)), j + 2)
        else if p ! j = OPEN
        then (case bracket p j of None \<Rightarrow> (Some (\<lambda>c. c = OPEN), j + 1) | Some (P, n) \<Rightarrow> (Some P, n))
        else (Some (\<lambda>c. c = p ! j), j + 1)))"

lemma class_loop_items:
  "k \<le> length p \<Longrightarrow> class_loop p c negated k hit at_start scanned =
     (case class_items p k at_start of
        None \<Rightarrow> (None, scanned + (length p - k))
      | Some (xs, n) \<Rightarrow>
          (Some ((hit \<or> list_ex (\<lambda>(lo, hi). lo \<le> c \<and> c \<le> hi) xs) \<noteq> negated, n), scanned + (n - k)))"
proof (induction p k at_start arbitrary: hit scanned rule: class_items.induct)
  case (1 p k at_start)
  show ?case
  proof (cases "length p \<le> k \<or> p ! k = CLOSE \<and> \<not> at_start")
    case True
    then show ?thesis using 1(2) by (subst class_loop_item, subst class_items.simps) auto
  next
    case False
    obtain lo hi n where it: "class_item p k = (lo, hi, n)" by (cases "class_item p k") auto
    have n: "k < n" "n \<le> length p" using class_item_next [OF _ it] False by auto
    have IH: "class_loop p c negated n hit False scanned =
       (case class_items p n False of
          None \<Rightarrow> (None, scanned + (length p - n))
        | Some (xs, m) \<Rightarrow>
            (Some ((hit \<or> list_ex (\<lambda>(lo, hi). lo \<le> c \<and> c \<le> hi) xs) \<noteq> negated, m), scanned + (m - n)))" for hit scanned
      using 1(1) False it n by auto
    have ge: "n < m" if "class_items p n False = Some (xs, m)" for xs m
      using class_loop_bounds [of p c negated n False False 0] IH [of False 0] that by auto
    show ?thesis
      using False it n ge by (subst class_loop_item, subst class_items.simps) (auto simp: IH split: option.splits)
  qed
qed

lemma class_at_bracket:
  assumes "j < length p"
  shows "class_at p j c = (case bracket p j of None \<Rightarrow> (None, length p - j) | Some (P, n) \<Rightarrow> (Some (P c, n), n - j))"
proof -
  define k where "k = (if negated_at p (j + 1) then j + 2 else j + 1)"
  have k: "k \<le> length p" using assms by (auto simp: k_def negated_at_def)
  have neg: "(slice_get p (j + 1) = Some BANG \<or> slice_get p (j + 1) = Some CARET) = negated_at p (j + 1)"
    by (auto simp: negated_at_def)
  have br: "bracket p j = map_option (\<lambda>(xs, n). (\<lambda>c. list_ex (\<lambda>(lo, hi). lo \<le> c \<and> c \<le> hi) xs \<noteq> negated_at p (j + 1), n))
      (class_items p k True)" and jk: "j < k" by (simp_all only: bracket_def k_def split: if_split) simp
  have "class_at p j c = class_loop p c (negated_at p (j + 1)) k False True (k - j)"
    unfolding class_at_def Let_def neg by (simp add: k_def)
  also have "\<dots> = (case bracket p j of None \<Rightarrow> (None, length p - j) | Some (P, n) \<Rightarrow> (Some (P c, n), n - j))"
  proof (cases "class_items p k True")
    case None
    then show ?thesis using k jk by (simp add: class_loop_items [OF k] br)
  next
    case (Some a)
    obtain xs n where a: "a = (xs, n)" by (cases a)
    have "k < n" using class_loop_bounds [of p c False k False True 0] Some a by (simp add: class_loop_items [OF k])
    then show ?thesis using Some a jk by (simp add: class_loop_items [OF k] br)
  qed
  finally show ?thesis .
qed

definition applies :: "elem \<Rightarrow> u8 \<Rightarrow> bool" where
  "applies e c = (case e of Star \<Rightarrow> False | Any _ \<Rightarrow> True | Byte b _ \<Rightarrow> b = c | Class hit _ \<Rightarrow> hit)"

lemma decode_element:
  shows "element_at p j = None \<Longrightarrow> decode p j c = None"
    and "element_at p j = Some (None, n) \<Longrightarrow> decode p j c = Some (Star, 1) \<and> n = j + 1"
    and "element_at p j = Some (Some P, n) \<Longrightarrow>
      \<exists>e m. decode p j c = Some (e, m) \<and> e \<noteq> Star \<and> applies e c = P c \<and> elem_next j e = n"
  using class_at_bracket [of j p c]
  by (auto simp: element_at_def decode_def slice_get_def applies_def elem_next_def split: if_splits option.splits)

lemma decode_cost:
  assumes "decode p j c = Some (e, m)"
  shows "m \<le> length p"
proof -
  have j: "j < length p" by (rule decode_next(1) [OF assms])
  have "n \<le> length p" if "bracket p j = Some (P, n)" for P n
    using class_at_bracket [OF j, of c] class_loop_bounds that
    by (fastforce simp: class_at_def Let_def split: if_splits)
  then show ?thesis
    using assms class_at_bracket [OF j, of c] j
    by (fastforce simp: decode_def slice_get_def split: if_splits option.splits prod.splits)
qed

lemma element_next:
  assumes "element_at p j = Some (e, n)"
  shows "j < n" "n \<le> length p"
  using decode_element(2) [of p j n 0] decode_element(3) [of p j _ n 0] decode_next [of p j 0] assms
  by (cases e; fastforce simp: elem_next_def)+

function elements :: "u8 list \<Rightarrow> nat \<Rightarrow> (u8 \<Rightarrow> bool) option list" where
  "elements p j = (case element_at p j of None \<Rightarrow> [] | Some (e, n) \<Rightarrow> e # elements p n)"
  by pat_completeness auto
termination
proof (relation "measure (\<lambda>(p, j). length p - j)", goal_cases)
  case (2 p j a e n)
  then show ?case using element_next [of p j e n] by auto
qed simp

declare elements.simps [simp del]

fun glob_match :: "(u8 \<Rightarrow> bool) option list \<Rightarrow> u8 list \<Rightarrow> bool" where
  "glob_match [] name = (name = [])"
| "glob_match (None # es) [] = glob_match es []"
| "glob_match (None # es) (c # cs) = (glob_match es (c # cs) \<or> glob_match (None # es) cs)"
| "glob_match (Some P # es) [] = False"
| "glob_match (Some P # es) (c # cs) = (P c \<and> glob_match es cs)"

text \<open>A star absorbs any prefix.\<close>

lemma glob_match_star: "glob_match (None # es) name \<longleftrightarrow> (\<exists>k. glob_match es (drop k name))"
proof (induction name)
  case Nil
  then show ?case by simp
next
  case (Cons c cs)
  have "(\<exists>k. glob_match es (drop k (c # cs))) \<longleftrightarrow> glob_match es (c # cs) \<or> (\<exists>k. glob_match es (drop k cs))"
    by (metis drop_0 drop_Suc_Cons not0_implies_Suc)
  then show ?case using Cons.IH by simp
qed

text \<open>A run of tests without a star consumes exactly its length.\<close>

lemma glob_match_tests:
  "None \<notin> set es \<Longrightarrow> glob_match (es @ fs) name \<Longrightarrow>
     length es \<le> length name \<and> glob_match fs (drop (length es) name)"
proof (induction es arbitrary: name)
  case (Cons e es)
  then show ?case by (cases e; cases name) auto
qed simp

section \<open>The matcher against its meaning\<close>

lemma elements_None: "element_at p j = None \<Longrightarrow> elements p j = []"
  and elements_Some: "element_at p j = Some (e, n) \<Longrightarrow> elements p j = e # elements p n"
  by (simp_all add: elements.simps)

lemma skip_stars_spec:
  "j \<le> length p \<Longrightarrow> skip_stars p j steps = (j', steps') \<Longrightarrow>
     (j' = length p \<longleftrightarrow> glob_match (elements p j) []) \<and> steps' \<le> steps + (length p - j)"
proof (induction p j steps rule: skip_stars.induct)
  case (1 p j steps)
  show ?case
  proof (cases "slice_get p j = Some STAR")
    case True
    then have "elements p j = None # elements p (j + 1)"
      by (intro elements_Some) (auto simp: element_at_def)
    then show ?thesis using 1 True by (auto simp: skip_stars.simps [of p j])
  next
    case False
    then have j': "j' = j" "steps' = steps" using 1(3) by (auto simp: skip_stars.simps [of p j] split: if_splits)
    show ?thesis
    proof (cases "element_at p j")
      case None
      then show ?thesis using j' 1(2) by (auto simp: elements_None element_at_def split: if_splits)
    next
      case (Some en)
      then obtain P n where "en = (Some P, n)" "j < length p"
        using False by (cases en) (auto simp: element_at_def split: if_splits option.splits)
      then show ?thesis using j' Some by (simp add: elements_Some)
    qed
  qed
qed

text \<open>What the loop still has to decide: a match from here, or from a later start after the last star.\<close>

definition pending :: "u8 list \<Rightarrow> u8 list \<Rightarrow> nat \<Rightarrow> nat \<Rightarrow> nat option \<Rightarrow> nat \<Rightarrow> bool" where
  "pending p name i j sn sa \<longleftrightarrow> glob_match (elements p j) (drop i name) \<or>
     (\<exists>r a. sn = Some r \<and> sa < a \<and> glob_match (elements p r) (drop a name))"

definition loop_inv :: "u8 list \<Rightarrow> u8 list \<Rightarrow> nat \<Rightarrow> nat \<Rightarrow> nat option \<Rightarrow> nat \<Rightarrow> bool" where
  "loop_inv p name i j sn sa \<longleftrightarrow> j \<le> length p \<and> i \<le> length name \<and>
     (\<forall>r. sn = Some r \<longrightarrow> sa \<le> i \<and> r \<le> length p \<and>
        (\<exists>seg. elements p r = seg @ elements p j \<and> None \<notin> set seg \<and> length seg = i - sa))"

lemma loop_inv_test:
  assumes "loop_inv p name i j sn sa" "element_at p j = Some (Some P, n)" "i < length name"
  shows "loop_inv p name (i + 1) n sn sa"
proof -
  have "\<exists>seg. elements p r = seg @ elements p n \<and> None \<notin> set seg \<and> length seg = i + 1 - sa"
    if "sa \<le> i" "elements p r = seg @ elements p j" "None \<notin> set seg" "length seg = i - sa" for r seg
    by (rule exI [of _ "seg @ [Some P]"]) (use that elements_Some [OF assms(2)] in auto)
  then show ?thesis
    using assms element_next [OF assms(2)] unfolding loop_inv_def by (metis Suc_eq_plus1 Suc_leI le_SucI)
qed

text \<open>A later star makes every earlier one redundant.\<close>

lemma pending_star:
  assumes inv: "loop_inv p name i j sn sa" and e: "elements p j = None # es"
  shows "pending p name i j sn sa \<longleftrightarrow> glob_match (None # es) (drop i name)"
proof -
  have "glob_match (None # es) (drop i name)" if r: "sn = Some r" "sa < a" "glob_match (elements p r) (drop a name)" for r a
  proof -
    obtain seg where seg: "elements p r = seg @ None # es" "None \<notin> set seg" "length seg = i - sa" "sa \<le> i"
      using inv r(1) e by (auto simp: loop_inv_def)
    have "glob_match (None # es) (drop (i + (a - sa)) name)"
      using glob_match_tests [OF seg(2), of "None # es" "drop a name"] r seg by (simp add: add.commute)
    then obtain m where "glob_match es (drop (m + (a - sa)) (drop i name))"
      by (auto simp: glob_match_star add.commute add.left_commute)
    then show ?thesis unfolding glob_match_star by blast
  qed
  then show ?thesis using e by (auto simp: pending_def)
qed

lemma star_pending:
  assumes inv: "loop_inv p name i j sn sa" and e: "elements p j = None # elements p (j + 1)"
  shows "pending p name i (j + 1) (Some (j + 1)) i = pending p name i j sn sa"
proof -
  have "pending p name i (j + 1) (Some (j + 1)) i = (\<exists>a \<ge> i. glob_match (elements p (j + 1)) (drop a name))"
    by (auto simp: pending_def order.order_iff_strict)
  also have "\<dots> = glob_match (None # elements p (j + 1)) (drop i name)"
    by (auto simp: glob_match_star le_iff_add add.commute)
  also have "\<dots> = pending p name i j sn sa" using pending_star [OF inv e] by simp
  finally show ?thesis .
qed

lemma pending_spent:
  assumes inv: "loop_inv p name i j sn sa" and n: "length name \<le> i"
  shows "pending p name i j sn sa \<longleftrightarrow> glob_match (elements p j) []"
proof -
  have "glob_match (elements p j) []" if r: "sn = Some r" "sa < a" "glob_match (elements p r) (drop a name)" for r a
  proof -
    obtain seg where seg: "elements p r = seg @ elements p j" "None \<notin> set seg" "length seg = i - sa" "sa \<le> i"
      using inv r(1) by (auto simp: loop_inv_def)
    have m: "length seg \<le> length name - a" "glob_match (elements p j) (drop (length seg + a) name)"
      using glob_match_tests [OF seg(2), of "elements p j" "drop a name"] r(3) seg(1) by simp_all
    have "length name \<le> length seg + a" using seg(3,4) r(2) n by simp
    then show ?thesis using m(2) by simp
  qed
  then show ?thesis using n by (auto simp: pending_def)
qed

lemma pending_backtrack:
  assumes "loop_inv p name i j (Some r) sa" "i < length name"
  shows "loop_inv p name (sa + 1) r (Some r) (sa + 1)"
    and "pending p name (sa + 1) r (Some r) (sa + 1) \<longleftrightarrow> (\<exists>a > sa. glob_match (elements p r) (drop a name))"
proof -
  show "loop_inv p name (sa + 1) r (Some r) (sa + 1)" using assms by (auto simp: loop_inv_def)
  have "(\<exists>a > sa. P a) \<longleftrightarrow> P (sa + 1) \<or> (\<exists>a > sa + 1. P a)" for P :: "nat \<Rightarrow> bool"
    by (metis Suc_eq_plus1 Suc_lessI lessI Suc_lessD)
  then show "pending p name (sa + 1) r (Some r) (sa + 1) \<longleftrightarrow> (\<exists>a > sa. glob_match (elements p r) (drop a name))"
    by (simp add: pending_def)
qed

lemma try_elem_test:
  "e \<noteq> Star \<Longrightarrow> try_elem name i j sn sa e = (if applies e (name ! i) then Some (i + 1, elem_next j e, sn, sa) else None)"
  by (auto simp: try_elem_def applies_def elem_next_def split: elem.splits)

text \<open>
  One turn of the loop: it is over, or it goes on with the same question, closer to the end. The
  potential counts the turns left: a retry moves the last star on, everything else moves \<open>i + j\<close>.
\<close>

definition potential :: "u8 list \<Rightarrow> u8 list \<Rightarrow> nat \<Rightarrow> nat \<Rightarrow> nat option \<Rightarrow> nat \<Rightarrow> nat" where
  "potential p name i j sn sa =
     (length name + 2 - (case sn of None \<Rightarrow> 0 | Some _ \<Rightarrow> sa + 1)) * (length name + length p + 1) +
     (length name + length p - (i + j))"

lemma potential_retry:
  assumes "loop_inv p name i j (Some r) sa" "i < length name"
  shows "potential p name (sa + 1) r (Some r) (sa + 1) < potential p name i j (Some r) sa"
proof -
  define w where "w = length name + length p + 1"
  define q where "q = length name - sa"
  have sa: "sa < length name" using assms by (auto simp: loop_inv_def)
  then have q: "length name + 2 - (sa + 1) = q + 1" "length name + 2 - (sa + 1 + 1) = q" by (simp_all add: q_def)
  have "length name + length p - (sa + 1 + r) < w" by (simp add: w_def)
  then have "q * w + (length name + length p - (sa + 1 + r)) < (q + 1) * w + (length name + length p - (i + j))"
    by simp
  then show ?thesis unfolding potential_def option.case w_def [symmetric] q .
qed

lemma potential_star:
  assumes inv: "loop_inv p name i j sn sa" and lt: "i < length name" "j < length p"
  shows "potential p name i (j + 1) (Some (j + 1)) i < potential p name i j sn sa"
proof -
  let ?w = "length name + length p + 1"
  have "length name + 2 - (i + 1) \<le> length name + 2 - (case sn of None \<Rightarrow> 0 | Some _ \<Rightarrow> sa + 1)"
    using inv by (auto simp: loop_inv_def split: option.splits)
  from mult_le_mono1 [OF this, of ?w] show ?thesis using lt by (simp add: potential_def)
qed

lemma potential_test:
  assumes "i < length name" "j < n" "j < length p"
  shows "potential p name (i + 1) n sn sa < potential p name i j sn sa"
  using assms by (simp add: potential_def)

lemma match_loop_cases:
  assumes inv: "loop_inv p name i j sn sa"
  obtains (spent) "length name \<le> i"
  | (stop) c where "c \<le> length p" "\<not> pending p name i j sn sa" "match_loop p name i j sn sa steps = (False, steps + c)"
  | (more) i' j' sn' sa' c where "c \<le> length p + 1" "loop_inv p name i' j' sn' sa'"
      "pending p name i' j' sn' sa' = pending p name i j sn sa"
      "potential p name i' j' sn' sa' < potential p name i j sn sa"
      "match_loop p name i j sn sa steps = match_loop p name i' j' sn' sa' (steps + c)"
proof (cases "length name \<le> i")
  case True
  then show thesis by (rule spent)
next
  case False
  then have i: "i < length name" by simp
  then have d: "drop i name = name ! i # drop (i + 1) name" by (simp add: Cons_nth_drop_Suc)
  let ?adv = "case decode p j (name ! i) of None \<Rightarrow> None | Some (e, _) \<Rightarrow> try_elem name i j sn sa e"
  let ?c = "case decode p j (name ! i) of None \<Rightarrow> 0 | Some (_, m) \<Rightarrow> m"
  have c: "?c \<le> length p" using decode_cost by (auto split: option.splits)
  have turn: "match_loop p name i j sn sa steps =
    (case ?adv of Some (i', j', sn', sa') \<Rightarrow> match_loop p name i' j' sn' sa' (steps + ?c)
     | None \<Rightarrow> (case sn of Some r \<Rightarrow> match_loop p name (sa + 1) r sn (sa + 1) (steps + (?c + 1)) | None \<Rightarrow> (False, steps + ?c)))"
    using False by (subst match_loop.simps) (auto simp: Let_def split: option.splits)
  have retry: thesis if none: "?adv = None" and fails: "\<not> glob_match (elements p j) (drop i name)"
  proof (cases sn)
    case None
    show thesis by (rule stop [OF c]) (use turn none None fails in \<open>simp_all add: pending_def\<close>)
  next
    case (Some r)
    note b = pending_backtrack [OF inv [unfolded Some] i]
    show thesis
      by (rule more [OF _ b(1) _ _, of "?c + 1"])
        (use turn none fails b(2) c Some potential_retry [OF inv [unfolded Some] i] in \<open>simp_all add: pending_def\<close>)
  qed
  show thesis
  proof (cases "element_at p j")
    case None
    then show thesis by (intro retry) (simp_all add: decode_element(1) elements_None d)
  next
    case (Some en)
    obtain t n where en: "element_at p j = Some (t, n)" using Some by (cases en) auto
    note nx = element_next [OF en]
    show thesis
    proof (cases t)
      case None
      then have dec: "decode p j (name ! i) = Some (Star, 1)" "n = j + 1"
        and el: "elements p j = None # elements p (j + 1)"
        using decode_element(2) [of p j n "name ! i"] elements_Some [OF en] en by simp_all
      have adv: "?adv = Some (i, j + 1, Some (j + 1), i)" by (simp add: dec try_elem_def)
      have inv': "loop_inv p name i (j + 1) (Some (j + 1)) i" using nx dec inv by (simp add: loop_inv_def)
      show thesis
        by (rule more [OF _ inv' _ potential_star [OF inv i], of ?c])
          (use turn adv c nx star_pending [OF inv el] in simp_all)
    next
      case (Some P)
      then obtain e m where dec: "decode p j (name ! i) = Some (e, m)" "e \<noteq> Star"
        "applies e (name ! i) = P (name ! i)" "elem_next j e = n"
        using decode_element(3) [of p j P n "name ! i"] en by auto
      have el: "glob_match (elements p j) (drop i name) \<longleftrightarrow> P (name ! i) \<and> glob_match (elements p n) (drop (i + 1) name)"
        using elements_Some [OF en] Some d by simp
      have adv: "?adv = (if P (name ! i) then Some (i + 1, n, sn, sa) else None)" using dec by (simp add: try_elem_test)
      have inv': "loop_inv p name (i + 1) n sn sa" using loop_inv_test [OF inv] en Some i by simp
      show thesis
      proof (cases "P (name ! i)")
        case True
        show thesis
          by (rule more [OF _ inv' _ potential_test [OF i nx(1)], of ?c])
            (use turn adv True c el nx in \<open>simp_all add: pending_def\<close>)
      qed (use retry adv el in simp)
    qed
  qed
qed

lemma match_loop_correct:
  assumes "loop_inv p name i j sn sa"
  shows "fst (match_loop p name i j sn sa steps) = pending p name i j sn sa"
    and "snd (match_loop p name i j sn sa steps) \<le> steps + potential p name i j sn sa * (length p + 1) + length p"
proof -
  have "fst (match_loop p name i j sn sa steps) = pending p name i j sn sa \<and>
    snd (match_loop p name i j sn sa steps) \<le> steps + potential p name i j sn sa * (length p + 1) + length p"
    using assms
  proof (induction "potential p name i j sn sa" arbitrary: i j sn sa steps rule: less_induct)
    case less
    show ?case
    proof (cases rule: match_loop_cases [OF less.prems, where steps = steps])
      case 1
      obtain j' s' where sk: "skip_stars p j steps = (j', s')" by fastforce
      show ?thesis
        using 1 skip_stars_spec [OF _ sk] sk less.prems pending_spent [OF less.prems 1]
        by (subst match_loop.simps, subst match_loop.simps) (auto simp: loop_inv_def)
    next
      case (2 c)
      then show ?thesis by simp
    next
      case (3 i' j' sn' sa' c)
      let ?q = "potential p name i' j' sn' sa'"
      have "(?q + 1) * (length p + 1) \<le> potential p name i j sn sa * (length p + 1)"
        using 3(4) by (intro mult_le_mono1) simp
      then show ?thesis using less.hyps [OF 3(4,2), of "steps + c"] 3(1,3,5) by (simp add: algebra_simps)
    qed
  qed
  then show "fst (match_loop p name i j sn sa steps) = pending p name i j sn sa"
    "snd (match_loop p name i j sn sa steps) \<le> steps + potential p name i j sn sa * (length p + 1) + length p"
    by simp_all
qed

section \<open>Properties\<close>

lemma loop_inv_start: "loop_inv p name 0 0 None 0"
  by (simp add: loop_inv_def)

lemma literal_dot: "opens_with_a_literal_dot p \<longleftrightarrow> (\<exists>m n. decode p 0 0 = Some (Byte PERIOD n, m))"
  by (auto simp: opens_with_a_literal_dot_def split: option.splits elem.splits prod.splits)

lemma matches_correct:
  "matches_with p name d \<longleftrightarrow>
     glob_match (elements p 0) name \<and>
     \<not> (d = Special \<and> slice_get name 0 = Some PERIOD \<and> \<not> opens_with_a_literal_dot p)"
proof -
  have "fst (match_loop p name 0 0 None 0 0) = glob_match (elements p 0) name"
    using match_loop_correct(1) [OF loop_inv_start, of p name 0] by (simp add: pending_def)
  then show ?thesis by (cases d) (auto simp: matches_with_def match_steps_def)
qed

text \<open>C16. The matcher that keeps one backtrack point gives the answer of the matcher that tries every
  split at every star: for all patterns and names, the loop agrees with the recursive reference on the
  pattern's elements, but for a leading dot, which only a literal dot matches unless it is ordinary.\<close>

theorem matches_is_glob_match:
  "matches_with p name d \<longleftrightarrow>
     glob_match (elements p 0) name \<and>
     \<not> (d = Special \<and> slice_get name 0 = Some PERIOD \<and> \<not> opens_with_a_literal_dot p)"
  by (rule matches_correct)

lemma sat_add_less: "sat_add a b < USIZE_MAX \<Longrightarrow> sat_add a b = a + b \<and> a < USIZE_MAX"
  by (auto simp: sat_add_def)

lemma sat_add_pos: "0 < b \<Longrightarrow> 0 < sat_add a b"
  by (simp add: sat_add_def USIZE_MAX_def)

lemma sat_mul_less:
  assumes "sat_mul a b < USIZE_MAX" "0 < a" "0 < b"
  shows "sat_mul a b = a * b \<and> a < USIZE_MAX \<and> b < USIZE_MAX"
proof -
  have "a * b < USIZE_MAX" using assms(1) by (auto simp: sat_mul_def)
  moreover have "a \<le> a * b" "b \<le> a * b" using assms(2,3) by simp_all
  ultimately have "a * b < USIZE_MAX" "a < USIZE_MAX" "b < USIZE_MAX" by (blast intro: order.strict_trans1)+
  then show ?thesis by (simp add: sat_mul_def)
qed

lemma cost_bound_exact:
  assumes "cost_bound m n < USIZE_MAX"
  shows "cost_bound m n = (n + 2) * (n + m + 1) * (m * 2 + 2) + m + 2"
proof -
  let ?a = "sat_add n 2" and ?b = "sat_add (sat_add n m) 1" and ?w = "sat_add (sat_mul m 2) 2"
  let ?i = "sat_mul ?a ?b"
  have eq: "cost_bound m n = sat_add (sat_add (sat_mul ?i ?w) m) 2" by (simp add: cost_bound_def Let_def)
  note 1 = sat_add_less [OF assms [unfolded eq]]
  then have 2: "sat_add (sat_mul ?i ?w) m = sat_mul ?i ?w + m" "sat_mul ?i ?w < USIZE_MAX"
    using sat_add_less by blast+
  have i: "0 < ?i" using sat_add_pos by (simp add: sat_mul_def USIZE_MAX_def)
  note 3 = sat_mul_less [OF 2(2) i sat_add_pos]
  then have w: "?w = m * 2 + 2" using sat_add_less [of "sat_mul m 2" 2] by (auto simp: sat_mul_def)
  have ab: "?i = ?a * ?b" "?a < USIZE_MAX" "?b < USIZE_MAX"
    using sat_mul_less [of ?a ?b] sat_add_pos 3 by simp_all
  have "?a = n + 2" using sat_add_less [OF ab(2)] by simp
  moreover have "?b = n + m + 1" using sat_add_less [OF ab(3)] sat_add_less by force
  ultimately show ?thesis using eq 1 2(1) 3 w ab(1) by simp
qed

text \<open>C22. The number of steps a match takes is at most the bound computed from the two lengths alone,
  whenever that bound has not saturated.\<close>

theorem match_cost_bounded:
  assumes "cost_bound (length p) (length name) < USIZE_MAX"
  shows "snd (match_steps p name d) \<le> cost_bound (length p) (length name)"
proof -
  let ?m = "length p" and ?n = "length name"
  let ?q = "(?n + 2) * (?n + ?m + 1)"
  have "snd (match_loop p name 0 0 None 0 0) \<le> (?q + (?n + ?m)) * (?m + 1) + ?m"
    using match_loop_correct(2) [OF loop_inv_start, of p name 0] by (simp add: potential_def)
  also have "\<dots> \<le> (?q + ?q) * (?m + 1) + ?m"
    by (intro add_right_mono mult_le_mono1 add_left_mono) simp
  also have "\<dots> \<le> ?q * (?m * 2 + 2) + ?m + 2" by (simp add: algebra_simps)
  also have "\<dots> = cost_bound ?m ?n" using cost_bound_exact [OF assms] by simp
  finally show ?thesis by (simp add: match_steps_def)
qed

theorem match_cost_bounded_witness:
  "cost_bound (length [STAR, 97, STAR, 98]) (length [97, 97, 97 :: u8]) < USIZE_MAX \<and>
   snd (match_steps [STAR, 97, STAR, 98] [97, 97, 97] Special)
     \<le> cost_bound (length [STAR, 97, STAR, 98]) (length [97, 97, 97 :: u8])"
proof -
  have b: "cost_bound (length [STAR, 97, STAR, 98]) (length [97, 97, 97 :: u8]) < USIZE_MAX"
    by (simp add: cost_bound_def sat_add_def sat_mul_def USIZE_MAX_def)
  then show ?thesis using match_cost_bounded [OF b] by blast
qed

lemma byte_element:
  assumes "decode p j 0 = Some (Byte b n, m)"
  shows "element_at p j = Some (Some (\<lambda>c. c = b), n)"
  using assms class_at_bracket [of j p 0]
  by (auto simp: element_at_def decode_def slice_get_def split: if_splits option.splits prod.splits)

lemma literal_from_spec:
  "\<not> has_magic_from p j \<Longrightarrow> j \<le> length p \<Longrightarrow> length out + (length p - j) \<le> cap \<Longrightarrow>
     \<exists>s. literal_from p cap j out = Some (out @ s) \<and> (\<forall>n. glob_match (elements p j) n \<longleftrightarrow> n = s) \<and>
       (s \<noteq> [] \<longrightarrow> (\<exists>n m. decode p j 0 = Some (Byte (hd s) n, m)))"
proof (induction p cap j out rule: literal_from.induct)
  case (1 p cap j out)
  show ?case
  proof (cases "decode p j 0")
    case None
    then have "element_at p j = None" by (auto simp: decode_def element_at_def split: option.splits if_splits)
    then show ?thesis using None by (simp add: literal_from.simps [of p cap j] elements_None)
  next
    case (Some em)
    then obtain b n m where d: "decode p j 0 = Some (Byte b n, m)"
      using 1(2) by (cases em) (auto simp: has_magic_from.simps [of p j] split: elem.splits)
    have nx: "j < length p" "j < n" "n \<le> length p" using decode_next [OF d] by (simp_all add: elem_next_def)
    have "\<not> has_magic_from p n" using 1(2) d by (simp add: has_magic_from.simps [of p j])
    moreover have "length (out @ [b]) + (length p - n) \<le> cap" "length out < cap" using 1(4) nx by simp_all
    ultimately obtain s where s: "literal_from p cap n (out @ [b]) = Some ((out @ [b]) @ s)"
      "\<forall>x. glob_match (elements p n) x \<longleftrightarrow> x = s" "length out < cap"
      using 1(1) [OF d refl refl _ _ nx(3)] by blast
    have "glob_match (elements p j) x \<longleftrightarrow> x = b # s" for x
      using elements_Some [OF byte_element [OF d]] s(2) by (cases x) simp_all
    then show ?thesis
      using s d by (intro exI [of _ "b # s"]) (simp add: literal_from.simps [of p cap j])
  qed
qed

text \<open>C37. A pattern without magic names exactly one file: \<open>literal\<close> yields its name when the buffer is
  long enough, and the pattern matches that name and no other.\<close>

theorem literal_names_one_file:
  assumes "\<not> has_magic p" and "length p \<le> cap"
  shows "\<exists>name. literal p cap = Some name \<and> (\<forall>n. matches p n \<longleftrightarrow> n = name)"
proof -
  obtain s where s: "literal p cap = Some s" "\<And>n. glob_match (elements p 0) n \<longleftrightarrow> n = s"
    "s \<noteq> [] \<longrightarrow> (\<exists>n m. decode p 0 0 = Some (Byte (hd s) n, m))"
    using literal_from_spec [of p 0 "[]" cap] assms by (auto simp: has_magic_def literal_def)
  have "matches p n \<longleftrightarrow> n = s" for n
    using matches_correct [of p n Special] s(2) [of n] s(3)
    by (auto simp: matches_def matches_with_def literal_dot hd_conv_nth)
  then show ?thesis using s(1) by blast
qed

theorem literal_names_one_file_witness:
  "\<not> has_magic [97, BACKSLASH, STAR, 98] \<and> literal [97, BACKSLASH, STAR, 98] 4 = Some [97, STAR, 98] \<and>
   matches [97, BACKSLASH, STAR, 98] [97, STAR, 98]"
proof -
  have h: "\<not> has_magic [97, BACKSLASH, STAR, 98]" by code_simp
  have l: "literal [97, BACKSLASH, STAR, 98] 4 = Some [97, STAR, 98]" by code_simp
  show ?thesis using literal_names_one_file [OF h, of 4] h l by auto
qed

end
