(* ===== verification/ElfImage.thy ===== *)
theory ElfImage
  imports Prelude "HOL-Library.Sublist"
begin

text \<open>
  The loader's view of an executable, \<open>src/crates/elf/src/lib.rs\<close>. The input is any byte string; every
  index, slice and unchecked addition of the source is a panic of the model when it is out of range,
  and every \<open>Err\<close> is a value. Offsets (\<open>usize\<close>) are natural numbers with the checks on overflow
  written out, addresses are 64-bit words.
\<close>

section \<open>Reading the file\<close>

datatype elf_error = TooSmall | BadMagic | Not64Bit | NotLittleEndian | BadVersion | WrongMachine
  | NeedsRelocation | NotExecutable | BadProgramHeaders | SegmentOutOfBounds | SegmentTruncated
  | WritableAndExecutable | SegmentUnreachable | SegmentsOverlap | EntryNotExecutable
  | AddressOverflow | TooManyProgramHeaders

type_synonym 'a elf_result = "(elf_error + 'a) checked"

definition fails :: "elf_error \<Rightarrow> 'a elf_result" where
  "fails e = Ok (Err e)"

definition returns :: "'a \<Rightarrow> 'a elf_result" where
  "returns x = Ok (Ok x)"

text \<open>The question mark operator, and indexing.\<close>

definition try_then :: "'a elf_result \<Rightarrow> ('a \<Rightarrow> 'b elf_result) \<Rightarrow> 'b elf_result" where
  "try_then r k = and_then r (\<lambda>v. case v of Err e \<Rightarrow> fails e | Ok x \<Rightarrow> k x)"

definition at_index :: "'a list \<Rightarrow> nat \<Rightarrow> ('a \<Rightarrow> 'b checked) \<Rightarrow> 'b checked" where
  "at_index b i k = (if i < length b then k (b ! i) else Err (Panic ''index out of bounds''))"

definition at_slice :: "'a list \<Rightarrow> nat \<Rightarrow> nat \<Rightarrow> ('a list \<Rightarrow> 'b checked) \<Rightarrow> 'b checked" where
  "at_slice b i j k =
     (if i \<le> j \<and> j \<le> length b then k (take (j - i) (drop i b)) else Err (Panic ''range out of bounds''))"

fun from_le_bytes :: "u8 list \<Rightarrow> 'a::len word" where
  "from_le_bytes [] = 0"
| "from_le_bytes (b # bs) = ucast b + 256 * from_le_bytes bs"

definition u16le :: "u8 list \<Rightarrow> nat \<Rightarrow> (u16 \<Rightarrow> 'b checked) \<Rightarrow> 'b checked" where
  "u16le b i k = at_index b i (\<lambda>b0. at_index b (i + 1) (\<lambda>b1. k (from_le_bytes [b0, b1])))"

definition u32le :: "u8 list \<Rightarrow> nat \<Rightarrow> (u32 \<Rightarrow> 'b checked) \<Rightarrow> 'b checked" where
  "u32le b i k = at_index b i (\<lambda>b0. at_index b (i + 1) (\<lambda>b1. at_index b (i + 2) (\<lambda>b2.
     at_index b (i + 3) (\<lambda>b3. k (from_le_bytes [b0, b1, b2, b3])))))"

definition u64le :: "u8 list \<Rightarrow> nat \<Rightarrow> (u64 \<Rightarrow> 'b checked) \<Rightarrow> 'b checked" where
  "u64le b i k = at_slice b i (i + 8) (\<lambda>v. k (from_le_bytes v))"

section \<open>Segments\<close>

definition MAGIC :: "u8 list" where "MAGIC = [0x7f, 0x45, 0x4c, 0x46]"
definition ELFCLASS64 :: u8 where "ELFCLASS64 = 2"
definition ELFDATA2LSB :: u8 where "ELFDATA2LSB = 1"
definition EV_CURRENT :: u8 where "EV_CURRENT = 1"
definition ET_EXEC :: u16 where "ET_EXEC = 2"
definition ET_DYN :: u16 where "ET_DYN = 3"
definition EM_AARCH64 :: u16 where "EM_AARCH64 = 183"
definition EM_RISCV :: u16 where "EM_RISCV = 243"
definition PT_LOAD :: u32 where "PT_LOAD = 1"
definition PF_X :: u32 where "PF_X = 1"
definition PF_W :: u32 where "PF_W = 2"
definition PF_R :: u32 where "PF_R = 4"
definition EHDR_SIZE :: nat where "EHDR_SIZE = 64"
definition PHDR_SIZE :: nat where "PHDR_SIZE = 56"
definition MAX_PHNUM :: nat where "MAX_PHNUM = 64"

record segment =
  vaddr :: u64
  memsz :: u64
  pflags :: u32
  data :: "u8 list"

definition is_readable :: "segment \<Rightarrow> bool" where "is_readable s \<longleftrightarrow> pflags s AND PF_R \<noteq> 0"
definition seg_writable :: "segment \<Rightarrow> bool" where "seg_writable s \<longleftrightarrow> pflags s AND PF_W \<noteq> 0"
definition is_executable :: "segment \<Rightarrow> bool" where "is_executable s \<longleftrightarrow> pflags s AND PF_X \<noteq> 0"

definition saturating_mul :: "'a::len word \<Rightarrow> 'a word \<Rightarrow> 'a word" where
  "saturating_mul a b = (if unat a * unat b < 2 ^ LENGTH('a) then a * b else - 1)"

definition page_range :: "segment \<Rightarrow> u64 \<Rightarrow> u64 \<times> u64" where
  "page_range s page_size =
     (vaddr s AND NOT (page_size - 1),
      saturating_mul (div_ceil (saturating_add (vaddr s) (memsz s)) page_size) page_size)"

record elf =
  bytes :: "u8 list"
  elf_entry :: u64
  phoff :: nat
  phnum :: nat
  phentsize :: nat

definition check_segment_bounds :: "nat \<Rightarrow> nat \<Rightarrow> nat \<Rightarrow> u64 \<Rightarrow> u64 \<Rightarrow> elf_error + nat" where
  "check_segment_bounds file_len p_offset filesz va msz =
     (if unat msz < filesz then Err SegmentTruncated
      else if 2 ^ 64 \<le> p_offset + filesz then Err SegmentOutOfBounds
      else if file_len < p_offset + filesz then Err SegmentOutOfBounds
      else if checked_add va msz = None then Err AddressOverflow
      else Ok (p_offset + filesz))"

definition segment_at :: "elf \<Rightarrow> nat \<Rightarrow> segment option elf_result" where
  "segment_at elf i =
     (let off = phoff elf + i * phentsize elf in
      rust_assert (off + PHDR_SIZE < 2 ^ 64) ''attempt to add with overflow''
       (at_slice (bytes elf) off (off + PHDR_SIZE) (\<lambda>ph.
         u32le ph 0 (\<lambda>ty.
           if ty \<noteq> PT_LOAD then returns None
           else
             u32le ph 4 (\<lambda>fl. u64le ph 8 (\<lambda>p_offset. u64le ph 16 (\<lambda>va. u64le ph 32 (\<lambda>filesz. u64le ph 40 (\<lambda>msz.
               case check_segment_bounds (length (bytes elf)) (unat p_offset) (unat filesz) va msz of
                 Err e \<Rightarrow> fails e
               | Ok e \<Rightarrow> at_slice (bytes elf) (unat p_offset) e (\<lambda>d.
                   returns (Some \<lparr>vaddr = va, memsz = msz, pflags = fl, data = d\<rparr>)))))))))))"

section \<open>Validation and parsing\<close>

fun check_overlaps :: "elf \<Rightarrow> segment \<Rightarrow> nat list \<Rightarrow> unit elf_result" where
  "check_overlaps elf seg [] = returns ()"
| "check_overlaps elf seg (j # js) =
     try_then (segment_at elf j) (\<lambda>other.
       case other of
         None \<Rightarrow> check_overlaps elf seg js
       | Some other \<Rightarrow>
           (case (page_range seg 4096, page_range other 4096) of ((a0, a1), (b0, b1)) \<Rightarrow>
              if a0 < b1 \<and> b0 < a1 then fails SegmentsOverlap else check_overlaps elf seg js))"

fun validate_loop :: "elf \<Rightarrow> nat list \<Rightarrow> bool \<Rightarrow> bool elf_result" where
  "validate_loop elf [] entry_ok = returns entry_ok"
| "validate_loop elf (i # is) entry_ok =
     try_then (segment_at elf i) (\<lambda>s.
       case s of
         None \<Rightarrow> validate_loop elf is entry_ok
       | Some seg \<Rightarrow>
           if seg_writable seg \<and> is_executable seg then fails WritableAndExecutable
           else if \<not> is_readable seg \<and> \<not> is_executable seg then fails SegmentUnreachable
           else
             rust_assert (is_executable seg \<and> vaddr seg \<le> elf_entry elf \<longrightarrow>
                 unat (vaddr seg) + unat (memsz seg) < 2 ^ 64) ''attempt to add with overflow''
               (let hit = (is_executable seg \<and> vaddr seg \<le> elf_entry elf \<and>
                      elf_entry elf < vaddr seg + memsz seg)
                in try_then (check_overlaps elf seg [0..<i]) (\<lambda>_. validate_loop elf is (entry_ok \<or> hit))))"

definition validate :: "elf \<Rightarrow> unit elf_result" where
  "validate elf =
     try_then (validate_loop elf [0..<phnum elf] False) (\<lambda>entry_ok.
       if \<not> entry_ok then fails EntryNotExecutable else returns ())"

text \<open>The expected machine is a parameter: it is chosen by the target the crate is built for.\<close>

definition elf_parse :: "u16 \<Rightarrow> u8 list \<Rightarrow> elf elf_result" where
  "elf_parse machine b =
     (if length b < EHDR_SIZE then fails TooSmall
      else
        at_slice b 0 4 (\<lambda>m. if m \<noteq> MAGIC then fails BadMagic
        else at_index b 4 (\<lambda>cl. if cl \<noteq> ELFCLASS64 then fails Not64Bit
        else at_index b 5 (\<lambda>en. if en \<noteq> ELFDATA2LSB then fails NotLittleEndian
        else at_index b 6 (\<lambda>ver. if ver \<noteq> EV_CURRENT then fails BadVersion
        else u16le b 16 (\<lambda>e_type. u16le b 18 (\<lambda>e_machine.
          if e_machine \<noteq> machine then fails WrongMachine
          else if e_type = ET_DYN then fails NeedsRelocation
          else if e_type \<noteq> ET_EXEC then fails NotExecutable
          else u64le b 24 (\<lambda>ent. u64le b 32 (\<lambda>off. u16le b 54 (\<lambda>entsize. u16le b 56 (\<lambda>num.
            if unat entsize < PHDR_SIZE then fails BadProgramHeaders
            else if MAX_PHNUM < unat num then fails TooManyProgramHeaders
            else if 2 ^ 64 \<le> unat num * unat entsize then fails BadProgramHeaders
            else if 2 ^ 64 \<le> unat off + unat num * unat entsize then fails BadProgramHeaders
            else if length b < unat off + unat num * unat entsize then fails BadProgramHeaders
            else
              let e = \<lparr>bytes = b, elf_entry = ent, phoff = unat off, phnum = unat num, phentsize = unat entsize\<rparr>
              in try_then (validate e) (\<lambda>_. returns e))))))))))))"

definition segments :: "elf \<Rightarrow> segment list" where
  "segments elf =
     List.map_filter (\<lambda>i. case segment_at elf i of Ok (Ok s) \<Rightarrow> s | _ \<Rightarrow> None) [0..<phnum elf]"

section \<open>No index is out of range\<close>

lemma at_index_ok [simp]: "i < length b \<Longrightarrow> at_index b i k = k (b ! i)"
  by (simp add: at_index_def)

lemma at_slice_ok [simp]: "i \<le> j \<Longrightarrow> j \<le> length b \<Longrightarrow> at_slice b i j k = k (take (j - i) (drop i b))"
  by (simp add: at_slice_def)

lemma le_ok [simp]:
  "i + 1 < length b \<Longrightarrow> u16le b i k16 = k16 (from_le_bytes [b ! i, b ! (i + 1)])"
  "i + 3 < length b \<Longrightarrow> u32le b i k32 = k32 (from_le_bytes [b ! i, b ! (i + 1), b ! (i + 2), b ! (i + 3)])"
  "i + 8 \<le> length b \<Longrightarrow> u64le b i k64 = k64 (from_le_bytes (take 8 (drop i b)))"
  by (simp_all add: u16le_def u32le_def u64le_def)

lemma try_then_simps [simp]:
  "try_then (returns x) k = k x" "try_then (fails e) k = fails e"
  by (simp_all add: try_then_def returns_def fails_def and_then_def)

lemma returns_iff [simp]: "returns x = returns y \<longleftrightarrow> x = y" "returns x \<noteq> fails e" "fails e \<noteq> returns x"
  by (simp_all add: returns_def fails_def)

definition settled :: "'a elf_result \<Rightarrow> bool" where
  "settled r \<longleftrightarrow> (\<exists>x. r = returns x) \<or> (\<exists>e. r = fails e)"

lemma settled_simps [simp]: "settled (returns x)" "settled (fails e)"
  by (auto simp: settled_def)

lemma settled_try: "settled r \<Longrightarrow> (\<And>x. r = returns x \<Longrightarrow> settled (k x)) \<Longrightarrow> settled (try_then r k)"
  by (auto simp: settled_def)

lemma settledE:
  assumes "settled r"
  obtains (ret) x where "r = returns x" | (bad) e where "r = fails e"
  using assms by (auto simp: settled_def)

text \<open>The program header table lies inside the file, as \<open>parse\<close> has checked.\<close>

definition table_inside :: "elf \<Rightarrow> bool" where
  "table_inside elf \<longleftrightarrow> PHDR_SIZE \<le> phentsize elf \<and>
     phoff elf + phnum elf * phentsize elf < 2 ^ 64 \<and>
     phoff elf + phnum elf * phentsize elf \<le> length (bytes elf)"

text \<open>What a segment that has been read satisfies.\<close>

definition segment_ok :: "elf \<Rightarrow> segment \<Rightarrow> bool" where
  "segment_ok elf s \<longleftrightarrow> unat (vaddr s) + unat (memsz s) < 2 ^ 64 \<and> length (data s) \<le> unat (memsz s) \<and>
     (\<exists>off. off + length (data s) \<le> length (bytes elf) \<and> data s = take (length (data s)) (drop off (bytes elf)))"

lemma segment_at_settled:
  assumes t: "table_inside elf" and i: "i < phnum elf"
  shows "settled (segment_at elf i)" and "segment_at elf i = returns (Some s) \<Longrightarrow> segment_ok elf s"
proof -
  have "Suc i * phentsize elf \<le> phnum elf * phentsize elf" using i by (intro mult_le_mono1) simp
  then have off: "phoff elf + i * phentsize elf + PHDR_SIZE \<le> phoff elf + phnum elf * phentsize elf"
    using t by (simp add: table_inside_def)
  let ?off = "phoff elf + i * phentsize elf"
  define ph where "ph = take PHDR_SIZE (drop ?off (bytes elf))"
  have lt: "?off + PHDR_SIZE < 2 ^ 64" "?off + PHDR_SIZE \<le> length (bytes elf)"
    using t off unfolding table_inside_def by linarith+
  have len: "length ph = PHDR_SIZE" using lt(2) by (simp add: ph_def)
  have sl: "at_slice (bytes elf) ?off (?off + PHDR_SIZE) k = k ph" for k :: "_ \<Rightarrow> segment option elf_result"
    using lt(2) by (simp add: ph_def)
  have eq: "segment_at elf i = (
      if from_le_bytes [ph ! 0, ph ! (0 + 1), ph ! (0 + 2), ph ! (0 + 3)] \<noteq> PT_LOAD then returns None
      else let fl = from_le_bytes [ph ! 4, ph ! (4 + 1), ph ! (4 + 2), ph ! (4 + 3)]; p_offset = from_le_bytes (take 8 (drop 8 ph));
               va = from_le_bytes (take 8 (drop 16 ph)); filesz = from_le_bytes (take 8 (drop 32 ph));
               msz = from_le_bytes (take 8 (drop 40 ph))
           in case check_segment_bounds (length (bytes elf)) (unat (p_offset :: u64)) (unat (filesz :: u64)) va msz of
                Err e \<Rightarrow> fails e
              | Ok e \<Rightarrow> at_slice (bytes elf) (unat p_offset) e (\<lambda>d.
                  returns (Some \<lparr>vaddr = va, memsz = msz, pflags = fl, data = d\<rparr>)))"
    using lt(1) len unfolding segment_at_def Let_def sl by (simp add: rust_assert_def PHDR_SIZE_def)
  have bounds: "unat va + unat msz < 2 ^ 64 \<and> f \<le> unat msz \<and> o' \<le> e \<and> e \<le> length (bytes elf) \<and> e = o' + f"
    if "check_segment_bounds (length (bytes elf)) o' f va msz = Ok e" for o' f e and va msz :: u64
    using that by (auto simp: check_segment_bounds_def checked_add_def split: if_splits)
  show "settled (segment_at elf i)"
    unfolding eq Let_def using bounds by (auto split: sum.splits)
  assume "segment_at elf i = returns (Some s)"
  then obtain p f where "data s = take f (drop p (bytes elf))" "p + f \<le> length (bytes elf)"
      "unat (vaddr s) + unat (memsz s) < 2 ^ 64" "f \<le> unat (memsz s)"
    unfolding eq Let_def by (auto split: sum.splits if_splits dest!: bounds)
  then show "segment_ok elf s" unfolding segment_ok_def by (auto intro!: exI [of _ p])
qed

lemma check_overlaps_settled:
  "table_inside elf \<Longrightarrow> \<forall>j \<in> set js. j < phnum elf \<Longrightarrow> settled (check_overlaps elf seg js)"
  by (induction js) (auto intro!: settled_try segment_at_settled(1) split: option.splits prod.splits)

lemma validate_loop_settled:
  "table_inside elf \<Longrightarrow> \<forall>i \<in> set is. i < phnum elf \<Longrightarrow> settled (validate_loop elf is entry_ok)"
proof (induction "is" arbitrary: entry_ok)
  case (Cons i "is")
  have i: "i < phnum elf" and js: "\<forall>j \<in> set [0..<i]. j < phnum elf" using Cons.prems by auto
  show ?case
    unfolding validate_loop.simps
  proof (rule settled_try [OF segment_at_settled(1) [OF Cons.prems(1) i]])
    fix x assume x: "segment_at elf i = returns x"
    show "settled (case x of None \<Rightarrow> validate_loop elf is entry_ok | Some seg \<Rightarrow>
           if seg_writable seg \<and> is_executable seg then fails WritableAndExecutable
           else if \<not> is_readable seg \<and> \<not> is_executable seg then fails SegmentUnreachable
           else
             rust_assert (is_executable seg \<and> vaddr seg \<le> elf_entry elf \<longrightarrow>
                 unat (vaddr seg) + unat (memsz seg) < 2 ^ 64) ''attempt to add with overflow''
               (let hit = (is_executable seg \<and> vaddr seg \<le> elf_entry elf \<and>
                      elf_entry elf < vaddr seg + memsz seg)
                in try_then (check_overlaps elf seg [0..<i]) (\<lambda>_. validate_loop elf is (entry_ok \<or> hit))))"
      using x segment_at_settled(2) [OF Cons.prems(1) i] Cons check_overlaps_settled [OF Cons.prems(1) js]
      by (auto simp: rust_assert_def segment_ok_def Let_def intro!: settled_try split: option.splits)
  qed
qed simp

lemma validate_settled: "table_inside elf \<Longrightarrow> settled (validate elf)"
  unfolding validate_def by (intro settled_try validate_loop_settled) auto

text \<open>\<open>parse\<close> once the reads are known to be in range.\<close>

lemma elf_parse_cases:
  obtains e where "elf_parse machine b = fails e"
  | e where "elf_parse machine b = try_then (validate e) (\<lambda>_. returns e)" "table_inside e" "bytes e = b" "phnum e \<le> MAX_PHNUM"
proof (cases "length b < EHDR_SIZE")
  case True
  then show thesis by (intro that(1) [of TooSmall]) (simp add: elf_parse_def)
next
  case False
  then have len: "64 \<le> length b" by (simp add: EHDR_SIZE_def)
  define e where "e = \<lparr>bytes = b, elf_entry = from_le_bytes (take 8 (drop 24 b)),
     phoff = unat (from_le_bytes (take 8 (drop 32 b)) :: u64), phnum = unat (from_le_bytes [b ! 56, b ! (56 + 1)] :: u16),
     phentsize = unat (from_le_bytes [b ! 54, b ! (54 + 1)] :: u16)\<rparr>"
  define P where "P r \<longleftrightarrow> (\<exists>x. r = fails x) \<or>
     r = try_then (validate e) (\<lambda>_. returns e) \<and> table_inside e \<and> phnum e \<le> MAX_PHNUM" for r
  have step: "P (if c then fails x else r)" if "\<not> c \<Longrightarrow> P r" for c x r
    using that by (auto simp: P_def)
  have reads: "at_slice b 0 4 k0 = k0 (take 4 b)" "at_index b 4 k1 = k1 (b ! 4)" "at_index b 5 k1 = k1 (b ! 5)"
    "at_index b 6 k1 = k1 (b ! 6)" "u16le b 16 k2 = k2 (from_le_bytes [b ! 16, b ! (16 + 1)])"
    "u16le b 18 k2 = k2 (from_le_bytes [b ! 18, b ! (18 + 1)])"
    "u16le b 54 k2 = k2 (from_le_bytes [b ! 54, b ! (54 + 1)])"
    "u16le b 56 k2 = k2 (from_le_bytes [b ! 56, b ! (56 + 1)])"
    "u64le b 24 k3 = k3 (from_le_bytes (take 8 (drop 24 b)))" "u64le b 32 k3 = k3 (from_le_bytes (take 8 (drop 32 b)))"
    for k0 k1 k2 k3 :: "_ \<Rightarrow> elf elf_result"
    using len by simp_all
  have "P (elf_parse machine b)"
    unfolding elf_parse_def Let_def reads by (intro step) (simp add: P_def e_def table_inside_def not_less not_le)
  then show thesis unfolding P_def using that by (auto simp: e_def)
qed

text \<open>C21. Parsing never panics: for every byte string, no index, slice or addition of the loader's parser
  is out of range, and the answer is an image or one of its error codes.\<close>

theorem elf_parse_never_panics:
  "(\<exists>e. elf_parse machine b = Ok (Ok e)) \<or> (\<exists>x. elf_parse machine b = Ok (Err x))"
proof (cases rule: elf_parse_cases [of machine b])
  case (2 e)
  then show ?thesis by (cases rule: settledE [OF validate_settled [OF 2(2)]]) (simp_all, simp_all add: returns_def fails_def)
qed (simp add: fails_def)

section \<open>What an accepted image satisfies\<close>

lemma unat_saturating_mul: "unat (saturating_mul a b) = min (unat a * unat b) (2 ^ LENGTH('a) - 1)"
  for a b :: "'a::len word"
  by (auto simp: saturating_mul_def unat_mult_small unsigned_minus_1_eq_mask mask_eq_exp_minus_1)

lemma and_not_mask: "unat (v AND - 4096 :: u64) = unat v div 4096 * 4096"
proof -
  have v: "unat v < 2 ^ 64" using unsigned_less [of v] by simp
  have "v AND - 4096 = v AND NOT (mask 12)" by (simp add: mask_eq_exp_minus_1)
  also have "\<dots> = push_bit 12 (drop_bit 12 v)" by (rule bit_word_eqI) (auto simp: bit_simps)
  finally have "unat (v AND - 4096) = take_bit 64 (push_bit 12 (drop_bit 12 (unat v)))"
    by (simp add: unsigned_push_bit_eq unsigned_drop_bit_eq take_bit_nat_eq_self [OF v])
  also have "\<dots> = unat v div 4096 * 4096"
    using v by (simp add: push_bit_eq_mult drop_bit_eq_div take_bit_nat_eq_self)
  finally show ?thesis .
qed

definition spans :: "segment \<Rightarrow> nat \<Rightarrow> bool" where
  "spans s x \<longleftrightarrow> unat (vaddr s) \<le> x \<and> x < unat (vaddr s) + unat (memsz s)"

definition pages_disjoint :: "segment \<Rightarrow> segment \<Rightarrow> bool" where
  "pages_disjoint s t \<longleftrightarrow> (\<forall>x y. spans s x \<longrightarrow> spans t y \<longrightarrow> x div 4096 \<noteq> y div 4096)"

text \<open>Every page of a segment lies inside its page range, also when the end saturates.\<close>

lemma page_range_covers:
  assumes "unat (vaddr s) + unat (memsz s) < 2 ^ 64" "spans s x" "page_range s 4096 = (a0, a1)"
  shows "unat a0 \<le> x div 4096 * 4096" "x div 4096 * 4096 < unat a1"
proof -
  have x: "unat (vaddr s) \<le> x" "x < unat (vaddr s) + unat (memsz s)" using assms(2) by (simp_all add: spans_def)
  have a: "unat a0 = unat (vaddr s) div 4096 * 4096"
    "unat a1 = min ((4095 + (unat (vaddr s) + unat (memsz s))) div 4096 * 4096) (2 ^ 64 - 1)"
    using assms(1,3)
    by (auto simp: page_range_def and_not_mask unat_saturating_mul unat_saturating_add unat_div_ceil)
  show "unat a0 \<le> x div 4096 * 4096" using x(1) unfolding a by (simp add: div_le_mono)
  have "(x + 4096) div 4096 \<le> (unat (vaddr s) + unat (memsz s) + 4095) div 4096"
    using x(2) by (intro div_le_mono) simp
  then have "x div 4096 < (unat (vaddr s) + unat (memsz s) + 4095) div 4096" by simp
  then have "x div 4096 * 4096 < (unat (vaddr s) + unat (memsz s) + 4095) div 4096 * 4096" by simp
  moreover have "x div 4096 * 4096 < 2 ^ 64 - 1"
    using x(2) assms(1) by (intro le_less_trans [OF div_times_less_eq_dividend [of x 4096]]) simp
  ultimately show "x div 4096 * 4096 < unat a1" unfolding a by (simp add: ac_simps)
qed

lemma page_ranges_apart:
  assumes s: "unat (vaddr s) + unat (memsz s) < 2 ^ 64" and t: "unat (vaddr t) + unat (memsz t) < 2 ^ 64"
    and r: "page_range s 4096 = (a0, a1)" "page_range t 4096 = (b0, b1)" "\<not> (a0 < b1 \<and> b0 < a1)"
  shows "pages_disjoint s t"
  unfolding pages_disjoint_def
proof (intro allI impI notI)
  fix x y assume xy: "spans s x" "spans t y" "x div 4096 = y div 4096"
  note s_covers = page_range_covers [OF s xy(1) r(1)] and t_covers = page_range_covers [OF t xy(2) r(2)]
  have "unat a0 < unat b1" using le_less_trans [OF s_covers(1)] t_covers(2) xy(3) by simp
  moreover have "unat b0 < unat a1" using le_less_trans [OF t_covers(1)] s_covers(2) xy(3) by simp
  ultimately show False using r(3) by (simp add: word_less_nat_alt)
qed

lemma pages_disjoint_sym: "pages_disjoint s t \<Longrightarrow> pages_disjoint t s"
  unfolding pages_disjoint_def by metis

lemma check_overlaps_apart:
  assumes t: "table_inside elf" and seg: "segment_ok elf seg"
  shows "\<forall>j \<in> set js. j < phnum elf \<Longrightarrow> check_overlaps elf seg js = returns () \<Longrightarrow> j \<in> set js \<Longrightarrow>
     segment_at elf j = returns (Some other) \<Longrightarrow> pages_disjoint seg other"
proof (induction js)
  case (Cons i js)
  have i: "i < phnum elf" using Cons.prems(1) by simp
  from segment_at_settled(1) [OF t i] show ?case
  proof (cases rule: settledE)
    case (ret x)
    show ?thesis
    proof (cases "i = j")
      case True
      then have x: "x = Some other" using ret Cons.prems(4) by simp
      have ok: "segment_ok elf other" using segment_at_settled(2) [OF t i] ret x by simp
      obtain a0 a1 b0 b1 where r: "page_range seg 4096 = (a0, a1)" "page_range other 4096 = (b0, b1)"
        by (metis surj_pair)
      have "\<not> (a0 < b1 \<and> b0 < a1)" using Cons.prems(2) ret x r by (auto split: if_splits)
      then show ?thesis using page_ranges_apart r seg ok unfolding segment_ok_def by metis
    next
      case False
      then show ?thesis using Cons ret by (auto split: option.splits prod.splits if_splits)
    qed
  qed (use Cons.prems(2) in simp)
qed simp

text \<open>The fact one turn of the validation loop establishes about header \<open>i\<close>.\<close>

definition header_valid :: "elf \<Rightarrow> nat \<Rightarrow> bool" where
  "header_valid elf i \<longleftrightarrow> (\<exists>x. segment_at elf i = returns x) \<and>
     (\<forall>s. segment_at elf i = returns (Some s) \<longrightarrow>
        \<not> (seg_writable s \<and> is_executable s) \<and> (is_readable s \<or> is_executable s) \<and> segment_ok elf s \<and>
        (\<forall>j < i. \<forall>t. segment_at elf j = returns (Some t) \<longrightarrow> pages_disjoint s t))"

definition holds_entry :: "elf \<Rightarrow> nat \<Rightarrow> bool" where
  "holds_entry elf i \<longleftrightarrow>
     (\<exists>s. segment_at elf i = returns (Some s) \<and> is_executable s \<and> spans s (unat (elf_entry elf)))"

lemma validate_step:
  assumes t: "table_inside elf" and i: "i < phnum elf"
    and run: "validate_loop elf (i # is) b = returns r"
  shows "header_valid elf i \<and> (\<exists>b'. validate_loop elf is b' = returns r \<and> (b' \<longrightarrow> b \<or> holds_entry elf i))"
  using segment_at_settled(1) [OF t i]
proof (cases rule: settledE)
  case (ret x)
  show ?thesis
  proof (cases x)
    case None
    then show ?thesis using run ret by (auto simp: header_valid_def)
  next
    case (Some seg)
    have ok: "segment_ok elf seg" using segment_at_settled(2) [OF t i] ret Some by simp
    have js: "\<forall>j \<in> set [0..<i]. j < phnum elf" using i by auto
    let ?hit = "is_executable seg \<and> vaddr seg \<le> elf_entry elf \<and> elf_entry elf < vaddr seg + memsz seg"
    have run': "\<not> (seg_writable seg \<and> is_executable seg)" "is_readable seg \<or> is_executable seg"
      "try_then (check_overlaps elf seg [0..<i]) (\<lambda>_. validate_loop elf is (b \<or> ?hit)) = returns r"
      using run ret Some ok by (auto simp: segment_ok_def rust_assert_def Let_def split: if_splits)
    have c: "check_overlaps elf seg [0..<i] = returns ()"
      using run'(3) check_overlaps_settled [OF t js, of seg] by (auto elim: settledE)
    have "?hit \<Longrightarrow> holds_entry elf i"
      using ret Some ok
      by (auto simp: holds_entry_def spans_def segment_ok_def word_le_nat_alt word_less_nat_alt unat_add_small)
    then show ?thesis
      using run' c ret Some ok check_overlaps_apart [OF t ok js c] by (auto simp: header_valid_def)
  qed
qed (use run in simp)

lemma validate_loop_valid:
  "table_inside elf \<Longrightarrow> \<forall>i \<in> set is. i < phnum elf \<Longrightarrow> validate_loop elf is b = returns r \<Longrightarrow>
     (\<forall>i \<in> set is. header_valid elf i) \<and> (r \<longrightarrow> b \<or> (\<exists>i \<in> set is. holds_entry elf i))"
proof (induction "is" arbitrary: b)
  case (Cons i "is")
  from validate_step [OF Cons.prems(1) _ Cons.prems(3)] Cons.prems(2)
  obtain b' where "header_valid elf i" "validate_loop elf is b' = returns r" "b' \<longrightarrow> b \<or> holds_entry elf i"
    by auto
  with Cons.IH [OF Cons.prems(1), of b'] Cons.prems(2) show ?case by auto
qed simp

lemma validate_valid:
  assumes "table_inside elf" "validate elf = returns ()"
  shows "\<forall>i < phnum elf. header_valid elf i" "\<exists>i < phnum elf. holds_entry elf i"
proof -
  have "settled (validate_loop elf [0..<phnum elf] False)" using assms(1) by (intro validate_loop_settled) auto
  then obtain r where r: "validate_loop elf [0..<phnum elf] False = returns r" r
    using assms(2) unfolding validate_def by (auto elim!: settledE split: if_splits)
  from validate_loop_valid [OF assms(1) _ r(1)] r(2)
  show "\<forall>i < phnum elf. header_valid elf i" "\<exists>i < phnum elf. holds_entry elf i" by auto
qed

lemma segments_iff: "s \<in> set (segments elf) \<longleftrightarrow> (\<exists>i < phnum elf. segment_at elf i = returns (Some s))"
  by (force simp: segments_def List.map_filter_def returns_def split: sum.splits)

lemma sorted_wrt_map_filter:
  "sorted_wrt (\<lambda>a b. \<forall>x y. f a = Some x \<longrightarrow> f b = Some y \<longrightarrow> R x y) xs \<Longrightarrow> sorted_wrt R (List.map_filter f xs)"
  by (induction xs) (auto simp: List.map_filter_def split: option.splits)

lemma segments_apart:
  assumes "\<forall>i < phnum elf. header_valid elf i"
  shows "sorted_wrt pages_disjoint (segments elf)"
  unfolding segments_def
proof (rule sorted_wrt_map_filter, rule sorted_wrt_mono_rel [OF _ sorted_wrt_upt])
  fix i j assume ij: "i \<in> set [0..<phnum elf]" "j \<in> set [0..<phnum elf]" "i < j"
  then have "header_valid elf j" using assms by auto
  with ij(3) show "\<forall>x y. (case segment_at elf i of Ok (Ok s) \<Rightarrow> s | _ \<Rightarrow> None) = Some x \<longrightarrow>
      (case segment_at elf j of Ok (Ok s) \<Rightarrow> s | _ \<Rightarrow> None) = Some y \<longrightarrow> pages_disjoint x y"
    by (auto simp: header_valid_def returns_def pages_disjoint_sym split: sum.splits)
qed

lemma elf_parse_accepts:
  assumes "elf_parse machine b = Ok (Ok e)"
  shows "table_inside e \<and> bytes e = b \<and> validate e = returns ()"
proof (cases rule: elf_parse_cases [of machine b])
  case (1 x)
  then show ?thesis using assms by (simp add: fails_def)
next
  case (2 e')
  from validate_settled [OF 2(2)] show ?thesis
    using assms 2 by (cases rule: settledE) (simp_all, auto simp: returns_def fails_def)
qed

text \<open>C12. An image the parser accepts is safe to map. No segment is both writable and executable and each
  one is readable or executable; its address range does not wrap, and its bytes are a slice of the file
  that fits in its memory; no page is shared by two segments, whatever their page ranges round to; and the
  entry point lies inside an executable segment.\<close>

theorem elf_parse_wellformed:
  assumes "elf_parse machine b = Ok (Ok e)"
  shows "(\<forall>s \<in> set (segments e). \<not> (seg_writable s \<and> is_executable s) \<and> (is_readable s \<or> is_executable s) \<and>
            unat (vaddr s) + unat (memsz s) < 2 ^ 64 \<and> length (data s) \<le> unat (memsz s) \<and> sublist (data s) b) \<and>
         sorted_wrt pages_disjoint (segments e) \<and>
         (\<exists>s \<in> set (segments e). is_executable s \<and> spans s (unat (elf_entry e)))"
proof (intro conjI ballI)
  note acc = elf_parse_accepts [OF assms]
  then have valid: "\<forall>i < phnum e. header_valid e i" "\<exists>i < phnum e. holds_entry e i"
    using validate_valid [of e] by blast+
  have sl: "sublist (take n (drop k b)) b" for n k
    by (metis append_take_drop_id sublist_def)
  fix s assume "s \<in> set (segments e)"
  then have s: "\<not> (seg_writable s \<and> is_executable s)" "is_readable s \<or> is_executable s" "segment_ok e s"
    using valid(1) by (auto simp: segments_iff header_valid_def)
  from s show "\<not> (seg_writable s \<and> is_executable s)" "is_readable s \<or> is_executable s"
    "unat (vaddr s) + unat (memsz s) < 2 ^ 64" "length (data s) \<le> unat (memsz s)"
    using acc by (auto simp: segment_ok_def)
  from s(3) acc show "sublist (data s) b" unfolding segment_ok_def by (metis sl)
next
  show "sorted_wrt pages_disjoint (segments e)"
    using validate_valid(1) elf_parse_accepts [OF assms] segments_apart by blast
  show "\<exists>s \<in> set (segments e). is_executable s \<and> spans s (unat (elf_entry e))"
    using validate_valid(2) elf_parse_accepts [OF assms] unfolding holds_entry_def by (meson segments_iff)
qed

text \<open>An image with a code segment and a data segment of sixteen bytes, one of them in the file, that crosses a
  page boundary.\<close>

definition sample_image :: "u8 list" where
  "sample_image =
    [127, 69, 76, 70, 2, 1, 1, 0, 0, 0, 0, 0, 0, 0, 0, 0, 2, 0, 183, 0, 1, 0, 0, 0, 0, 0, 64, 0,
     0, 0, 0, 0, 64, 0, 0, 0, 0, 0, 0, 0, 0, 0, 0, 0, 0, 0, 0, 0, 0, 0, 0, 0, 64, 0, 56, 0,
     2, 0, 0, 0, 0, 0, 0, 0, 1, 0, 0, 0, 5, 0, 0, 0, 176, 0, 0, 0, 0, 0, 0, 0, 0, 0, 64, 0,
     0, 0, 0, 0, 0, 0, 64, 0, 0, 0, 0, 0, 4, 0, 0, 0, 0, 0, 0, 0, 4, 0, 0, 0, 0, 0, 0, 0,
     0, 16, 0, 0, 0, 0, 0, 0, 1, 0, 0, 0, 6, 0, 0, 0, 180, 0, 0, 0, 0, 0, 0, 0, 248, 31, 64, 0,
     0, 0, 0, 0, 248, 31, 64, 0, 0, 0, 0, 0, 1, 0, 0, 0, 0, 0, 0, 0, 16, 0, 0, 0, 0, 0, 0, 0,
     0, 16, 0, 0, 0, 0, 0, 0, 192, 3, 95, 214, 7]"

definition sample_elf :: elf where
  "sample_elf = \<lparr>bytes = sample_image, elf_entry = 0x400000, phoff = 64, phnum = 2, phentsize = 56\<rparr>"

lemmas elf_consts = MAGIC_def ELFCLASS64_def ELFDATA2LSB_def EV_CURRENT_def ET_EXEC_def ET_DYN_def EM_AARCH64_def
  PT_LOAD_def PF_X_def PF_W_def PF_R_def EHDR_SIZE_def PHDR_SIZE_def MAX_PHNUM_def

definition sample_text :: segment where
  "sample_text = \<lparr>vaddr = 0x400000, memsz = 4, pflags = 5, data = [192, 3, 95, 214]\<rparr>"

definition sample_data :: segment where
  "sample_data = \<lparr>vaddr = 0x401ff8, memsz = 16, pflags = 6, data = [7]\<rparr>"

lemma sample_segments:
  "segment_at sample_elf 0 = returns (Some sample_text)" "segment_at sample_elf 1 = returns (Some sample_data)"
  by (simp_all add: segment_at_def sample_elf_def sample_image_def rust_assert_def elf_consts at_slice_def at_index_def
    u32le_def u64le_def check_segment_bounds_def checked_add_def sample_text_def sample_data_def)

lemma sample_validates: "validate sample_elf = returns ()"
  using sample_segments
  by (simp add: validate_def sample_text_def sample_data_def sample_elf_def elf_consts upt_rec page_range_def seg_writable_def
    is_executable_def is_readable_def rust_assert_def saturating_mul_def saturating_add_def div_ceil_def)

theorem elf_parse_wellformed_witness:
  "elf_parse EM_AARCH64 sample_image = Ok (Ok sample_elf) \<and> segments sample_elf = [sample_text, sample_data] \<and>
   sorted_wrt pages_disjoint (segments sample_elf)"
proof -
  have "elf_parse EM_AARCH64 sample_image = returns sample_elf"
    using sample_validates
    by (simp add: elf_parse_def sample_elf_def sample_image_def elf_consts at_slice_def at_index_def u16le_def u64le_def)
  then have "elf_parse EM_AARCH64 sample_image = Ok (Ok sample_elf)" by (simp add: returns_def)
  moreover have "segments sample_elf = [sample_text, sample_data]"
    using sample_segments by (simp add: segments_def sample_elf_def upt_rec List.map_filter_def returns_def)
  ultimately show ?thesis using elf_parse_wellformed [of EM_AARCH64 sample_image sample_elf] by blast
qed

end
