(* ===== verification/Spec2Isabelle.thy ===== *)
theory Spec2Isabelle
  imports Untyped Paging SchedClaims Glob ElfImage
begin

text \<open>
  The nife kernel and the pure crates it is built from.

  \<^bold>\<open>The program.\<close> nife is a capability microkernel. A thread acts only through the capabilities of its
  own table; the objects they name are endpoints (synchronous rendezvous), untyped regions of memory,
  frames, address spaces, threads under construction, one-shot replies, interrupts and devices. The
  kernel allocates from regions that processes hold, names objects by generational names, and tears a
  region down with everything in it. The algorithms are pure crates under \<open>src/crates\<close>; the kernel under
  \<open>src/kernel/src\<close> puts them behind locks.

  \<^bold>\<open>Conventions.\<close> Machine integers are words of their width. \<open>Ok\<close> and \<open>Err\<close> stand for \<open>Result\<close>; a value
  of type \<open>'a checked\<close> is \<open>Err (Panic msg)\<close> where the code panics (an assertion, an unwrap, an index or an
  unchecked addition). A function of the code that changes state takes the state as its last argument
  and returns its result with the new state. One critical section under a lock is one function; a call
  that blocks is the function up to the switch and a second one for what it does when it resumes. Kernel
  functions take the number of the core that runs them.

  \<^bold>\<open>The theories.\<close>
  \<^item> \<open>Prelude\<close>: words with the checked and saturating arithmetic of Rust, \<open>checked\<close>, list helpers.
  \<^item> \<open>Capability\<close> (\<open>crates/capability\<close>): rights, capability tables, the decisions on reaping and surveying.
    Over any sequence of operations a table confines authority.
  \<^item> \<open>Intrusive\<close> (\<open>crates/intrusive\<close>), \<open>Ipc\<close> (\<open>crates/ipc\<close>): the queue whose links live in its nodes and the
    endpoint of two such queues. The endpoint on links refines the endpoint on lists; order, conservation
    and no missed rendezvous are shown on the lists.
  \<^item> \<open>Slots\<close> (\<open>crates/slots\<close>): the generational table, and the interface \<open>name_table\<close> under which its clients use it.
  \<^item> \<open>Regions\<close> (\<open>crates/regions\<close>): the untyped regions, split and retyped and claimed for destruction, over
    any interleaving of claims in flight; the runs of regions form a forest.
  \<^item> \<open>Frames\<close> (\<open>crates/frames\<close>), \<open>Untyped\<close> (\<open>kernel/src/untyped.rs\<close>): the frame allocator, and both together:
    no interleaving frees a frame twice.
  \<^item> \<open>Paging\<close> (\<open>crates/paging\<close>): flags, the two hardware formats behind the interface \<open>page_format_laws\<close>,
    the mapper, and the identity domain of a device.
  \<^item> \<open>WakeHandshake\<close> (\<open>crates/wake_handshake\<close>): the state machine that parks and wakes one thread.
  \<^item> \<open>Sched\<close>, \<open>SchedInv\<close>, \<open>SchedOps\<close>, \<open>SchedReap\<close>, \<open>SchedSteps\<close>, \<open>SchedClaims\<close> (\<open>kernel/src/sched.rs\<close>, \<open>thread.rs\<close>,
    \<open>cap.rs\<close>, \<open>cpu.rs\<close>): the scheduler state and its operations, the invariant, its preservation by each
    operation, by the teardown of a region and by every step of every core, and the properties of the
    states reachable from boot.
  \<^item> \<open>Glob\<close> (\<open>crates/glob\<close>): the pattern matcher, its equivalence with an exhaustive reading and its cost.
  \<^item> \<open>ElfImage\<close> (\<open>crates/elf\<close>): the parser of executables, which never panics and accepts only images that
    are safe to map.

  \<^bold>\<open>Bounds and fuel.\<close> Recursions that are not structural carry termination proofs. The rescan in
  \<open>reap_endpoints\<close> has fuel; the length of the endpoint table is enough, as every turn removes one entry,
  and the result is proved to be \<open>Some\<close>. Region tables have between one and \<open>2 ^ 32 - 1\<close> slots, which the
  32-bit generations need; the frame allocator manages fewer than \<open>2 ^ 32\<close> frames.

  \<^bold>\<open>Not modelled.\<close> Architecture code, drivers, boot and the locks themselves: their behaviour is that of the
  hardware. A thread's kernel stack and saved registers are not part of its record. User programs,
  file and network servers, their protocols, the shell and the host tools are not modelled.
\<close>

end
